(* ===== verification/Prelude.thy ===== *)
theory Prelude
  imports Main "HOL-Library.Word" "HOL-Library.Monad_Syntax"
begin

unbundle bit_operations_syntax

text \<open>
  Shared vocabulary of the bmRPC development.

  The host modelled is the one the sources are configured for (\<^verbatim>\<open>bmRPC.h\<close>: P64, the
  LP64 data model, objects stored least significant byte first). Machine integers are words of
  their C++ width, so \<open>+\<close> and \<open>-\<close> wrap as they do on \<^verbatim>\<open>size_t\<close>.

  Undefined behaviour is a value: an operation that would touch memory outside an array, or
  dereference a dead pointer, returns \<open>None\<close>. A lemma that concludes \<open>f x = Some y\<close> therefore
  states, among other things, that \<open>f\<close> is memory safe on \<open>x\<close>.

  The theory holds the integer types, \<^verbatim>\<open>memcpy\<close>, the byte representation of words and
  the lemma collections the component theories use.
\<close>

section \<open>Types\<close>

type_synonym u8 = "8 word"
type_synonym u16 = "16 word"
type_synonym u32 = "32 word"
type_synonym u64 = "64 word"
type_synonym size_t = "64 word"
type_synonym bytes = "u8 list"

named_theorems com_simps \<open>equations of the data link operations\<close>
named_theorems stream_simps \<open>how the streamer operations act on the byte streams\<close>
named_theorems codec_simps \<open>encoding and decoding of values\<close>

section \<open>Results that may be undefined\<close>

text \<open>Case analysis of an option bind, used for every monadic operation of the model.\<close>

lemma bind_SomeE:
  assumes "Option.bind m f = Some r"
  obtains x where "m = Some x" and "f x = Some r"
  using assms by (cases m) auto

lemma bind_SomeI: "m = Some x \<Longrightarrow> f x = Some r \<Longrightarrow> Option.bind m f = Some r"
  by simp

section \<open>Copying memory\<close>

text \<open>
  \<open>memcpy dst d src s n\<close> copies \<open>n\<close> elements from \<open>&src[s]\<close> to \<open>&dst[d]\<close>; it is undefined when
  either range leaves its array. It models \<^verbatim>\<open>memcpy\<close> and \<^verbatim>\<open>std::copy\<close> on the
  one-byte element types of the sources.
\<close>

definition memcpy :: "'a list \<Rightarrow> nat \<Rightarrow> 'a list \<Rightarrow> nat \<Rightarrow> nat \<Rightarrow> 'a list option" where
  "memcpy dst d src s n =
     (if d + n \<le> length dst \<and> s + n \<le> length src
      then Some (take d dst @ take n (drop s src) @ drop (d + n) dst)
      else None)"

lemma memcpy_Some [simp]:
  "d + n \<le> length dst \<Longrightarrow> s + n \<le> length src \<Longrightarrow>
   memcpy dst d src s n = Some (take d dst @ take n (drop s src) @ drop (d + n) dst)"
  by (simp add: memcpy_def)

lemma memcpy_SomeD:
  "memcpy dst d src s n = Some r \<Longrightarrow>
   d + n \<le> length dst \<and> s + n \<le> length src \<and> r = take d dst @ take n (drop s src) @ drop (d + n) dst"
  by (simp add: memcpy_def split: if_splits)

lemma length_splice [simp]:
  "d + length xs \<le> length dst \<Longrightarrow> length (take d dst @ xs @ drop (d + length xs) dst) = length dst"
  by simp

lemma nth_splice:
  assumes "d + n \<le> length dst" and "n \<le> length xs" and "j < length dst"
  shows "(take d dst @ take n xs @ drop (d + n) dst) ! j =
         (if d \<le> j \<and> j < d + n then xs ! (j - d) else dst ! j)"
  using assms by (auto simp: nth_append)

section \<open>Byte representation of words\<close>

text \<open>
  \<open>bytes_of n w\<close> are the \<open>n\<close> bytes of an object of value \<open>w\<close> as the host stores it;
  \<open>word_of\<close> reads an object back from its bytes.
\<close>

primrec bytes_of :: "nat \<Rightarrow> 'a::len word \<Rightarrow> bytes" where
  "bytes_of 0 w = []"
| "bytes_of (Suc n) w = ucast w # bytes_of n (drop_bit 8 w)"

primrec word_of :: "bytes \<Rightarrow> 'a::len word" where
  "word_of [] = 0"
| "word_of (b # bs) = ucast b OR push_bit 8 (word_of bs)"

lemma length_bytes_of [simp]: "length (bytes_of n w) = n"
  by (induction n arbitrary: w) auto

lemma bytes_of_eq_Nil [simp]: "bytes_of n w = [] \<longleftrightarrow> n = 0"
  by (cases n) auto

lemma word_of_bytes_of: "word_of (bytes_of n w) = take_bit (8 * n) (w :: 'a::len word)"
proof (induction n arbitrary: w)
  case 0
  then show ?case by simp
next
  case (Suc n)
  show ?case
    by (rule bit_eqI) (auto simp: Suc bit_simps)
qed

lemma word_of_bytes_of_id [simp, codec_simps]:
  "LENGTH('a) \<le> 8 * n \<Longrightarrow> word_of (bytes_of n w) = (w :: 'a::len word)"
  by (simp add: word_of_bytes_of take_bit_word_eq_self)

lemma not_bit_word_of: "8 * length bs \<le> k \<Longrightarrow> \<not> bit (word_of bs :: 'a::len word) k"
proof (induction bs arbitrary: k)
  case (Cons c cs)
  then show ?case by (auto simp: bit_simps dest: bit_imp_le_length)
qed simp

lemma bytes_of_word_of [simp, codec_simps]:
  assumes "8 * length bs \<le> LENGTH('a)"
  shows "bytes_of (length bs) (word_of bs :: 'a::len word) = bs"
  using assms
proof (induction bs)
  case Nil
  then show ?case by simp
next
  case (Cons b bs)
  have hd: "ucast (ucast b OR push_bit 8 (word_of bs) :: 'a word) = b"
    using Cons.prems by (intro bit_eqI) (auto simp: bit_simps)
  have tl: "drop_bit 8 (ucast b OR push_bit 8 (word_of bs) :: 'a word) = word_of bs"
    using Cons.prems by (intro bit_eqI) (auto simp: bit_simps not_bit_word_of dest: bit_imp_le_length)
  from Cons have "bytes_of (length bs) (word_of bs :: 'a word) = bs" by simp
  then show ?case by (simp only: word_of.simps length_Cons bytes_of.simps hd tl)
qed

section \<open>Words and naturals\<close>

lemma unat_size_t_less: "unat (x :: size_t) < 18446744073709551616"
  using unsigned_less [of x, where 'a = nat] by simp

lemma unat_add_small:
  "unat (x :: size_t) + unat y < 18446744073709551616 \<Longrightarrow> unat (x + y) = unat x + unat y"
  by (simp add: unat_word_ariths)

lemma unat_diff_small: "y \<le> x \<Longrightarrow> unat (x - y :: size_t) = unat x - unat y"
  by (simp add: unat_sub)

lemma unat_of_nat_small:
  "n < 18446744073709551616 \<Longrightarrow> unat (of_nat n :: size_t) = n"
  by (simp add: unat_of_nat take_bit_nat_eq_self)

lemma sint_size_t:
  "sint (w :: size_t) =
     (if uint w < 9223372036854775808 then uint w else uint w - 18446744073709551616)"
proof -
  have w: "0 \<le> uint w" "uint w < 18446744073709551616"
    using unsigned_less [of w, where 'a = int] by simp_all
  have s: "sint w = (uint w + 9223372036854775808) mod 18446744073709551616 - 9223372036854775808"
    by (simp add: sint_uint signed_take_bit_eq_take_bit_shift take_bit_eq_mod)
  show ?thesis
  proof (cases "uint w < 9223372036854775808")
    case True
    with w have "(uint w + 9223372036854775808) mod 18446744073709551616 = uint w + 9223372036854775808"
      by (intro mod_pos_pos_trivial) auto
    with True s show ?thesis by simp
  next
    case False
    have "(uint w + 9223372036854775808) mod 18446744073709551616
        = (uint w - 9223372036854775808 + 1 * 18446744073709551616) mod 18446744073709551616" by (simp add: add.commute)
    also have "\<dots> = (uint w - 9223372036854775808) mod 18446744073709551616"
      by (rule mod_mult_self1)
    also have "\<dots> = uint w - 9223372036854775808"
      using False w by (intro mod_pos_pos_trivial) auto
    finally show ?thesis using False s by simp
  qed
qed

lemma sless_0_size_t:
  "0 <s (w :: size_t) \<longleftrightarrow> 0 < unat w \<and> unat w < 9223372036854775808"
proof -
  have "0 <s w \<longleftrightarrow> 0 < uint w \<and> uint w < 9223372036854775808"
    using unsigned_less [of w, where 'a = int] by (auto simp: word_sless_alt sint_size_t)
  moreover have "uint w = int (unat w)" by simp
  ultimately show ?thesis by (simp only: of_nat_0_less_iff of_nat_less_numeral_iff)
qed

lemma take_min_length: "take n xs = take (min n (length xs)) xs"
  by (simp add: min_def)

end
