(* ===== verification/Ring.thy ===== *)
theory Ring
  imports Prelude
begin

text \<open>
  The contents of a circular buffer, independent of how an implementation keeps its indices:
  \<open>ring buf p n\<close> are the \<open>n\<close> elements stored from position \<open>p\<close> on, going round the end of
  \<open>buf\<close>. The lemmas say what a contiguous read, a contiguous store and an advance of the
  read position do to the contents; the streamer's two buffers are instances.
\<close>

definition ring :: "'a list \<Rightarrow> nat \<Rightarrow> nat \<Rightarrow> 'a list" where
  "ring buf p n = map (\<lambda>i. buf ! ((p + i) mod length buf)) [0..<n]"

lemma length_ring [simp]: "length (ring buf p n) = n"
  by (simp add: ring_def)

lemma ring_0 [simp]: "ring buf p 0 = []"
  by (simp add: ring_def)

lemma nth_ring: "i < n \<Longrightarrow> ring buf p n ! i = buf ! ((p + i) mod length buf)"
  by (simp add: ring_def)

lemma take_ring: "k \<le> n \<Longrightarrow> take k (ring buf p n) = ring buf p k"
  by (simp add: ring_def take_map)

lemma drop_ring:
  assumes "k \<le> n"
  shows "drop k (ring buf p n) = ring buf ((p + k) mod length buf) (n - k)"
proof (rule nth_equalityI)
  fix i assume "i < length (drop k (ring buf p n))"
  then have "i < n - k" by simp
  with assms have "k + i < n" by simp
  with \<open>i < n - k\<close> show "drop k (ring buf p n) ! i = ring buf ((p + k) mod length buf) (n - k) ! i"
    using assms by (simp add: nth_ring mod_add_left_eq add.assoc)
qed simp

text \<open>A contiguous part of the contents is a contiguous part of the array.\<close>

lemma ring_contiguous:
  assumes "p + k \<le> length buf"
  shows "ring buf p k = take k (drop p buf)"
  using assms by (intro nth_equalityI) (auto simp: nth_ring)

lemma ring_add:
  "ring buf p (m + k) = ring buf p m @ ring buf ((p + m) mod length buf) k"
proof -
  have "ring buf p (m + k) = take m (ring buf p (m + k)) @ drop m (ring buf p (m + k))" by simp
  then show ?thesis by (simp only: take_ring drop_ring le_add1 diff_add_inverse)
qed

text \<open>Storing \<open>k\<close> elements right after the contents appends them.\<close>

lemma mod_outside:
  fixes p j n k L :: nat
  assumes "j < n" and "n + k \<le> L" and "(p + n) mod L + k \<le> L" and "(p + n) mod L \<le> (p + j) mod L"
  shows "(p + n) mod L + k \<le> (p + j) mod L"
proof (rule ccontr)
  assume "\<not> ?thesis"
  define t where "t = (p + j) mod L - (p + n) mod L"
  with assms \<open>\<not> ?thesis\<close> have t: "(p + j) mod L = (p + n) mod L + t" "t < k" by simp_all
  with assms have "(p + n) mod L + t < L" by simp
  then have "(p + n + t) mod L = (p + n) mod L + t"
    by (metis mod_add_left_eq mod_less)
  with t have "(p + j) mod L = (p + j + (n + t - j)) mod L"
    using assms by (simp add: add.assoc)
  then have "L dvd n + t - j"
    by (metis add_diff_cancel_left' le_add1 mod_eq_dvd_iff_nat)
  then show False using assms t by (auto dest: dvd_imp_le)
qed

lemma ring_store:
  assumes "n + k \<le> length buf" and "(p + n) mod length buf + k \<le> length buf" and "k \<le> length xs"
  shows "ring (take ((p + n) mod length buf) buf @ take k xs @ drop ((p + n) mod length buf + k) buf) p (n + k)
         = ring buf p n @ take k xs" (is "ring ?b p _ = _")
proof (rule nth_equalityI)
  let ?L = "length buf" and ?i = "(p + n) mod length buf"
  have len: "length ?b = ?L" using assms by simp
  fix j assume "j < length (ring ?b p (n + k))"
  then have j: "j < n + k" by simp
  with assms have L: "0 < ?L" by auto
  show "ring ?b p (n + k) ! j = (ring buf p n @ take k xs) ! j"
  proof (cases "j < n")
    case True
    with assms have "\<not> (?i \<le> (p + j) mod ?L \<and> (p + j) mod ?L < ?i + k)"
      using mod_outside [of j n k ?L p] by auto
    with True j L assms show ?thesis
      unfolding nth_ring [OF j] len by (subst nth_splice) (auto simp: nth_append nth_ring)
  next
    case False
    with j have t: "j - n < k" by simp
    with assms have "?i + (j - n) < ?L" by simp
    then have eq: "(p + j) mod ?L = ?i + (j - n)"
      using False by (metis add.assoc le_add_diff_inverse linorder_not_less mod_add_left_eq mod_less)
    with False t L assms show ?thesis
      unfolding nth_ring [OF j] len by (subst nth_splice) (auto simp: nth_append)
  qed
qed (use assms in simp)

text \<open>Storing in two pieces, the second from position 0 on, when the free space goes round the end.\<close>

lemma ring_store_wrap:
  assumes i: "i = (p + n) mod length buf" and b1: "b1 = take i buf @ take k1 xs @ drop (i + k1) buf"
    and k1: "i + k1 = length buf" and fit: "n + (k1 + k2) \<le> length buf"
    and xs: "k1 + k2 \<le> length xs"
  shows "ring (take k2 (drop k1 xs) @ drop k2 b1) p (n + (k1 + k2)) = ring buf p n @ take (k1 + k2) xs"
proof -
  have len1: "length b1 = length buf" using k1 xs by (simp add: b1)
  have c1: "ring b1 p (n + k1) = ring buf p n @ take k1 xs"
    unfolding b1 i by (rule ring_store) (use i k1 fit xs in simp_all)
  have wrap: "(p + (n + k1)) mod length b1 = 0"
  proof -
    have "(p + n + k1) mod length buf = (i + k1) mod length buf" by (simp add: i mod_add_left_eq)
    then show ?thesis using k1 len1 by (simp add: add.assoc)
  qed
  have "ring (take ((p + (n + k1)) mod length b1) b1 @ take k2 (drop k1 xs) @
              drop ((p + (n + k1)) mod length b1 + k2) b1) p (n + k1 + k2)
        = ring b1 p (n + k1) @ take k2 (drop k1 xs)"
    by (rule ring_store) (use fit xs len1 wrap in simp_all)
  then show ?thesis
    by (simp only: wrap c1) (simp add: take_add add.assoc)
qed

end
