(* ===== verification/DataLink.thy ===== *)
theory DataLink
  imports Ring
begin

text \<open>
  The data link layer (\<^verbatim>\<open>src/src/bmRPCDataLink.h\<close>): the \<^verbatim>\<open>Comm\<close> interface that
  every driver implements, the two-queue \<^verbatim>\<open>SharedBuffer\<close> of the loop-back
  configuration, the \<^verbatim>\<open>ServerCom\<close> and \<^verbatim>\<open>ClientCom\<close> drivers on its two
  sides and the \<^verbatim>\<open>EmptyCom\<close> example.

  A pointer argument \<^verbatim>\<open>T buf[]\<close> is an array with an offset into it, so that a driver that
  reads or writes past the end of the caller's array is undefined.

  The locale \<open>data_link\<close> states what the streamer relies on. \<open>bounded_link\<close> is the stronger
  contract of a link with a fixed capacity; it implies \<open>data_link\<close>. Both shared buffer drivers are
  bounded links of capacity 256, \<^verbatim>\<open>EmptyCom\<close> is one of capacity 0.
\<close>

section \<open>The driver interface\<close>

record ('a, 'c) comm =
  Comm_open :: "'c \<Rightarrow> int \<times> 'c"
  Comm_close :: "'c \<Rightarrow> 'c"
  Comm_is_open :: "'c \<Rightarrow> bool"
  Comm_get_packet_size :: "'c \<Rightarrow> size_t"
  Comm_write :: "'a list \<Rightarrow> nat \<Rightarrow> size_t \<Rightarrow> 'c \<Rightarrow> (size_t \<times> 'c) option"
  Comm_read :: "'a list \<Rightarrow> nat \<Rightarrow> size_t \<Rightarrow> 'c \<Rightarrow> (size_t \<times> 'a list \<times> 'c) option"

section \<open>SharedBuffer\<close>

definition MAX_BUFFER_SIZE :: nat where
  "MAX_BUFFER_SIZE = 256"

record 'a SharedBuffer =
  in_queue :: "'a list"
  in_len :: size_t
  in_lock :: bool
  out_queue :: "'a list"
  out_len :: size_t
  out_lock :: bool

definition SharedBuffer_new :: "'a::zero SharedBuffer" where
  "SharedBuffer_new =
     \<lparr>in_queue = replicate MAX_BUFFER_SIZE 0, in_len = 0, in_lock = False,
      out_queue = replicate MAX_BUFFER_SIZE 0, out_len = 0, out_lock = False\<rparr>"

text \<open>\<^verbatim>\<open>std::array::empty\<close> asks whether the array has size 0.\<close>

definition srv_can_read :: "'a SharedBuffer \<Rightarrow> bool" where
  "srv_can_read sb = (List.null (in_queue sb) = False)"

definition srv_read :: "'a list \<Rightarrow> nat \<Rightarrow> size_t \<Rightarrow> 'a SharedBuffer \<Rightarrow> (size_t \<times> 'a list \<times> 'a SharedBuffer) option" where
  "srv_read b off len sb =
     (if in_lock sb \<or> in_len sb \<le> 0 \<or> len \<le> 0 then Some (0, b, sb)
      else do {
        let len = (if len > in_len sb then in_len sb else len);
        let sb = sb\<lparr>in_lock := True\<rparr>;
        b \<leftarrow> memcpy b off (in_queue sb) 0 (unat len);
        q \<leftarrow> (if len \<noteq> in_len sb
             then memcpy (in_queue sb) 0 (in_queue sb) (unat len) (unat (in_len sb - len))
             else Some (in_queue sb));
        let sb = sb\<lparr>in_queue := q, in_len := in_len sb - len\<rparr>;
        let sb = sb\<lparr>in_lock := False\<rparr>;
        Some (len, b, sb)
      })"

definition srv_write :: "'a list \<Rightarrow> nat \<Rightarrow> size_t \<Rightarrow> 'a SharedBuffer \<Rightarrow> (size_t \<times> 'a SharedBuffer) option" where
  "srv_write b off len sb =
     (if \<not> out_lock sb \<and> len > 0
      then do {
        let capacity = of_nat (length (out_queue sb)) - out_len sb;
        let len = (if len > capacity then capacity else len);
        let sb = sb\<lparr>out_lock := True\<rparr>;
        q \<leftarrow> memcpy (out_queue sb) (unat (out_len sb)) b off (unat len);
        let sb = sb\<lparr>out_queue := q, out_len := out_len sb + len\<rparr>;
        let sb = sb\<lparr>out_lock := False\<rparr>;
        Some (len, sb)
      }
      else Some (0, sb))"

definition cln_can_read :: "'a SharedBuffer \<Rightarrow> bool" where
  "cln_can_read sb = (List.null (out_queue sb) = False)"

definition cln_read :: "'a list \<Rightarrow> nat \<Rightarrow> size_t \<Rightarrow> 'a SharedBuffer \<Rightarrow> (size_t \<times> 'a list \<times> 'a SharedBuffer) option" where
  "cln_read b off len sb =
     (if out_lock sb \<or> out_len sb \<le> 0 \<or> len \<le> 0 then Some (0, b, sb)
      else do {
        let len = (if len > out_len sb then out_len sb else len);
        let sb = sb\<lparr>out_lock := True\<rparr>;
        b \<leftarrow> memcpy b off (out_queue sb) 0 (unat len);
        q \<leftarrow> (if len \<noteq> out_len sb
             then memcpy (out_queue sb) 0 (out_queue sb) (unat len) (unat (out_len sb - len))
             else Some (out_queue sb));
        let sb = sb\<lparr>out_queue := q, out_len := out_len sb - len\<rparr>;
        let sb = sb\<lparr>out_lock := False\<rparr>;
        Some (len, b, sb)
      })"

definition cln_write :: "'a list \<Rightarrow> nat \<Rightarrow> size_t \<Rightarrow> 'a SharedBuffer \<Rightarrow> (size_t \<times> 'a SharedBuffer) option" where
  "cln_write b off len sb =
     (if \<not> in_lock sb \<and> len > 0
      then do {
        let capacity = of_nat (length (in_queue sb)) - in_len sb;
        let len = (if len > capacity then capacity else len);
        let sb = sb\<lparr>in_lock := True\<rparr>;
        q \<leftarrow> memcpy (in_queue sb) (unat (in_len sb)) b off (unat len);
        let sb = sb\<lparr>in_queue := q, in_len := in_len sb + len\<rparr>;
        let sb = sb\<lparr>in_lock := False\<rparr>;
        Some (len, sb)
      }
      else Some (0, sb))"

section \<open>The drivers\<close>

record 'a ServerCom =
  srv_sb :: "'a SharedBuffer"
  srv_m_open :: bool

definition ServerCom_new :: "'a SharedBuffer \<Rightarrow> 'a ServerCom" where
  "ServerCom_new sb = \<lparr>srv_sb = sb, srv_m_open = False\<rparr>"

definition ServerCom_open_impl :: "'a ServerCom \<Rightarrow> int \<times> 'a ServerCom" where
  "ServerCom_open_impl c = (if srv_m_open c then (-1, c) else (0, c\<lparr>srv_m_open := True\<rparr>))"

definition ServerCom_close_impl :: "'a ServerCom \<Rightarrow> 'a ServerCom" where
  "ServerCom_close_impl c = c\<lparr>srv_m_open := False\<rparr>"

definition ServerCom_is_open_impl :: "'a ServerCom \<Rightarrow> bool" where
  "ServerCom_is_open_impl c = srv_m_open c"

definition ServerCom_get_packet_size_impl :: "'a ServerCom \<Rightarrow> size_t" where
  "ServerCom_get_packet_size_impl c = 8"

definition ServerCom_write_impl :: "'a list \<Rightarrow> nat \<Rightarrow> size_t \<Rightarrow> 'a ServerCom \<Rightarrow> (size_t \<times> 'a ServerCom) option" where
  "ServerCom_write_impl buf off len c =
     do { (n, sb) \<leftarrow> srv_write buf off len (srv_sb c); Some (n, c\<lparr>srv_sb := sb\<rparr>) }"

definition ServerCom_read_impl :: "'a list \<Rightarrow> nat \<Rightarrow> size_t \<Rightarrow> 'a ServerCom \<Rightarrow> (size_t \<times> 'a list \<times> 'a ServerCom) option" where
  "ServerCom_read_impl buf off len c =
     do { (n, buf, sb) \<leftarrow> srv_read buf off len (srv_sb c); Some (n, buf, c\<lparr>srv_sb := sb\<rparr>) }"

definition ServerCom :: "('a, 'a ServerCom) comm" where
  "ServerCom =
     \<lparr>Comm_open = ServerCom_open_impl, Comm_close = ServerCom_close_impl,
      Comm_is_open = ServerCom_is_open_impl, Comm_get_packet_size = ServerCom_get_packet_size_impl,
      Comm_write = ServerCom_write_impl, Comm_read = ServerCom_read_impl\<rparr>"

record 'a ClientCom =
  cln_sb :: "'a SharedBuffer"
  cln_m_open :: bool

definition ClientCom_new :: "'a SharedBuffer \<Rightarrow> 'a ClientCom" where
  "ClientCom_new sb = \<lparr>cln_sb = sb, cln_m_open = False\<rparr>"

definition ClientCom_open_impl :: "'a ClientCom \<Rightarrow> int \<times> 'a ClientCom" where
  "ClientCom_open_impl c = (if cln_m_open c then (-1, c) else (0, c\<lparr>cln_m_open := True\<rparr>))"

definition ClientCom_close_impl :: "'a ClientCom \<Rightarrow> 'a ClientCom" where
  "ClientCom_close_impl c = c\<lparr>cln_m_open := False\<rparr>"

definition ClientCom_is_open_impl :: "'a ClientCom \<Rightarrow> bool" where
  "ClientCom_is_open_impl c = cln_m_open c"

definition ClientCom_get_packet_size_impl :: "'a ClientCom \<Rightarrow> size_t" where
  "ClientCom_get_packet_size_impl c = 8"

definition ClientCom_write_impl :: "'a list \<Rightarrow> nat \<Rightarrow> size_t \<Rightarrow> 'a ClientCom \<Rightarrow> (size_t \<times> 'a ClientCom) option" where
  "ClientCom_write_impl buf off len c =
     do { (n, sb) \<leftarrow> cln_write buf off len (cln_sb c); Some (n, c\<lparr>cln_sb := sb\<rparr>) }"

definition ClientCom_read_impl :: "'a list \<Rightarrow> nat \<Rightarrow> size_t \<Rightarrow> 'a ClientCom \<Rightarrow> (size_t \<times> 'a list \<times> 'a ClientCom) option" where
  "ClientCom_read_impl buf off len c =
     do { (n, buf, sb) \<leftarrow> cln_read buf off len (cln_sb c); Some (n, buf, c\<lparr>cln_sb := sb\<rparr>) }"

definition ClientCom :: "('a, 'a ClientCom) comm" where
  "ClientCom =
     \<lparr>Comm_open = ClientCom_open_impl, Comm_close = ClientCom_close_impl,
      Comm_is_open = ClientCom_is_open_impl, Comm_get_packet_size = ClientCom_get_packet_size_impl,
      Comm_write = ClientCom_write_impl, Comm_read = ClientCom_read_impl\<rparr>"

text \<open>\<^verbatim>\<open>EmptyCom\<close> keeps no state.\<close>

definition EmptyCom_open_impl :: "unit \<Rightarrow> int \<times> unit" where
  "EmptyCom_open_impl c = (0, c)"

definition EmptyCom_close_impl :: "unit \<Rightarrow> unit" where
  "EmptyCom_close_impl c = c"

definition EmptyCom_is_open_impl :: "unit \<Rightarrow> bool" where
  "EmptyCom_is_open_impl c = False"

definition EmptyCom_get_packet_size_impl :: "unit \<Rightarrow> size_t" where
  "EmptyCom_get_packet_size_impl c = 8"

definition EmptyCom_write_impl :: "'a list \<Rightarrow> nat \<Rightarrow> size_t \<Rightarrow> unit \<Rightarrow> (size_t \<times> unit) option" where
  "EmptyCom_write_impl buf off len c = Some (0, c)"

definition EmptyCom_read_impl :: "'a list \<Rightarrow> nat \<Rightarrow> size_t \<Rightarrow> unit \<Rightarrow> (size_t \<times> 'a list \<times> unit) option" where
  "EmptyCom_read_impl buf off len c = Some (0, buf, c)"

definition EmptyCom :: "('a, unit) comm" where
  "EmptyCom =
     \<lparr>Comm_open = EmptyCom_open_impl, Comm_close = EmptyCom_close_impl,
      Comm_is_open = EmptyCom_is_open_impl, Comm_get_packet_size = EmptyCom_get_packet_size_impl,
      Comm_write = EmptyCom_write_impl, Comm_read = EmptyCom_read_impl\<rparr>"

section \<open>The contracts of a link\<close>

text \<open>
  \<open>inq\<close> and \<open>outq\<close> are the elements under way towards and away from this side. The last law is
  what \<open>Streamer::flush\<close> needs when a packet goes round the end of its circular buffer: a write that
  took less than it was offered is followed by a write that takes nothing.
\<close>

locale data_link =
  fixes C :: "('a, 'c) comm"
    and com_ok :: "'c \<Rightarrow> bool"
    and inq outq :: "'c \<Rightarrow> 'a list"
  assumes link_write: "com_ok c \<Longrightarrow> off + unat len \<le> length buf \<Longrightarrow>
      \<exists>n c'. Comm_write C buf off len c = Some (n, c') \<and> n \<le> len \<and> com_ok c' \<and>
             outq c' = outq c @ take (unat n) (drop off buf) \<and> inq c' = inq c \<and>
             Comm_is_open C c' = Comm_is_open C c"
    and link_read: "com_ok c \<Longrightarrow> off + unat len \<le> length buf \<Longrightarrow>
      \<exists>n c'. Comm_read C buf off len c =
               Some (n, take off buf @ take (unat n) (inq c) @ drop (off + unat n) buf, c') \<and>
             n \<le> len \<and> unat n \<le> length (inq c) \<and> com_ok c' \<and>
             inq c' = drop (unat n) (inq c) \<and> outq c' = outq c \<and>
             Comm_is_open C c' = Comm_is_open C c"
    and link_short_write: "com_ok c \<Longrightarrow> off + unat len \<le> length buf \<Longrightarrow>
      Comm_write C buf off len c = Some (n, c') \<Longrightarrow> n < len \<Longrightarrow>
      off' + unat len' \<le> length buf' \<Longrightarrow>
      \<exists>c''. Comm_write C buf' off' len' c' = Some (0, c'')"
begin

lemma link_writeE:
  assumes "com_ok c" and "off + unat len \<le> length buf"
  obtains n c' where "Comm_write C buf off len c = Some (n, c')" and "n \<le> len" and "com_ok c'"
    and "outq c' = outq c @ take (unat n) (drop off buf)" and "inq c' = inq c"
    and "Comm_is_open C c' = Comm_is_open C c"
  using link_write [OF assms] by blast

lemma link_readE:
  assumes "com_ok c" and "off + unat len \<le> length buf"
  obtains n c' where
    "Comm_read C buf off len c = Some (n, take off buf @ take (unat n) (inq c) @ drop (off + unat n) buf, c')"
    and "n \<le> len" and "unat n \<le> length (inq c)" and "com_ok c'"
    and "inq c' = drop (unat n) (inq c)" and "outq c' = outq c"
    and "Comm_is_open C c' = Comm_is_open C c"
  using link_read [OF assms] by blast

end

locale bounded_link =
  fixes C :: "('a, 'c) comm"
    and com_ok :: "'c \<Rightarrow> bool"
    and inq outq :: "'c \<Rightarrow> 'a list"
    and cap :: nat
  assumes bounded_write: "com_ok c \<Longrightarrow> off + unat len \<le> length buf \<Longrightarrow>
      \<exists>n c'. Comm_write C buf off len c = Some (n, c') \<and>
             unat n = min (unat len) (cap - length (outq c)) \<and> com_ok c' \<and>
             outq c' = outq c @ take (unat n) (drop off buf) \<and> inq c' = inq c \<and>
             Comm_is_open C c' = Comm_is_open C c"
    and bounded_read: "com_ok c \<Longrightarrow> off + unat len \<le> length buf \<Longrightarrow>
      \<exists>n c'. Comm_read C buf off len c =
               Some (n, take off buf @ take (unat n) (inq c) @ drop (off + unat n) buf, c') \<and>
             unat n = min (unat len) (length (inq c)) \<and> com_ok c' \<and>
             inq c' = drop (unat n) (inq c) \<and> outq c' = outq c \<and>
             Comm_is_open C c' = Comm_is_open C c"
    and bounded_outq: "com_ok c \<Longrightarrow> length (outq c) \<le> cap"

sublocale bounded_link \<subseteq> data_link
proof unfold_locales
  fix c off and len :: size_t and buf :: "'a list"
  assume "com_ok c" and "off + unat len \<le> length buf"
  then show "\<exists>n c'. Comm_write C buf off len c = Some (n, c') \<and> n \<le> len \<and> com_ok c' \<and>
      outq c' = outq c @ take (unat n) (drop off buf) \<and> inq c' = inq c \<and>
      Comm_is_open C c' = Comm_is_open C c"
    using bounded_write [of c off len buf] by (auto simp: word_le_nat_alt)
next
  fix c off and len :: size_t and buf :: "'a list"
  assume "com_ok c" and "off + unat len \<le> length buf"
  then show "\<exists>n c'. Comm_read C buf off len c =
        Some (n, take off buf @ take (unat n) (inq c) @ drop (off + unat n) buf, c') \<and>
      n \<le> len \<and> unat n \<le> length (inq c) \<and> com_ok c' \<and> inq c' = drop (unat n) (inq c) \<and>
      outq c' = outq c \<and> Comm_is_open C c' = Comm_is_open C c"
    using bounded_read [of c off len buf] by (auto simp: word_le_nat_alt)
next
  fix c off off' n c' and len len' :: size_t and buf buf' :: "'a list"
  assume c: "com_ok c" "off + unat len \<le> length buf" "Comm_write C buf off len c = Some (n, c')"
    and short: "n < len" and c': "off' + unat len' \<le> length buf'"
  from c bounded_write [of c off len buf] have n: "unat n = min (unat len) (cap - length (outq c))"
    and com_ok': "com_ok c'" and outq': "outq c' = outq c @ take (unat n) (drop off buf)" by auto
  from n short c(2) have "length (outq c') \<ge> cap" by (simp add: outq' word_less_nat_alt)
  with bounded_write [OF com_ok' c'] show "\<exists>c''. Comm_write C buf' off' len' c' = Some (0, c'')"
    by (auto simp: unat_eq_zero)
qed

section \<open>The shared buffer keeps its contract\<close>

definition in_content :: "'a SharedBuffer \<Rightarrow> 'a list" where
  "in_content sb = take (unat (in_len sb)) (in_queue sb)"

definition out_content :: "'a SharedBuffer \<Rightarrow> 'a list" where
  "out_content sb = take (unat (out_len sb)) (out_queue sb)"

definition sb_inv :: "'a SharedBuffer \<Rightarrow> bool" where
  "sb_inv sb \<longleftrightarrow>
     length (in_queue sb) = MAX_BUFFER_SIZE \<and> unat (in_len sb) \<le> MAX_BUFFER_SIZE \<and> \<not> in_lock sb \<and>
     length (out_queue sb) = MAX_BUFFER_SIZE \<and> unat (out_len sb) \<le> MAX_BUFFER_SIZE \<and> \<not> out_lock sb"

lemmas sb_defs = sb_inv_def in_content_def out_content_def MAX_BUFFER_SIZE_def

lemma sb_inv_new: "sb_inv SharedBuffer_new"
  by (simp add: SharedBuffer_new_def sb_defs)

lemma sb_content_new [simp]: "in_content SharedBuffer_new = []" "out_content SharedBuffer_new = []"
  by (simp_all add: SharedBuffer_new_def sb_defs)

lemma length_in_content: "sb_inv sb \<Longrightarrow> length (in_content sb) = unat (in_len sb)"
  and length_out_content: "sb_inv sb \<Longrightarrow> length (out_content sb) = unat (out_len sb)"
  by (simp_all add: sb_defs)

text \<open>The clamped length of a write, and the queue it leaves.\<close>

lemma unat_clamp: "unat (if len > k then k else len) = min (unat len) (unat (k :: size_t))"
  by (simp add: min_def word_less_nat_alt not_less)

lemma unat_capacity:
  "unat len \<le> 256 \<Longrightarrow> unat (256 - len :: size_t) = 256 - unat len"
  by (simp add: unat_sub word_le_nat_alt)

lemma take_splice_end:
  "i + k \<le> length q \<Longrightarrow> k \<le> length xs \<Longrightarrow> take (i + k) (take i q @ take k xs @ drop (i + k) q) = take i q @ take k xs"
  by simp

lemma srv_write_spec:
  assumes "sb_inv sb" and "off + unat len \<le> length buf"
  shows "\<exists>n sb'. srv_write buf off len sb = Some (n, sb') \<and>
           unat n = min (unat len) (MAX_BUFFER_SIZE - length (out_content sb)) \<and> sb_inv sb' \<and>
           out_content sb' = out_content sb @ take (unat n) (drop off buf) \<and> in_content sb' = in_content sb"
proof (cases "len > 0")
  case True
  define n where "n = (if len > 256 - out_len sb then 256 - out_len sb else len)"
  have n: "unat n = min (unat len) (256 - unat (out_len sb))"
    using assms by (simp add: n_def unat_clamp unat_capacity sb_defs)
  have fit: "unat (out_len sb) + unat n \<le> 256" using n assms by (auto simp: sb_defs min_def)
  then have len': "unat (out_len sb + n) = unat (out_len sb) + unat n"
    by (simp add: unat_add_small)
  from True assms fit n show ?thesis
    by (auto simp: srv_write_def Let_def n_def [symmetric] sb_defs len')
next
  case False
  then have "len = 0" by (simp add: word_gt_0)
  with assms show ?thesis by (auto simp: srv_write_def sb_defs)
qed

lemma cln_write_spec:
  assumes "sb_inv sb" and "off + unat len \<le> length buf"
  shows "\<exists>n sb'. cln_write buf off len sb = Some (n, sb') \<and>
           unat n = min (unat len) (MAX_BUFFER_SIZE - length (in_content sb)) \<and> sb_inv sb' \<and>
           in_content sb' = in_content sb @ take (unat n) (drop off buf) \<and> out_content sb' = out_content sb"
proof (cases "len > 0")
  case True
  define n where "n = (if len > 256 - in_len sb then 256 - in_len sb else len)"
  have n: "unat n = min (unat len) (256 - unat (in_len sb))"
    using assms by (simp add: n_def unat_clamp unat_capacity sb_defs)
  have fit: "unat (in_len sb) + unat n \<le> 256" using n assms by (auto simp: sb_defs min_def)
  then have len': "unat (in_len sb + n) = unat (in_len sb) + unat n"
    by (simp add: unat_add_small)
  from True assms fit n show ?thesis
    by (auto simp: cln_write_def Let_def n_def [symmetric] sb_defs len')
next
  case False
  then have "len = 0" by (simp add: word_gt_0)
  with assms show ?thesis by (auto simp: cln_write_def sb_defs)
qed

lemma srv_read_spec:
  assumes "sb_inv sb" and "off + unat len \<le> length buf"
  shows "\<exists>n sb'. srv_read buf off len sb =
             Some (n, take off buf @ take (unat n) (in_content sb) @ drop (off + unat n) buf, sb') \<and>
           unat n = min (unat len) (length (in_content sb)) \<and> sb_inv sb' \<and>
           in_content sb' = drop (unat n) (in_content sb) \<and> out_content sb' = out_content sb"
proof (cases "in_len sb \<noteq> 0 \<and> len \<noteq> 0")
  case True
  define n where "n = (if len > in_len sb then in_len sb else len)"
  have n: "unat n = min (unat len) (unat (in_len sb))" by (simp add: n_def unat_clamp)
  then have le: "n \<le> in_len sb" by (simp add: word_le_nat_alt)
  then have len': "unat (in_len sb - n) = unat (in_len sb) - unat n" by (rule unat_diff_small)
  from True assms n le show ?thesis
    by (auto simp: srv_read_def Let_def n_def [symmetric] sb_defs len' drop_take word_le_nat_alt)
next
  case False
  with assms show ?thesis by (auto simp: srv_read_def sb_defs)
qed

lemma cln_read_spec:
  assumes "sb_inv sb" and "off + unat len \<le> length buf"
  shows "\<exists>n sb'. cln_read buf off len sb =
             Some (n, take off buf @ take (unat n) (out_content sb) @ drop (off + unat n) buf, sb') \<and>
           unat n = min (unat len) (length (out_content sb)) \<and> sb_inv sb' \<and>
           out_content sb' = drop (unat n) (out_content sb) \<and> in_content sb' = in_content sb"
proof (cases "out_len sb \<noteq> 0 \<and> len \<noteq> 0")
  case True
  define n where "n = (if len > out_len sb then out_len sb else len)"
  have n: "unat n = min (unat len) (unat (out_len sb))" by (simp add: n_def unat_clamp)
  then have le: "n \<le> out_len sb" by (simp add: word_le_nat_alt)
  then have len': "unat (out_len sb - n) = unat (out_len sb) - unat n" by (rule unat_diff_small)
  from True assms n le show ?thesis
    by (auto simp: cln_read_def Let_def n_def [symmetric] sb_defs len' drop_take word_le_nat_alt)
next
  case False
  with assms show ?thesis by (auto simp: cln_read_def sb_defs)
qed

section \<open>The drivers meet the contract\<close>

definition ServerCom_inv :: "'a ServerCom \<Rightarrow> bool" where
  "ServerCom_inv c = sb_inv (srv_sb c)"

definition ClientCom_inv :: "'a ClientCom \<Rightarrow> bool" where
  "ClientCom_inv c = sb_inv (cln_sb c)"

lemmas ServerCom_defs = ServerCom_def ServerCom_inv_def ServerCom_write_impl_def ServerCom_read_impl_def
  ServerCom_is_open_impl_def ServerCom_get_packet_size_impl_def

lemmas ClientCom_defs = ClientCom_def ClientCom_inv_def ClientCom_write_impl_def ClientCom_read_impl_def
  ClientCom_is_open_impl_def ClientCom_get_packet_size_impl_def

interpretation srv: bounded_link ServerCom ServerCom_inv "in_content \<circ> srv_sb" "out_content \<circ> srv_sb" MAX_BUFFER_SIZE
proof (unfold_locales, goal_cases)
  case (1 c off len buf)
  then show ?case using srv_write_spec [of "srv_sb c" off len buf] by (fastforce simp: ServerCom_defs)
next
  case (2 c off len buf)
  then show ?case using srv_read_spec [of "srv_sb c" off len buf] by (fastforce simp: ServerCom_defs)
next
  case (3 c)
  then show ?case by (simp add: ServerCom_defs length_out_content) (simp add: sb_inv_def)
qed

interpretation cln: bounded_link ClientCom ClientCom_inv "out_content \<circ> cln_sb" "in_content \<circ> cln_sb" MAX_BUFFER_SIZE
proof (unfold_locales, goal_cases)
  case (1 c off len buf)
  then show ?case using cln_write_spec [of "cln_sb c" off len buf] by (fastforce simp: ClientCom_defs)
next
  case (2 c off len buf)
  then show ?case using cln_read_spec [of "cln_sb c" off len buf] by (fastforce simp: ClientCom_defs)
next
  case (3 c)
  then show ?case by (simp add: ClientCom_defs length_in_content) (simp add: sb_inv_def)
qed

interpretation none: bounded_link EmptyCom "\<lambda>_. True" "\<lambda>_. []" "\<lambda>_. []" 0
  by unfold_locales (simp_all add: EmptyCom_def EmptyCom_write_impl_def EmptyCom_read_impl_def)

end
