(* ===== verification/Streamer.thy ===== *)
theory Streamer
  imports DataLink
begin

text \<open>
  The streamer (\<^verbatim>\<open>src/src/bmRPCStreamer.h\<close>): two circular buffers of
  \<^verbatim>\<open>STREAMER_BUFFER_SIZE\<close> elements between the protocol code and a driver. Indices are
  \<^verbatim>\<open>size_t\<close> words and the index arithmetic is the source's: the masked difference, the
  signed \<^verbatim>\<open>count\<close> that detects the wrap-around, and \<^verbatim>\<open>inc\<close>.

  The field \<open>m_com\<close> holds the state of the driver that the C++ member points to; the driver's
  operations are the argument \<open>C\<close>.

  The refinement is stated on byte streams. What was written and not yet delivered is the
  link's outgoing content followed by \<open>tx_bytes\<close>; what can still be read is \<open>rx_bytes\<close> followed by the
  link's incoming content. In \<open>context data_link\<close> every operation is shown memory safe, invariant
  preserving and equal to a queue operation on these streams.
\<close>

section \<open>State and operations\<close>

definition STREAMER_BUFFER_SIZE :: size_t where
  "STREAMER_BUFFER_SIZE = 1024"

abbreviation m_max_size :: size_t where
  "m_max_size \<equiv> STREAMER_BUFFER_SIZE"

record ('a, 'c) Streamer =
  m_tx_buffer :: "'a list"
  m_tx_in :: size_t
  m_tx_out :: size_t
  m_tx_full :: bool
  m_rx_buffer :: "'a list"
  m_rx_in :: size_t
  m_rx_out :: size_t
  m_rx_full :: bool
  m_com :: 'c
  m_packet_size :: size_t

text \<open>\<^verbatim>\<open>new T[n]\<close> leaves the elements indeterminate: the two arrays are arguments.\<close>

definition Streamer_new :: "('a, 'c) comm \<Rightarrow> 'c \<Rightarrow> 'a list \<Rightarrow> 'a list \<Rightarrow> ('a, 'c) Streamer" where
  "Streamer_new C com tx rx =
     \<lparr>m_tx_buffer = tx, m_tx_in = 0, m_tx_out = 0, m_tx_full = False,
      m_rx_buffer = rx, m_rx_in = 0, m_rx_out = 0, m_rx_full = False,
      m_com = com, m_packet_size = Comm_get_packet_size C com\<rparr>"

definition inc :: "size_t \<Rightarrow> size_t \<Rightarrow> size_t" where
  "inc p v = (let p = p + v in if p \<ge> m_max_size then p - m_max_size else p)"

text \<open>\<^verbatim>\<open>p < 0\<close> never holds for the unsigned \<^verbatim>\<open>p\<close>.\<close>

definition dec :: "size_t \<Rightarrow> size_t \<Rightarrow> size_t" where
  "dec p v = (let p = p - v in if p < 0 then p + m_max_size else p)"

definition tx_empty :: "('a, 'c) Streamer \<Rightarrow> bool" where
  "tx_empty s \<longleftrightarrow> \<not> m_tx_full s \<and> m_tx_in s = m_tx_out s"

definition tx_full :: "('a, 'c) Streamer \<Rightarrow> bool" where
  "tx_full s = m_tx_full s"

definition rx_full :: "('a, 'c) Streamer \<Rightarrow> bool" where
  "rx_full s = m_rx_full s"

definition capacity :: "('a, 'c) Streamer \<Rightarrow> size_t" where
  "capacity s = m_max_size"

text \<open>
  Offering \<open>len\<close> elements from offset \<open>off\<close> of the transmit buffer to the driver, with the update
  that follows each of the three writes in the loop; the result carries \<^verbatim>\<open>used_size\<close> and
  \<^verbatim>\<open>n_written\<close>.
\<close>

definition flush_put :: "('a, 'c) comm \<Rightarrow> ('a, 'c) Streamer \<Rightarrow> nat \<Rightarrow> size_t \<Rightarrow> size_t \<Rightarrow> (('a, 'c) Streamer \<times> size_t \<times> size_t) option" where
  "flush_put C s off len used_size =
     do {
       (n_written, com) \<leftarrow> Comm_write C (m_tx_buffer s) off len (m_com s);
       let s = s\<lparr>m_com := com\<rparr>;
       if n_written > 0
       then Some (s\<lparr>m_tx_out := inc (m_tx_out s) n_written, m_tx_full := False\<rparr>,
                  used_size - n_written, n_written)
       else Some (s, used_size, n_written)
     }"

text \<open>One execution of the body of the \<^verbatim>\<open>do\<close> loop.\<close>

definition flush_body :: "('a, 'c) comm \<Rightarrow> ('a, 'c) Streamer \<Rightarrow> size_t \<Rightarrow> (('a, 'c) Streamer \<times> size_t \<times> size_t) option" where
  "flush_body C s used_size =
     (let sz = (if used_size \<ge> m_packet_size s then m_packet_size s else used_size);
          count = m_tx_out s + sz - m_max_size
      in if 0 <s count
         then do {
           (s, used_size, n_written) \<leftarrow> flush_put C s (unat (m_tx_out s)) (sz - count) used_size;
           if n_written > 0 then flush_put C s 0 count used_size
           else Some (s, used_size, n_written)
         }
         else flush_put C s (unat (m_tx_out s)) sz used_size)"

text \<open>The loop itself; a driver that makes it run for ever gives \<open>None\<close>.\<close>

partial_function (option) flush_loop :: "('a, 'c) comm \<Rightarrow> ('a, 'c) Streamer \<Rightarrow> size_t \<Rightarrow> ('a, 'c) Streamer option" where
  "flush_loop C s used_size =
     do {
       (s, used_size, n_written) \<leftarrow> flush_body C s used_size;
       if used_size > 0 \<and> n_written > 0 then flush_loop C s used_size else Some s
     }"

definition flush :: "('a, 'c) comm \<Rightarrow> ('a, 'c) Streamer \<Rightarrow> ('a, 'c) Streamer option" where
  "flush C s =
     (if Comm_is_open C (m_com s) \<and> \<not> tx_empty s
      then flush_loop C s
             (if tx_full s then m_max_size else (m_tx_in s - m_tx_out s) AND (m_max_size - 1))
      else Some s)"

text \<open>
  \<open>items\<close> are the elements from the caller's pointer on. \<open>tx_copy\<close> is the copy into the transmit
  buffer, in two pieces when it goes round the end.
\<close>

definition tx_copy :: "('a, 'c) Streamer \<Rightarrow> 'a list \<Rightarrow> size_t \<Rightarrow> 'a list option" where
  "tx_copy s items sz =
     (if m_tx_out s > m_tx_in s
      then memcpy (m_tx_buffer s) (unat (m_tx_in s)) items 0 (unat sz)
      else (let count = m_tx_in s + sz - m_max_size
            in if 0 <s count
               then do {
                 buf \<leftarrow> memcpy (m_tx_buffer s) (unat (m_tx_in s)) items 0 (unat (sz - count));
                 memcpy buf 0 items (unat (sz - count)) (unat count)
               }
               else memcpy (m_tx_buffer s) (unat (m_tx_in s)) items 0 (unat sz)))"

definition Streamer_write :: "('a, 'c) comm \<Rightarrow> ('a, 'c) Streamer \<Rightarrow> 'a list \<Rightarrow> size_t \<Rightarrow> (size_t \<times> ('a, 'c) Streamer) option" where
  "Streamer_write C s items sz =
     do {
       (sz, s) \<leftarrow>
         (if \<not> tx_full s
          then do {
            let available_size =
              (if tx_empty s then m_max_size else (m_tx_out s - m_tx_in s) AND (m_max_size - 1));
            let sz = (if sz > available_size then available_size else sz);
            buf \<leftarrow> tx_copy s items sz;
            let s = s\<lparr>m_tx_buffer := buf, m_tx_in := inc (m_tx_in s) sz\<rparr>;
            Some (sz, s\<lparr>m_tx_full := (m_tx_in s = m_tx_out s)\<rparr>)
          }
          else Some (0, s));
       s \<leftarrow> flush C s;
       Some (sz, s)
     }"

definition com_read :: "('a, 'c) comm \<Rightarrow> ('a, 'c) Streamer \<Rightarrow> ('a, 'c) Streamer option" where
  "com_read C s =
     (if \<not> rx_full s
      then (if m_rx_in s \<ge> m_rx_out s
            then do {
              let len = m_max_size - m_rx_in s;
              (count, buf, com) \<leftarrow> Comm_read C (m_rx_buffer s) (unat (m_rx_in s)) len (m_com s);
              let s = s\<lparr>m_rx_buffer := buf, m_com := com\<rparr>;
              if count > 0
              then do {
                let s = s\<lparr>m_rx_in := inc (m_rx_in s) count\<rparr>;
                let s = s\<lparr>m_rx_full := (m_rx_in s = m_rx_out s)\<rparr>;
                if count = len
                then do {
                  (count, buf, com) \<leftarrow> Comm_read C (m_rx_buffer s) 0 (m_rx_out s) (m_com s);
                  let s = s\<lparr>m_rx_buffer := buf, m_com := com\<rparr>;
                  if count > 0
                  then do {
                    let s = s\<lparr>m_rx_in := inc (m_rx_in s) count\<rparr>;
                    Some (s\<lparr>m_rx_full := (m_rx_in s = m_rx_out s)\<rparr>)
                  }
                  else Some s
                }
                else Some s
              }
              else Some s
            }
            else do {
              let len = m_rx_out s - m_rx_in s;
              (count, buf, com) \<leftarrow> Comm_read C (m_rx_buffer s) (unat (m_rx_in s)) len (m_com s);
              let s = s\<lparr>m_rx_buffer := buf, m_com := com\<rparr>;
              if count > 0
              then do {
                let s = s\<lparr>m_rx_in := inc (m_rx_in s) count\<rparr>;
                Some (s\<lparr>m_rx_full := (m_rx_in s \<ge> m_rx_out s)\<rparr>)
              }
              else Some s
            })
      else Some s)"

definition rx_empty :: "('a, 'c) comm \<Rightarrow> ('a, 'c) Streamer \<Rightarrow> (bool \<times> ('a, 'c) Streamer) option" where
  "rx_empty C s =
     do { s \<leftarrow> com_read C s; Some (\<not> m_rx_full s \<and> m_rx_in s = m_rx_out s, s) }"

text \<open>The available size and the copy out of the receive buffer that \<^verbatim>\<open>read\<close>,
  \<^verbatim>\<open>try_read\<close> and \<^verbatim>\<open>consume_read\<close> spell out.\<close>

definition rx_available :: "('a, 'c) Streamer \<Rightarrow> size_t" where
  "rx_available s =
     (if rx_full s then m_max_size else (m_rx_in s - m_rx_out s) AND (m_max_size - 1))"

definition rx_copy :: "('a, 'c) Streamer \<Rightarrow> 'a list \<Rightarrow> size_t \<Rightarrow> 'a list option" where
  "rx_copy s items sz =
     (if m_rx_in s > m_rx_out s
      then memcpy items 0 (m_rx_buffer s) (unat (m_rx_out s)) (unat sz)
      else (let count = m_rx_out s + sz - m_max_size
            in if 0 <s count
               then do {
                 items \<leftarrow> memcpy items 0 (m_rx_buffer s) (unat (m_rx_out s)) (unat (sz - count));
                 memcpy items (unat (sz - count)) (m_rx_buffer s) 0 (unat count)
               }
               else memcpy items 0 (m_rx_buffer s) (unat (m_rx_out s)) (unat sz)))"

definition Streamer_read :: "('a, 'c) comm \<Rightarrow> ('a, 'c) Streamer \<Rightarrow> 'a list \<Rightarrow> size_t \<Rightarrow> (size_t \<times> 'a list \<times> ('a, 'c) Streamer) option" where
  "Streamer_read C s items sz =
     do {
       (e, s) \<leftarrow> rx_empty C s;
       if e then Some (0, items, s)
       else do {
         let available_size = rx_available s;
         let sz = (if sz > available_size then available_size else sz);
         items \<leftarrow> rx_copy s items sz;
         let s = s\<lparr>m_rx_full := False\<rparr>;
         Some (sz, items, s\<lparr>m_rx_out := inc (m_rx_out s) sz\<rparr>)
       }
     }"

definition try_read :: "('a, 'c) comm \<Rightarrow> ('a, 'c) Streamer \<Rightarrow> 'a list \<Rightarrow> size_t \<Rightarrow> (size_t \<times> 'a list \<times> ('a, 'c) Streamer) option" where
  "try_read C s items sz =
     do {
       (e, s) \<leftarrow> rx_empty C s;
       if e then Some (0, items, s)
       else do {
         let available_size = rx_available s;
         let sz = (if sz > available_size then available_size else sz);
         items \<leftarrow> rx_copy s items sz;
         Some (sz, items, s)
       }
     }"

definition consume_read :: "('a, 'c) comm \<Rightarrow> ('a, 'c) Streamer \<Rightarrow> size_t \<Rightarrow> (size_t \<times> ('a, 'c) Streamer) option" where
  "consume_read C s sz =
     do {
       (e, s) \<leftarrow> rx_empty C s;
       if e then Some (0, s)
       else do {
         let available_size = rx_available s;
         let sz = (if sz > available_size then available_size else sz);
         let s = s\<lparr>m_rx_full := False\<rparr>;
         Some (sz, s\<lparr>m_rx_out := inc (m_rx_out s) sz\<rparr>)
       }
     }"

definition Streamer_reset :: "('a, 'c) Streamer \<Rightarrow> ('a, 'c) Streamer" where
  "Streamer_reset s =
     s\<lparr>m_tx_in := m_tx_out s, m_tx_full := False, m_rx_in := m_rx_out s, m_rx_full := False\<rparr>"

definition tx_size :: "('a, 'c) Streamer \<Rightarrow> size_t" where
  "tx_size s =
     (if \<not> m_tx_full s
      then (if m_tx_in s \<ge> m_tx_out s then m_tx_in s - m_tx_out s
            else m_max_size + m_tx_in s - m_tx_out s)
      else m_max_size)"

definition rx_size :: "('a, 'c) comm \<Rightarrow> ('a, 'c) Streamer \<Rightarrow> (size_t \<times> ('a, 'c) Streamer) option" where
  "rx_size C s =
     do {
       s \<leftarrow> com_read C s;
       Some (if \<not> m_rx_full s
             then (if m_rx_in s \<ge> m_rx_out s then m_rx_in s - m_rx_out s
                   else m_max_size + m_rx_in s - m_rx_out s)
             else m_max_size, s)
     }"

section \<open>Contents of the two circular buffers\<close>

definition ring_count :: "size_t \<Rightarrow> size_t \<Rightarrow> bool \<Rightarrow> nat" where
  "ring_count i p f = (if f then 1024 else (unat i + 1024 - unat p) mod 1024)"

definition ring_ok :: "'a list \<Rightarrow> size_t \<Rightarrow> size_t \<Rightarrow> bool \<Rightarrow> bool" where
  "ring_ok buf i p f \<longleftrightarrow> length buf = 1024 \<and> unat i < 1024 \<and> unat p < 1024 \<and> (f \<longrightarrow> i = p)"

definition tx_ok :: "('a, 'c) Streamer \<Rightarrow> bool" where
  "tx_ok s = ring_ok (m_tx_buffer s) (m_tx_in s) (m_tx_out s) (m_tx_full s)"

definition rx_ok :: "('a, 'c) Streamer \<Rightarrow> bool" where
  "rx_ok s = ring_ok (m_rx_buffer s) (m_rx_in s) (m_rx_out s) (m_rx_full s)"

definition tx_count :: "('a, 'c) Streamer \<Rightarrow> nat" where
  "tx_count s = ring_count (m_tx_in s) (m_tx_out s) (m_tx_full s)"

definition rx_count :: "('a, 'c) Streamer \<Rightarrow> nat" where
  "rx_count s = ring_count (m_rx_in s) (m_rx_out s) (m_rx_full s)"

definition tx_bytes :: "('a, 'c) Streamer \<Rightarrow> 'a list" where
  "tx_bytes s = ring (m_tx_buffer s) (unat (m_tx_out s)) (tx_count s)"

definition rx_bytes :: "('a, 'c) Streamer \<Rightarrow> 'a list" where
  "rx_bytes s = ring (m_rx_buffer s) (unat (m_rx_out s)) (rx_count s)"

definition Streamer_inv :: "('c \<Rightarrow> bool) \<Rightarrow> ('a, 'c) Streamer \<Rightarrow> bool" where
  "Streamer_inv com_ok s \<longleftrightarrow> tx_ok s \<and> rx_ok s \<and> com_ok (m_com s)"

text \<open>All that was written and has not left the link; all that has arrived and was not consumed.\<close>

definition out_stream :: "('c \<Rightarrow> 'a list) \<Rightarrow> ('a, 'c) Streamer \<Rightarrow> 'a list" where
  "out_stream outq s = outq (m_com s) @ tx_bytes s"

definition in_stream :: "('c \<Rightarrow> 'a list) \<Rightarrow> ('a, 'c) Streamer \<Rightarrow> 'a list" where
  "in_stream inq s = rx_bytes s @ inq (m_com s)"

section \<open>Index arithmetic\<close>

lemma wrap_count_iff:
  assumes "unat (p :: size_t) < 1024" and "unat sz \<le> 1024"
  shows "0 <s (p + sz - 1024) \<longleftrightarrow> 1024 < unat p + unat sz"
proof -
  have a: "unat (p + sz) = unat p + unat sz" using assms by (simp add: unat_add_small)
  have "unat (p + sz - 1024) = (if 1024 \<le> unat p + unat sz then unat p + unat sz - 1024 else 18446744073709551616 - 1024 + (unat p + unat sz))"
    unfolding unat_sub_if' a by simp
  then show ?thesis
    using assms unfolding sless_0_size_t by auto
qed

lemma masked_diff:
  assumes "unat (x :: size_t) < 1024" and "unat y < 1024"
  shows "unat ((x - y) AND 1023) = (unat x + 1024 - unat y) mod 1024"
proof -
  have "(x - y) AND 1023 = take_bit 10 (x - y)" by (simp add: take_bit_eq_mask mask_eq_exp_minus_1)
  then have "unat ((x - y) AND 1023) = unat (x - y) mod 1024" by (simp add: take_bit_eq_mod unat_mod)
  also have "\<dots> = (unat x + 1024 - unat y) mod 1024"
  proof (cases "unat y \<le> unat x")
    case True
    then have "unat x + 1024 - unat y = unat x - unat y + 1024" by simp
    with True show ?thesis by (simp only: unat_sub_if' if_True mod_add_self2)
  next
    case False
    then have "unat (x - y) = unat x + 1024 - unat y + 18014398509481983 * 1024"
      using assms unfolding unat_sub_if' by simp
    then show ?thesis by (simp only: mod_mult_self1)
  qed
  finally show ?thesis .
qed

lemma wrap_count:
  assumes "unat (p :: size_t) < 1024" and "unat sz \<le> 1024" and "1024 < unat p + unat sz"
  shows "unat (p + sz - 1024) = unat p + unat sz - 1024"
    and "unat (sz - (p + sz - 1024)) = 1024 - unat p"
proof -
  have a: "unat (p + sz) = unat p + unat sz" using assms by (simp add: unat_add_small)
  show "unat (p + sz - 1024) = unat p + unat sz - 1024" 
    using assms a by (subst unat_diff_small) (auto simp: word_le_nat_alt)
  have "sz - (p + sz - 1024) = 1024 - p" by simp
  then show "unat (sz - (p + sz - 1024)) = 1024 - unat p"
    using assms by (simp add: unat_diff_small word_le_nat_alt)
qed

lemma mod_1024: "x < 2048 \<Longrightarrow> x mod 1024 = (if x < 1024 then x else x - (1024 :: nat))"
  by (simp add: mod_if)

lemma unat_inc:
  assumes "unat p < 1024" and "unat v \<le> 1024"
  shows "unat (inc p v) = (unat p + unat v) mod 1024"
proof -
  have "unat (p + v) = unat p + unat v" using assms by (simp add: unat_add_small)
  with assms show ?thesis
    by (auto simp: inc_def STREAMER_BUFFER_SIZE_def Let_def word_le_nat_alt unat_diff_small mod_1024)
qed

lemma inc_less: "unat p < 1024 \<Longrightarrow> unat v \<le> 1024 \<Longrightarrow> unat (inc p v) < 1024"
  by (simp add: unat_inc)

lemma ring_count_le: "ring_count i p f \<le> 1024"
  by (simp add: ring_count_def)

lemma ring_count_cases:
  "ring_ok buf i p f \<Longrightarrow> ring_count i p f =
     (if f then 1024 else if unat p \<le> unat i then unat i - unat p else unat i + 1024 - unat p)"
  by (auto simp: ring_count_def ring_ok_def mod_1024)

lemma ring_in: "ring_ok buf i p f \<Longrightarrow> (unat p + ring_count i p f) mod 1024 = unat i"
  by (auto simp: ring_count_cases ring_ok_def)

lemma ring_empty_iff: "ring_ok buf i p f \<Longrightarrow> ring_count i p f = 0 \<longleftrightarrow> \<not> f \<and> i = p"
  by (auto simp: ring_count_cases ring_ok_def word_unat_eq_iff split: if_splits)

lemma ring_full_iff: "ring_ok buf i p f \<Longrightarrow> ring_count i p f = 1024 \<longleftrightarrow> f"
  by (auto simp: ring_count_cases ring_ok_def split: if_splits)

lemma ring_used:
  "ring_ok buf i p f \<Longrightarrow>
   unat (if f then m_max_size else (i - p) AND (m_max_size - 1)) = ring_count i p f"
  by (simp add: ring_count_def ring_ok_def STREAMER_BUFFER_SIZE_def masked_diff)

lemma ring_free:
  "ring_ok buf i p f \<Longrightarrow> \<not> f \<Longrightarrow>
   unat (if i = p then m_max_size else (p - i) AND (m_max_size - 1)) = 1024 - ring_count i p f"
  by (auto simp: ring_count_cases ring_ok_def STREAMER_BUFFER_SIZE_def masked_diff mod_1024 word_unat_eq_iff)

lemma ring_count_push:
  assumes "ring_ok buf i p f" and "unat k \<le> 1024 - ring_count i p f" and "0 < ring_count i p f + unat k"
  shows "ring_count (inc i k) p (inc i k = p) = ring_count i p f + unat k"
proof -
  have "unat k \<le> 1024" using assms by simp
  then have "unat (inc i k) = (if unat i + unat k < 1024 then unat i + unat k else unat i + unat k - 1024)"
    using assms(1) by (subst unat_inc) (auto simp: ring_ok_def mod_1024)
  with assms show ?thesis
    by (auto simp: ring_count_def ring_ok_def mod_1024 word_unat_eq_iff split: if_splits)
qed

lemma ring_count_pop:
  assumes "ring_ok buf i p f" and "unat k \<le> ring_count i p f" and "f \<longrightarrow> 0 < unat k"
  shows "ring_count i (inc p k) False = ring_count i p f - unat k"
proof -
  have "unat k \<le> 1024" using assms ring_count_le [of i p f] by simp
  then have "unat (inc p k) = (if unat p + unat k < 1024 then unat p + unat k else unat p + unat k - 1024)"
    using assms(1) by (subst unat_inc) (auto simp: ring_ok_def mod_1024)
  with assms show ?thesis
    by (auto simp: ring_count_def ring_ok_def mod_1024 word_unat_eq_iff split: if_splits)
qed

lemmas tx_defs = tx_ok_def tx_count_def tx_bytes_def
lemmas rx_defs = rx_ok_def rx_count_def rx_bytes_def

lemma ring_pop:
  assumes "ring_ok buf i p f" and "unat k \<le> ring_count i p f" and "f \<longrightarrow> 0 < unat k"
  shows "ring_ok buf i (inc p k) False"
    and "ring buf (unat (inc p k)) (ring_count i (inc p k) False) = drop (unat k) (ring buf (unat p) (ring_count i p f))"
proof -
  have k: "unat k \<le> 1024" using assms ring_count_le [of i p f] by simp
  show "ring_ok buf i (inc p k) False" using assms k by (simp add: ring_ok_def inc_less)
  show "ring buf (unat (inc p k)) (ring_count i (inc p k) False) = drop (unat k) (ring buf (unat p) (ring_count i p f))"
    using assms k by (simp add: ring_count_pop [OF assms] drop_ring unat_inc ring_ok_def)
qed

lemma ring_push:
  assumes ok: "ring_ok buf i p f" and k: "unat k \<le> 1024 - ring_count i p f" "0 < ring_count i p f + unat k"
    and xs: "unat k \<le> length xs"
    and buf': "buf' = (if unat i + unat k \<le> 1024 then take (unat i) buf @ take (unat k) xs @ drop (unat i + unat k) buf
       else take (unat i + unat k - 1024) (drop (1024 - unat i) xs) @
            drop (unat i + unat k - 1024) (take (unat i) buf @ take (1024 - unat i) xs))"
  shows "ring_ok buf' (inc i k) p (inc i k = p)"
    and "ring buf' (unat p) (ring_count (inc i k) p (inc i k = p)) = ring buf (unat p) (ring_count i p f) @ take (unat k) xs"
proof -
  let ?n = "ring_count i p f"
  have len: "length buf = 1024" using ok by (simp add: ring_ok_def)
  have i: "(unat p + ?n) mod length buf = unat i" using ring_in [OF ok] len by simp
  have i': "unat i < 1024" using ok by (simp add: ring_ok_def)
  show "ring_ok buf' (inc i k) p (inc i k = p)"
    using ok k xs by (auto simp: ring_ok_def inc_less buf')
  have "ring buf' (unat p) (?n + unat k) = ring buf (unat p) ?n @ take (unat k) xs"
  proof (cases "unat i + unat k \<le> 1024")
    case True
    then show ?thesis
      using ring_store [of ?n "unat k" buf "unat p" xs] k xs len i ring_count_le [of i p f] by (simp add: buf')
  next
    case False
    with ring_store_wrap [of "unat i" "unat p" ?n buf "take (unat i) buf @ take (1024 - unat i) xs" "1024 - unat i" xs "unat i + unat k - 1024"]
    show ?thesis
      using k xs len i i' ring_count_le [of i p f] by (simp add: buf')
  qed
  then show "ring buf' (unat p) (ring_count (inc i k) p (inc i k = p)) = ring buf (unat p) ?n @ take (unat k) xs"
    using ok k by (simp add: ring_count_push)
qed

lemma ring_front:
  assumes "ring_ok buf i p f" and "k \<le> ring_count i p f" and "unat p + k \<le> 1024"
  shows "take k (drop (unat p) buf) = take k (ring buf (unat p) (ring_count i p f))"
  using assms by (simp add: take_ring ring_contiguous ring_ok_def)

lemma ring_front_wrap:
  assumes "ring_ok buf i p f" and "k \<le> ring_count i p f" and "1024 < unat p + k"
  shows "take (1024 - unat p) (drop (unat p) buf) @ take (unat p + k - 1024) buf = take k (ring buf (unat p) (ring_count i p f))"
proof -
  have len: "length buf = 1024" and p: "unat p < 1024" using assms by (auto simp: ring_ok_def)
  have k: "k = (1024 - unat p) + (unat p + k - 1024)" "k \<le> 1024"
    using assms p ring_count_le [of i p f] by auto
  have "take k (ring buf (unat p) (ring_count i p f)) = ring buf (unat p) ((1024 - unat p) + (unat p + k - 1024))"
    using assms k by (simp add: take_ring)
  also have "\<dots> = ring buf (unat p) (1024 - unat p) @ ring buf 0 (unat p + k - 1024)"
    unfolding ring_add using len p by simp
  also have "\<dots> = take (1024 - unat p) (drop (unat p) buf) @ take (unat p + k - 1024) buf"
    using len p k by (simp add: ring_contiguous)
  finally show ?thesis by simp
qed

section \<open>The transmit side\<close>

lemma tx_empty_iff: "tx_ok s \<Longrightarrow> tx_empty s \<longleftrightarrow> tx_bytes s = []"
  using ring_empty_iff unfolding tx_defs tx_empty_def by (fastforce simp: ring_def)

lemma length_tx_bytes [simp]: "length (tx_bytes s) = tx_count s"
  by (simp add: tx_bytes_def)

lemma length_rx_bytes [simp]: "length (rx_bytes s) = rx_count s"
  by (simp add: rx_bytes_def)

text \<open>Handing \<open>k\<close> elements to the driver takes them off the front of the transmit buffer.\<close>

lemma tx_advance:
  assumes "tx_ok s" and "0 < k" and "unat k \<le> tx_count s"
  shows "tx_ok (s\<lparr>m_com := c, m_tx_out := inc (m_tx_out s) k, m_tx_full := False\<rparr>)"
    and "tx_bytes (s\<lparr>m_com := c, m_tx_out := inc (m_tx_out s) k, m_tx_full := False\<rparr>) = drop (unat k) (tx_bytes s)"
  using assms ring_pop [of "m_tx_buffer s" "m_tx_in s" "m_tx_out s" "m_tx_full s" k]
  by (simp_all add: tx_defs unat_gt_0 word_gt_0)

context data_link
begin

text \<open>What no transmit operation touches.\<close>

definition tx_frame :: "('a, 'c) Streamer \<Rightarrow> ('a, 'c) Streamer \<Rightarrow> bool" where
  "tx_frame s s' \<longleftrightarrow> rx_bytes s' = rx_bytes s \<and> rx_ok s' = rx_ok s \<and> inq (m_com s') = inq (m_com s) \<and>
     Comm_is_open C (m_com s') = Comm_is_open C (m_com s) \<and> m_packet_size s' = m_packet_size s"

lemma tx_frame_refl [simp]: "tx_frame s s"
  by (simp add: tx_frame_def)

lemma tx_frame_trans: "tx_frame s t \<Longrightarrow> tx_frame t u \<Longrightarrow> tx_frame s u"
  by (simp add: tx_frame_def)

text \<open>Offering elements to the driver loses none of them, whatever number it takes.\<close>

definition flushed :: "('a, 'c) Streamer \<Rightarrow> ('a, 'c) Streamer \<Rightarrow> size_t \<Rightarrow> size_t \<Rightarrow> bool" where
  "flushed s s' used' n \<longleftrightarrow> Streamer_inv com_ok s' \<and> unat used' = tx_count s' \<and>
     tx_count s' + unat n \<le> tx_count s \<and> out_stream outq s' = out_stream outq s \<and> tx_frame s s'"

lemma flushed_trans: "flushed s s1 u1 n1 \<Longrightarrow> flushed s1 s2 u2 n2 \<Longrightarrow> flushed s s2 u2 n2"
  by (auto simp: flushed_def intro: tx_frame_trans)

lemma flush_put_cases:
  assumes inv: "Streamer_inv com_ok s" and used: "unat used = tx_count s"
    and w: "Comm_write C (m_tx_buffer s) off k (m_com s) = Some (n, c)" and n: "unat n \<le> tx_count s"
    and c: "com_ok c" "outq c = outq (m_com s) @ take (unat n) (tx_bytes s)" "inq c = inq (m_com s)"
      "Comm_is_open C c = Comm_is_open C (m_com s)"
  obtains s' used' where "flush_put C s off k used = Some (s', used', n)" and "flushed s s' used' n"
    and "m_tx_buffer s' = m_tx_buffer s" and "m_com s' = c"
    and "m_tx_out s' = (if n > 0 then inc (m_tx_out s) n else m_tx_out s)" and "tx_count s' = tx_count s - unat n"
proof (cases "n > 0")
  case True
  let ?s = "s\<lparr>m_com := c, m_tx_out := inc (m_tx_out s) n, m_tx_full := False\<rparr>"
  have ok: "tx_ok ?s" and b: "tx_bytes ?s = drop (unat n) (tx_bytes s)"
    using inv n tx_advance [OF _ True] by (auto simp: Streamer_inv_def)
  from b have cnt: "tx_count ?s = tx_count s - unat n" by (metis length_drop length_tx_bytes)
  moreover have "unat (used - n) = tx_count s - unat n"
    using n used by (simp add: unat_diff_small word_le_nat_alt)
  ultimately have "flushed s ?s (used - n) n"
    using inv n c ok b by (simp add: flushed_def Streamer_inv_def out_stream_def tx_frame_def rx_defs)
  with True w cnt show ?thesis by (intro that [of ?s]) (simp_all add: flush_put_def)
next
  case False
  then have "n = 0" by (simp add: word_gt_0)
  with inv used c have "flushed s (s\<lparr>m_com := c\<rparr>) used n"
    by (simp add: flushed_def Streamer_inv_def out_stream_def tx_frame_def rx_defs tx_defs)
  with False w \<open>n = 0\<close> show ?thesis
    by (intro that [of "s\<lparr>m_com := c\<rparr>"]) (simp_all add: flush_put_def tx_count_def)
qed

text \<open>A write of a contiguous front part.\<close>

lemma flush_put_front:
  assumes inv: "Streamer_inv com_ok s" and used: "unat used = tx_count s"
    and k: "unat k \<le> tx_count s" "unat (m_tx_out s) + unat k \<le> 1024"
  obtains n c s' used' where "Comm_write C (m_tx_buffer s) (unat (m_tx_out s)) k (m_com s) = Some (n, c)" and "n \<le> k"
    and "flush_put C s (unat (m_tx_out s)) k used = Some (s', used', n)" and "flushed s s' used' n"
    and "m_tx_buffer s' = m_tx_buffer s" and "m_com s' = c"
    and "m_tx_out s' = (if n > 0 then inc (m_tx_out s) n else m_tx_out s)" and "tx_count s' = tx_count s - unat n"
proof -
  have len: "length (m_tx_buffer s) = 1024" using inv by (simp add: Streamer_inv_def tx_defs ring_ok_def)
  obtain n c where w: "Comm_write C (m_tx_buffer s) (unat (m_tx_out s)) k (m_com s) = Some (n, c)" "n \<le> k"
    and c: "com_ok c" "outq c = outq (m_com s) @ take (unat n) (drop (unat (m_tx_out s)) (m_tx_buffer s))"
    "inq c = inq (m_com s)" "Comm_is_open C c = Comm_is_open C (m_com s)"
    using link_writeE [of "m_com s" "unat (m_tx_out s)" k "m_tx_buffer s"] inv k len
    by (auto simp: Streamer_inv_def)
  have n: "unat n \<le> tx_count s" using w(2) k by (simp add: word_le_nat_alt)
  have "take (unat n) (drop (unat (m_tx_out s)) (m_tx_buffer s)) = take (unat n) (tx_bytes s)"
    using ring_front [of "m_tx_buffer s" "m_tx_in s" "m_tx_out s" "m_tx_full s" "unat n"] inv k w(2)
    by (simp add: Streamer_inv_def tx_defs word_le_nat_alt)
  with c have c': "outq c = outq (m_com s) @ take (unat n) (tx_bytes s)" by simp
  show ?thesis
    using flush_put_cases [OF inv used w(1) n c(1) c' c(3,4)] w that by metis
qed

text \<open>
  The second write of a packet that goes round the end: when the first one was complete the read
  index is back at 0, otherwise the driver takes nothing.
\<close>

lemma flush_put_second:
  assumes inv: "Streamer_inv com_ok s" and k: "unat k = 1024 - unat (m_tx_out s)" "unat k + unat count \<le> tx_count s"
    and w: "Comm_write C (m_tx_buffer s) (unat (m_tx_out s)) k (m_com s) = Some (n, c)" "n \<le> k" "n > 0"
    and s1: "flushed s s1 used1 n" "m_tx_buffer s1 = m_tx_buffer s" "m_com s1 = c" "m_tx_out s1 = inc (m_tx_out s) n"
      "tx_count s1 = tx_count s - unat n"
  obtains n2 s2 used2 where "flush_put C s1 0 count used1 = Some (s2, used2, n2)" and "flushed s1 s2 used2 n2"
proof -
  have out: "unat (m_tx_out s) < 1024" and len: "length (m_tx_buffer s) = 1024" and c: "com_ok (m_com s)"
    using inv by (auto simp: Streamer_inv_def tx_defs ring_ok_def)
  have cnt: "unat count \<le> 1024" using k ring_count_le [of "m_tx_in s" "m_tx_out s" "m_tx_full s"] by (simp add: tx_count_def)
  have inv1: "Streamer_inv com_ok s1" and used1: "unat used1 = tx_count s1" and c1: "com_ok c"
    using s1 by (auto simp: flushed_def Streamer_inv_def)
  show thesis
  proof (cases "n < k")
    case True
    have "\<exists>c2. Comm_write C (m_tx_buffer s) 0 count c = Some (0, c2)"
      by (rule link_short_write [OF c _ w(1) True]) (use k len cnt out in auto)
    with link_write [OF c1, of 0 count "m_tx_buffer s"] len cnt obtain c2 where
      w2: "Comm_write C (m_tx_buffer s1) 0 count (m_com s1) = Some (0, c2)" "com_ok c2"
        "outq c2 = outq (m_com s1) @ take (unat (0 :: size_t)) (tx_bytes s1)" "inq c2 = inq (m_com s1)"
        "Comm_is_open C c2 = Comm_is_open C (m_com s1)"
      using s1 by auto
    show thesis by (rule flush_put_cases [OF inv1 used1 w2(1) _ w2(2-5)]) (auto intro: that)
  next
    case False
    with w(2) have "n = k" by simp
    with k out have o1: "unat (m_tx_out s1) = 0" by (simp add: s1 unat_inc)
    have "unat count \<le> tx_count s1" using k \<open>n = k\<close> s1 by simp
    moreover have "unat (m_tx_out s1) + unat count \<le> 1024" using o1 cnt by simp
    ultimately show thesis
      by (rule flush_put_front [OF inv1 used1]) (rule that, simp_all add: o1)
  qed
qed

lemma flush_body_ok:
  assumes inv: "Streamer_inv com_ok s" and used: "unat used = tx_count s"
  obtains s' used' n where "flush_body C s used = Some (s', used', n)" and "flushed s s' used' n"
proof -
  define sz where "sz = (if used \<ge> m_packet_size s then m_packet_size s else used)"
  define count where "count = m_tx_out s + sz - m_max_size"
  have sz: "unat sz \<le> tx_count s" using used by (auto simp: sz_def word_le_nat_alt)
  have le: "unat sz \<le> 1024" using sz ring_count_le by (metis tx_count_def le_trans)
  have out: "unat (m_tx_out s) < 1024" using inv by (simp add: Streamer_inv_def tx_defs ring_ok_def)
  have wrap_iff: "0 <s count \<longleftrightarrow> 1024 < unat (m_tx_out s) + unat sz"
    using wrap_count_iff [OF out le] by (simp add: count_def STREAMER_BUFFER_SIZE_def)
  show thesis
  proof (cases "0 <s count")
    case False
    then have fit: "unat (m_tx_out s) + unat sz \<le> 1024" using wrap_iff by simp
    show thesis
      by (rule flush_put_front [OF inv used sz fit])
         (rule that, use False in \<open>simp_all add: flush_body_def Let_def sz_def [symmetric] count_def [symmetric]\<close>)
  next
    case True
    then have wrap: "1024 < unat (m_tx_out s) + unat sz" using wrap_iff by simp
    have k: "unat (sz - count) = 1024 - unat (m_tx_out s)" "unat (sz - count) + unat count \<le> tx_count s"
      using wrap_count [OF out le wrap] wrap sz out by (simp_all add: count_def STREAMER_BUFFER_SIZE_def)
    then have k': "unat (sz - count) \<le> tx_count s" "unat (m_tx_out s) + unat (sz - count) \<le> 1024" using out by simp_all
    obtain n c s1 used1 where w: "Comm_write C (m_tx_buffer s) (unat (m_tx_out s)) (sz - count) (m_com s) = Some (n, c)"
      "n \<le> sz - count" and p1: "flush_put C s (unat (m_tx_out s)) (sz - count) used = Some (s1, used1, n)"
      and s1: "flushed s s1 used1 n" "m_tx_buffer s1 = m_tx_buffer s" "m_com s1 = c"
        "m_tx_out s1 = (if n > 0 then inc (m_tx_out s) n else m_tx_out s)" "tx_count s1 = tx_count s - unat n"
      by (rule flush_put_front [OF inv used k'])
    note body = flush_body_def Let_def sz_def [symmetric] count_def [symmetric]
    show thesis
    proof (cases "n > 0")
      case pos: True
      have out1: "m_tx_out s1 = inc (m_tx_out s) n" using s1(4) pos by simp
      obtain n2 s2 used2 where "flush_put C s1 0 count used1 = Some (s2, used2, n2)" "flushed s1 s2 used2 n2"
        by (rule flush_put_second [OF inv k w pos s1(1-3) out1 s1(5)])
      with True p1 pos flushed_trans [OF s1(1)] show thesis by (intro that) (auto simp: body)
    next
      case False
      with True p1 s1(1) show thesis by (intro that) (auto simp: body)
    qed
  qed
qed

text \<open>The loop ends and delivers in order.\<close>

lemma flush_loop_ok:
  assumes "Streamer_inv com_ok s" and "unat used = tx_count s"
  shows "\<exists>s'. flush_loop C s used = Some s' \<and> Streamer_inv com_ok s' \<and>
           out_stream outq s' = out_stream outq s \<and> tx_count s' \<le> tx_count s \<and> tx_frame s s'"
  using assms
proof (induction "tx_count s" arbitrary: s used rule: less_induct)
  case less
  obtain s1 used1 n where b: "flush_body C s used = Some (s1, used1, n)" "flushed s s1 used1 n"
    using flush_body_ok [OF less.prems] .
  show ?case
  proof (cases "used1 > 0 \<and> n > 0")
    case True
    then have "0 < unat n" by (simp add: word_gt_0 unat_gt_0)
    with b(2) have "tx_count s1 < tx_count s" by (simp add: flushed_def)
    then obtain s' where "flush_loop C s1 used1 = Some s'" "Streamer_inv com_ok s'"
      "out_stream outq s' = out_stream outq s1" "tx_count s' \<le> tx_count s1" "tx_frame s1 s'"
      using less.hyps [of s1 used1] b(2) by (auto simp: flushed_def)
    with True b show ?thesis
      by (subst flush_loop.simps) (auto simp: flushed_def intro: tx_frame_trans)
  next
    case False
    with b show ?thesis by (subst flush_loop.simps) (auto simp: flushed_def)
  qed
qed

lemma flush_ok:
  assumes "Streamer_inv com_ok s"
  shows "\<exists>s'. flush C s = Some s' \<and> Streamer_inv com_ok s' \<and> out_stream outq s' = out_stream outq s \<and>
           tx_count s' \<le> tx_count s \<and> tx_frame s s'"
proof -
  have "unat (if tx_full s then m_max_size else (m_tx_in s - m_tx_out s) AND (m_max_size - 1)) = tx_count s"
    using assms ring_used unfolding Streamer_inv_def tx_defs tx_full_def by blast
  with flush_loop_ok [OF assms] show ?thesis by (auto simp: flush_def assms)
qed

end

text \<open>The buffer after the copy, in the three cases of the source.\<close>

lemma tx_copy_ok:
  fixes s :: "('a, 'c) Streamer"
  assumes ok: "tx_ok s" and nf: "\<not> m_tx_full s" and sz: "unat sz \<le> 1024 - tx_count s" "unat sz \<le> length items"
  defines "i \<equiv> unat (m_tx_in s)" and "buf \<equiv> m_tx_buffer s"
  shows "tx_copy s items sz
       = Some (if i + unat sz \<le> 1024 then take i buf @ take (unat sz) items @ drop (i + unat sz) buf
               else take (i + unat sz - 1024) (drop (1024 - i) items) @ drop (i + unat sz - 1024) (take i buf @ take (1024 - i) items))"
proof -
  have len: "length buf = 1024" and i: "i < 1024" using ok by (auto simp: tx_defs ring_ok_def i_def buf_def)
  have le: "unat sz \<le> 1024" using sz by simp
  have below: "m_tx_out s > m_tx_in s \<Longrightarrow> i + unat sz \<le> 1024"
    using ring_count_cases [OF ok [unfolded tx_ok_def]] nf sz ok
    by (auto simp: tx_defs ring_ok_def word_less_nat_alt i_def split: if_splits)
  have wrap: "0 <s (m_tx_in s + sz - m_max_size) \<longleftrightarrow> 1024 < i + unat sz"
    using wrap_count_iff [of "m_tx_in s" sz] i le by (simp add: i_def STREAMER_BUFFER_SIZE_def)
  have cnt: "unat (m_tx_in s + sz - m_max_size) = i + unat sz - 1024" "unat (sz - (m_tx_in s + sz - m_max_size)) = 1024 - i"
    if "1024 < i + unat sz"
    using wrap_count [of "m_tx_in s" sz] i le that by (simp_all add: i_def STREAMER_BUFFER_SIZE_def)
  show ?thesis
    using below wrap cnt len i sz le by (auto simp: tx_copy_def Let_def i_def [symmetric] buf_def [symmetric])
qed

lemma in_stream_cong: "rx_bytes s' = rx_bytes s \<Longrightarrow> inq (m_com s') = inq (m_com s) \<Longrightarrow> in_stream inq s' = in_stream inq s"
  by (simp add: in_stream_def)

context data_link
begin

lemma Streamer_write_ok:
  assumes inv: "Streamer_inv com_ok s" and items: "unat sz \<le> length items" and pos: "sz > 0"
  shows "\<exists>n s'. Streamer_write C s items sz = Some (n, s') \<and> unat n = min (unat sz) (1024 - tx_count s) \<and>
           Streamer_inv com_ok s' \<and> out_stream outq s' = out_stream outq s @ take (unat n) items \<and>
           tx_frame s s'"
proof (cases "m_tx_full s")
  case True
  then have "tx_count s = 1024" by (simp add: tx_count_def ring_count_def)
  with True flush_ok [OF inv] show ?thesis by (auto simp: Streamer_write_def tx_full_def)
next
  case False
  let ?i = "unat (m_tx_in s)" and ?buf = "m_tx_buffer s"
  have ok: "tx_ok s" using inv by (simp add: Streamer_inv_def)
  define avail where "avail = (if tx_empty s then m_max_size else (m_tx_out s - m_tx_in s) AND (m_max_size - 1))"
  have avail: "unat avail = 1024 - tx_count s"
    using ring_free [OF ok [unfolded tx_ok_def] False] False by (simp add: avail_def tx_empty_def tx_count_def)
  define n where "n = (if sz > avail then avail else sz)"
  have n: "unat n = min (unat sz) (1024 - tx_count s)" by (simp add: n_def unat_clamp avail)
  then have le: "unat n \<le> 1024 - tx_count s" "unat n \<le> length items" using items by simp_all
  define buf' where "buf' = (if ?i + unat n \<le> 1024 then take ?i ?buf @ take (unat n) items @ drop (?i + unat n) ?buf
    else take (?i + unat n - 1024) (drop (1024 - ?i) items) @ drop (?i + unat n - 1024) (take ?i ?buf @ take (1024 - ?i) items))"
  define s1 where "s1 = s\<lparr>m_tx_buffer := buf', m_tx_in := inc (m_tx_in s) n, m_tx_full := (inc (m_tx_in s) n = m_tx_out s)\<rparr>"
  have "tx_count s \<noteq> 1024" using ring_full_iff [OF ok [unfolded tx_ok_def]] False by (simp add: tx_count_def)
  then have "0 < tx_count s + unat n"
    using pos n ring_count_le [of "m_tx_in s" "m_tx_out s" "m_tx_full s"]
    by (auto simp: word_gt_0 unat_gt_0 tx_count_def)
  then have "ring_ok buf' (inc (m_tx_in s) n) (m_tx_out s) (inc (m_tx_in s) n = m_tx_out s)"
    "tx_bytes s1 = tx_bytes s @ take (unat n) items"
    using ring_push [OF ok [unfolded tx_ok_def] _ _ le(2) buf'_def] le by (simp_all add: tx_defs s1_def)
  then have s1: "Streamer_inv com_ok s1" "out_stream outq s1 = out_stream outq s @ take (unat n) items" "tx_frame s s1"
    using inv by (simp_all add: Streamer_inv_def out_stream_def tx_frame_def tx_defs rx_defs s1_def)
  have "Streamer_write C s items sz = do { s \<leftarrow> flush C s1; Some (n, s) }"
    using False tx_copy_ok [OF ok False le]
    by (simp add: Streamer_write_def tx_full_def Let_def avail_def [symmetric] n_def [symmetric] buf'_def [symmetric] s1_def)
  with flush_ok [OF s1(1)] s1 n show ?thesis by (auto intro: tx_frame_trans)
qed
end

section \<open>The receive side\<close>

context data_link
begin

text \<open>What no receive operation touches.\<close>

definition rx_frame :: "('a, 'c) Streamer \<Rightarrow> ('a, 'c) Streamer \<Rightarrow> bool" where
  "rx_frame s s' \<longleftrightarrow> tx_bytes s' = tx_bytes s \<and> tx_ok s' = tx_ok s \<and> outq (m_com s') = outq (m_com s) \<and>
     Comm_is_open C (m_com s') = Comm_is_open C (m_com s) \<and> m_packet_size s' = m_packet_size s"

lemma rx_frame_refl [simp]: "rx_frame s s"
  by (simp add: rx_frame_def)

lemma rx_frame_trans: "rx_frame s t \<Longrightarrow> rx_frame t u \<Longrightarrow> rx_frame s u"
  by (simp add: rx_frame_def)

lemma rx_frame_out_stream: "rx_frame s s' \<Longrightarrow> out_stream outq s' = out_stream outq s"
  and rx_frame_tx_bytes: "rx_frame s s' \<Longrightarrow> tx_bytes s' = tx_bytes s"
  by (simp_all add: rx_frame_def out_stream_def)

text \<open>
  One contiguous read of at most \<open>len\<close> elements, at the write index. \<open>received s s' n\<close>: \<open>n\<close> elements
  moved from the link to the end of the receive buffer.
\<close>

definition received :: "('a, 'c) Streamer \<Rightarrow> ('a, 'c) Streamer \<Rightarrow> nat \<Rightarrow> bool" where
  "received s s' n \<longleftrightarrow> Streamer_inv com_ok s' \<and> rx_frame s s' \<and> n \<le> length (inq (m_com s)) \<and>
     rx_bytes s' = rx_bytes s @ take n (inq (m_com s)) \<and> inq (m_com s') = drop n (inq (m_com s))"

lemma received_0: "Streamer_inv com_ok s \<Longrightarrow> received s s 0"
  by (simp add: received_def)

lemma received_trans: "received s t n \<Longrightarrow> received t u m \<Longrightarrow> received s u (n + m)"
  by (auto simp: received_def take_add intro: rx_frame_trans) (simp add: add.commute)

lemma received_in_stream: "received s s' n \<Longrightarrow> in_stream inq s' = in_stream inq s"
  by (simp add: received_def in_stream_def)

lemma rx_get:
  assumes inv: "Streamer_inv com_ok s" and len: "unat len \<le> 1024 - rx_count s" "unat (m_rx_in s) + unat len \<le> 1024"
    and off: "off = unat (m_rx_in s)"
  obtains n buf c where "Comm_read C (m_rx_buffer s) off len (m_com s) = Some (n, buf, c)" and "n \<le> len"
    and "n = 0 \<Longrightarrow> received s (s\<lparr>m_rx_buffer := buf, m_com := c\<rparr>) 0"
    and "n > 0 \<Longrightarrow> received s (s\<lparr>m_rx_buffer := buf, m_com := c, m_rx_in := inc (m_rx_in s) n,
                                m_rx_full := (inc (m_rx_in s) n = m_rx_out s)\<rparr>) (unat n)"
proof -
  let ?i = "unat (m_rx_in s)" and ?buf = "m_rx_buffer s"
  have ok: "ring_ok ?buf (m_rx_in s) (m_rx_out s) (m_rx_full s)" and c0: "com_ok (m_com s)"
    using inv by (auto simp: Streamer_inv_def rx_ok_def)
  then have "length ?buf = 1024" by (simp add: ring_ok_def)
  then obtain n c where r: "Comm_read C ?buf off len (m_com s) =
        Some (n, take ?i ?buf @ take (unat n) (inq (m_com s)) @ drop (?i + unat n) ?buf, c)"
      "n \<le> len" "unat n \<le> length (inq (m_com s))" "com_ok c" "inq c = drop (unat n) (inq (m_com s))"
      "outq c = outq (m_com s)" "Comm_is_open C c = Comm_is_open C (m_com s)"
    using link_readE [OF c0, of ?i len ?buf] len off by auto
  show thesis
  proof (rule that [OF r(1,2)])
    assume "n = 0"
    with r inv show "received s (s\<lparr>m_rx_buffer := take ?i ?buf @ take (unat n) (inq (m_com s)) @ drop (?i + unat n) ?buf, m_com := c\<rparr>) 0"
      by (simp add: received_def Streamer_inv_def rx_frame_def rx_defs tx_defs)
  next
    assume "n > 0"
    then have "0 < unat n" by (simp add: word_gt_0 unat_gt_0)
    with r len have "unat n \<le> 1024 - ring_count (m_rx_in s) (m_rx_out s) (m_rx_full s)"
      "0 < ring_count (m_rx_in s) (m_rx_out s) (m_rx_full s) + unat n" "?i + unat n \<le> 1024"
      by (simp_all add: rx_count_def word_le_nat_alt)
    with ring_push [OF ok this(1,2) r(3) refl] inv r
    show "received s (s\<lparr>m_rx_buffer := take ?i ?buf @ take (unat n) (inq (m_com s)) @ drop (?i + unat n) ?buf, m_com := c, m_rx_in := inc (m_rx_in s) n,
                                m_rx_full := (inc (m_rx_in s) n = m_rx_out s)\<rparr>) (unat n)"
      by (simp add: received_def Streamer_inv_def rx_frame_def rx_defs tx_defs)
  qed
qed

lemma rx_count_cases:
  "Streamer_inv com_ok s \<Longrightarrow> rx_count s =
     (if m_rx_full s then 1024 else if unat (m_rx_out s) \<le> unat (m_rx_in s) then unat (m_rx_in s) - unat (m_rx_out s)
      else unat (m_rx_in s) + 1024 - unat (m_rx_out s))"
  unfolding Streamer_inv_def rx_ok_def rx_count_def by (blast intro: ring_count_cases)

lemma rx_bounds:
  assumes "Streamer_inv com_ok s"
  shows "unat (m_rx_in s) < 1024" and "unat (m_rx_out s) < 1024" and "m_rx_full s \<longrightarrow> m_rx_in s = m_rx_out s"
    and "length (m_rx_buffer s) = 1024"
  using assms by (auto simp: Streamer_inv_def rx_ok_def ring_ok_def)

lemma com_read_upper:
  assumes inv: "Streamer_inv com_ok s" and nf: "\<not> m_rx_full s" and up: "m_rx_in s \<ge> m_rx_out s"
  shows "\<exists>s' n. com_read C s = Some s' \<and> received s s' n"
proof -
  note b = rx_bounds [OF inv]
  define len where "len = m_max_size - m_rx_in s"
  have len: "unat len = 1024 - unat (m_rx_in s)"
    using b by (simp add: len_def STREAMER_BUFFER_SIZE_def unat_diff_small word_le_nat_alt)
  have cnt: "rx_count s = unat (m_rx_in s) - unat (m_rx_out s)"
    using rx_count_cases [OF inv] nf up by (simp add: word_le_nat_alt)
  obtain n buf c where r: "Comm_read C (m_rx_buffer s) (unat (m_rx_in s)) len (m_com s) = Some (n, buf, c)" "n \<le> len"
    and z: "n = 0 \<Longrightarrow> received s (s\<lparr>m_rx_buffer := buf, m_com := c\<rparr>) 0"
    and p: "n > 0 \<Longrightarrow> received s (s\<lparr>m_rx_buffer := buf, m_com := c, m_rx_in := inc (m_rx_in s) n,
                                m_rx_full := (inc (m_rx_in s) n = m_rx_out s)\<rparr>) (unat n)"
    by (rule rx_get [OF inv, of len "unat (m_rx_in s)"]) (use len cnt b in auto)
  define s1 where "s1 = s\<lparr>m_rx_buffer := buf, m_com := c, m_rx_in := inc (m_rx_in s) n,
                                m_rx_full := (inc (m_rx_in s) n = m_rx_out s)\<rparr>"
  consider "n = 0" | "n > 0" "n \<noteq> len" | "n > 0" "n = len" by (auto simp: word_gt_0)
  then show ?thesis
  proof cases
    case 1
    with z r nf up show ?thesis by (auto simp: com_read_def rx_full_def len_def Let_def)
  next
    case 2
    with p r nf up show ?thesis by (auto simp: com_read_def rx_full_def len_def Let_def)
  next
    case 3
    have rc: "received s s1 (unat n)" and inv1: "Streamer_inv com_ok s1"
      using p 3 by (simp_all add: s1_def received_def)
    have "length (rx_bytes s1) = rx_count s + unat n" using rc by (simp add: received_def)
    then have cnt1: "rx_count s1 = 1024 - unat (m_rx_out s)" using cnt len 3 up b by (simp add: word_le_nat_alt)
    have in1: "unat (m_rx_in s1) = 0" using 3 len b by (simp add: s1_def unat_inc)
    obtain m buf' c' where r2: "Comm_read C (m_rx_buffer s1) 0 (m_rx_out s) (m_com s1) = Some (m, buf', c')"
      and z2: "m = 0 \<Longrightarrow> received s1 (s1\<lparr>m_rx_buffer := buf', m_com := c'\<rparr>) 0"
      and p2: "m > 0 \<Longrightarrow> received s1 (s1\<lparr>m_rx_buffer := buf', m_com := c', m_rx_in := inc (m_rx_in s1) m,
                                m_rx_full := (inc (m_rx_in s1) m = m_rx_out s1)\<rparr>) (unat m)"
      by (rule rx_get [OF inv1, of "m_rx_out s" 0]) (use in1 cnt1 b in auto)
    have eq: "com_read C s = (if m > 0 then Some (s1\<lparr>m_rx_buffer := buf', m_com := c', m_rx_in := inc (m_rx_in s1) m,
                                m_rx_full := (inc (m_rx_in s1) m = m_rx_out s1)\<rparr>)
                              else Some (s1\<lparr>m_rx_buffer := buf', m_com := c'\<rparr>))"
      using r r2 3 nf up by (simp add: com_read_def rx_full_def len_def [symmetric] Let_def s1_def)
    show ?thesis
    proof (cases "m > 0")
      case True
      with eq received_trans [OF rc p2] show ?thesis by auto
    next
      case False
      then have "m = 0" by (simp add: word_gt_0)
      with eq received_trans [OF rc z2] show ?thesis by auto
    qed
  qed
qed

lemma com_read_lower:
  assumes inv: "Streamer_inv com_ok s" and nf: "\<not> m_rx_full s" and low: "\<not> m_rx_in s \<ge> m_rx_out s"
  shows "\<exists>s' n. com_read C s = Some s' \<and> received s s' n"
proof -
  note b = rx_bounds [OF inv]
  define len where "len = m_rx_out s - m_rx_in s"
  have len: "unat len = unat (m_rx_out s) - unat (m_rx_in s)"
    using low by (simp add: len_def unat_diff_small word_le_nat_alt)
  have cnt: "rx_count s = unat (m_rx_in s) + 1024 - unat (m_rx_out s)"
    using rx_count_cases [OF inv] nf low by (simp add: word_le_nat_alt)
  obtain n buf c where r: "Comm_read C (m_rx_buffer s) (unat (m_rx_in s)) len (m_com s) = Some (n, buf, c)" "n \<le> len"
    and z: "n = 0 \<Longrightarrow> received s (s\<lparr>m_rx_buffer := buf, m_com := c\<rparr>) 0"
    and p: "n > 0 \<Longrightarrow> received s (s\<lparr>m_rx_buffer := buf, m_com := c, m_rx_in := inc (m_rx_in s) n,
                                m_rx_full := (inc (m_rx_in s) n = m_rx_out s)\<rparr>) (unat n)"
    by (rule rx_get [OF inv, of len "unat (m_rx_in s)"]) (use len cnt b low in \<open>auto simp: word_le_nat_alt\<close>)
  have "unat n \<le> unat (m_rx_out s) - unat (m_rx_in s)" using r(2) len by (simp add: word_le_nat_alt)
  then have "unat (inc (m_rx_in s) n) = unat (m_rx_in s) + unat n" "unat (m_rx_in s) + unat n \<le> unat (m_rx_out s)"
    using b low by (simp_all add: unat_inc word_le_nat_alt)
  then have full: "inc (m_rx_in s) n \<ge> m_rx_out s \<longleftrightarrow> inc (m_rx_in s) n = m_rx_out s"
    by (auto simp: word_le_nat_alt word_unat_eq_iff)
  show ?thesis
  proof (cases "n > 0")
    case True
    with p r nf low full show ?thesis by (auto simp: com_read_def rx_full_def len_def Let_def)
  next
    case False
    then have "n = 0" by (simp add: word_gt_0)
    with z r nf low show ?thesis by (auto simp: com_read_def rx_full_def len_def Let_def)
  qed
qed

lemma com_read_ok:
  assumes inv: "Streamer_inv com_ok s"
  obtains s' n where "com_read C s = Some s'" and "received s s' n"
proof (cases "m_rx_full s")
  case True
  then show thesis using received_0 [OF inv] by (intro that) (simp_all add: com_read_def rx_full_def)
next
  case False
  then show thesis using com_read_upper [OF inv] com_read_lower [OF inv] that by blast
qed

text \<open>The size the source computes is the number of elements held.\<close>

lemma rx_size_value:
  assumes inv: "Streamer_inv com_ok s"
  shows "unat (if \<not> m_rx_full s
               then (if m_rx_in s \<ge> m_rx_out s then m_rx_in s - m_rx_out s
                     else m_max_size + m_rx_in s - m_rx_out s)
               else m_max_size) = rx_count s"
proof -
  note b = rx_bounds [OF inv]
  have "unat (1024 + m_rx_in s) = 1024 + unat (m_rx_in s)" using b by (simp add: unat_add_small)
  then have "unat (1024 + m_rx_in s - m_rx_out s) = 1024 + unat (m_rx_in s) - unat (m_rx_out s)"
    using b by (simp add: unat_diff_small word_le_nat_alt)
  then show ?thesis
    using rx_count_cases [OF inv] by (auto simp: STREAMER_BUFFER_SIZE_def unat_diff_small word_le_nat_alt)
qed

lemma rx_available_value: "Streamer_inv com_ok s \<Longrightarrow> unat (rx_available s) = rx_count s"
  using ring_used unfolding Streamer_inv_def rx_defs rx_available_def rx_full_def by blast

lemma rx_empty_value: "Streamer_inv com_ok s \<Longrightarrow> \<not> m_rx_full s \<and> m_rx_in s = m_rx_out s \<longleftrightarrow> rx_count s = 0"
  using ring_empty_iff unfolding Streamer_inv_def rx_ok_def rx_count_def by blast

lemma rx_size_ok:
  assumes "Streamer_inv com_ok s"
  obtains n s' k where "rx_size C s = Some (n, s')" and "received s s' k" and "unat n = rx_count s'"
proof -
  obtain s' k where "com_read C s = Some s'" "received s s' k" using com_read_ok [OF assms] .
  moreover from this have "Streamer_inv com_ok s'" by (simp add: received_def)
  note v = rx_size_value [OF this]
  ultimately show ?thesis by (intro that [OF _ _ v]) (simp_all add: rx_size_def)
qed

lemma rx_empty_ok:
  assumes "Streamer_inv com_ok s"
  obtains s' k where "rx_empty C s = Some (rx_count s' = 0, s')" and "received s s' k"
proof -
  obtain s' k where "com_read C s = Some s'" "received s s' k" using com_read_ok [OF assms] .
  moreover from this have "Streamer_inv com_ok s'" by (simp add: received_def)
  ultimately show ?thesis by (intro that [of s' k]) (simp_all add: rx_empty_def rx_empty_value [symmetric])
qed

lemma rx_copy_ok:
  assumes inv: "Streamer_inv com_ok s" and sz: "unat sz \<le> rx_count s" "unat sz \<le> length items"
  shows "rx_copy s items sz = Some (take (unat sz) (rx_bytes s) @ drop (unat sz) items)"
proof -
  let ?o = "unat (m_rx_out s)" and ?buf = "m_rx_buffer s"
  note b = rx_bounds [OF inv] and ok = inv [unfolded Streamer_inv_def rx_ok_def, THEN conjunct2, THEN conjunct1]
  have le: "unat sz \<le> 1024" using sz ring_count_le by (metis rx_count_def le_trans)
  have above: "m_rx_in s > m_rx_out s \<Longrightarrow> ?o + unat sz \<le> 1024"
    using rx_count_cases [OF inv] sz b by (auto simp: word_less_nat_alt split: if_splits)
  have wrap: "0 <s (m_rx_out s + sz - m_max_size) \<longleftrightarrow> 1024 < ?o + unat sz"
    using wrap_count_iff [of "m_rx_out s" sz] b le by (simp add: STREAMER_BUFFER_SIZE_def)
  have cnt: "unat (m_rx_out s + sz - m_max_size) = ?o + unat sz - 1024" "unat (sz - (m_rx_out s + sz - m_max_size)) = 1024 - ?o"
    if "1024 < ?o + unat sz"
    using wrap_count [of "m_rx_out s" sz] b le that by (simp_all add: STREAMER_BUFFER_SIZE_def)
  show ?thesis
  proof (cases "1024 < ?o + unat sz")
    case False
    then have "take (unat sz) (drop ?o ?buf) = take (unat sz) (rx_bytes s)"
      using ring_front [OF ok] sz by (simp add: rx_defs)
    with False wrap b sz show ?thesis by (simp add: rx_copy_def Let_def)
  next
    case True
    then have "take (1024 - ?o) (drop ?o ?buf) @ take (?o + unat sz - 1024) ?buf = take (unat sz) (rx_bytes s)"
      using ring_front_wrap [OF ok] sz by (simp add: rx_defs)
    moreover have "1024 - ?o + (?o + unat sz - 1024) = unat sz" using True b by simp
    ultimately show ?thesis
      using True above wrap cnt b sz le by (auto simp: rx_copy_def Let_def)
  qed
qed


text \<open>\<open>try_read\<close> looks at the front of the stream, \<open>consume_read\<close> drops it, \<open>read\<close> does both.\<close>

lemma try_read_ok:
  assumes "Streamer_inv com_ok s" and "unat sz \<le> length items"
  obtains n s' k where "try_read C s items sz = Some (n, take (unat n) (rx_bytes s') @ drop (unat n) items, s')"
    and "received s s' k" and "unat n = min (unat sz) (rx_count s')"
proof -
  obtain s' k where e: "rx_empty C s = Some (rx_count s' = 0, s')" and r: "received s s' k"
    using rx_empty_ok [OF assms(1)] .
  have inv: "Streamer_inv com_ok s'" using r by (simp add: received_def)
  define n where "n = (if sz > rx_available s' then rx_available s' else sz)"
  have n: "unat n = min (unat sz) (rx_count s')" by (simp add: n_def unat_clamp rx_available_value [OF inv])
  show thesis
  proof (cases "rx_count s' = 0")
    case True
    with e show thesis by (intro that [OF _ r, of 0]) (simp_all add: try_read_def)
  next
    case False
    have "rx_copy s' items n = Some (take (unat n) (rx_bytes s') @ drop (unat n) items)"
      by (rule rx_copy_ok [OF inv]) (use n assms in simp_all)
    with False e show thesis by (intro that [OF _ r n]) (simp add: try_read_def Let_def n_def [symmetric])
  qed
qed

lemma rx_drop:
  assumes inv: "Streamer_inv com_ok s" and n: "unat n \<le> rx_count s" "m_rx_full s \<longrightarrow> 0 < unat n"
  defines "s' \<equiv> s\<lparr>m_rx_full := False, m_rx_out := inc (m_rx_out s) n\<rparr>"
  shows "Streamer_inv com_ok s'" and "rx_bytes s' = drop (unat n) (rx_bytes s)"
    and "inq (m_com s') = inq (m_com s)" and "rx_frame s s'"
  using ring_pop [of "m_rx_buffer s" "m_rx_in s" "m_rx_out s" "m_rx_full s" n] inv n
  by (simp_all add: s'_def Streamer_inv_def rx_defs tx_defs rx_frame_def)

text \<open>The number of elements that \<open>sz\<close> asks for and \<open>s'\<close> has, dropped from the front.\<close>

definition consumed :: "('a, 'c) Streamer \<Rightarrow> ('a, 'c) Streamer \<Rightarrow> nat \<Rightarrow> bool" where
  "consumed s s' n \<longleftrightarrow> Streamer_inv com_ok s' \<and> rx_frame s s' \<and> n \<le> length (in_stream inq s) \<and>
     in_stream inq s' = drop n (in_stream inq s)"

lemma consumed_0: "Streamer_inv com_ok s \<Longrightarrow> consumed s s 0"
  by (simp add: consumed_def)

lemma consumed_trans: "consumed s t n \<Longrightarrow> consumed t u m \<Longrightarrow> consumed s u (n + m)"
  by (auto simp: consumed_def intro: rx_frame_trans) (simp add: add.commute)

lemma received_consumed: "received s s' k \<Longrightarrow> consumed s s' 0"
  by (simp add: consumed_def received_in_stream) (simp add: received_def)

lemma consumed_drop:
  assumes r: "received s s1 k" and n: "unat n \<le> rx_count s1" "m_rx_full s1 \<longrightarrow> 0 < unat n"
  shows "consumed s (s1\<lparr>m_rx_full := False, m_rx_out := inc (m_rx_out s1) n\<rparr>) (unat n)" (is "consumed s ?s _")
proof -
  have inv: "Streamer_inv com_ok s1" using r by (simp add: received_def)
  note d = rx_drop [OF inv n]
  have "in_stream inq ?s = drop (unat n) (in_stream inq s1)" using d n by (simp add: in_stream_def)
  moreover have "unat n \<le> length (in_stream inq s1)" using n by (simp add: in_stream_def)
  moreover have "rx_frame s ?s" using r d(4) by (auto simp: received_def intro: rx_frame_trans)
  ultimately show ?thesis using d(1) received_in_stream [OF r] by (simp add: consumed_def)
qed

lemma consume_read_ok:
  assumes inv: "Streamer_inv com_ok s" and pos: "sz > 0"
  obtains n s1 k s' where "consume_read C s sz = Some (n, s')" and "received s s1 k"
    and "unat n = min (unat sz) (rx_count s1)" and "consumed s s' (unat n)" and "rx_bytes s' = drop (unat n) (rx_bytes s1)"
proof -
  obtain s1 k where e: "rx_empty C s = Some (rx_count s1 = 0, s1)" and r: "received s s1 k"
    using rx_empty_ok [OF inv] .
  have inv1: "Streamer_inv com_ok s1" using r by (simp add: received_def)
  define n where "n = (if sz > rx_available s1 then rx_available s1 else sz)"
  have n: "unat n = min (unat sz) (rx_count s1)" by (simp add: n_def unat_clamp rx_available_value [OF inv1])
  show thesis
  proof (cases "rx_count s1 = 0")
    case True
    with e received_consumed [OF r] show thesis by (intro that [OF _ r, of 0 s1]) (simp_all add: consume_read_def)
  next
    case False
    have "0 < unat sz" using pos by (simp add: word_gt_0 unat_gt_0)
    with False n have n': "unat n \<le> rx_count s1" "m_rx_full s1 \<longrightarrow> 0 < unat n" by simp_all
    show thesis
      by (rule that [OF _ r n consumed_drop [OF r n'] rx_drop(2) [OF inv1 n']])
         (use False e in \<open>simp add: consume_read_def Let_def n_def [symmetric]\<close>)
  qed
qed

lemma Streamer_read_ok:
  assumes inv: "Streamer_inv com_ok s" and pos: "sz > 0" and items: "unat sz \<le> length items"
  obtains n s1 k s' where "Streamer_read C s items sz = Some (n, take (unat n) (rx_bytes s1) @ drop (unat n) items, s')"
    and "received s s1 k" and "unat n = min (unat sz) (rx_count s1)" and "consumed s s' (unat n)"
proof -
  obtain s1 k where e: "rx_empty C s = Some (rx_count s1 = 0, s1)" and r: "received s s1 k"
    using rx_empty_ok [OF inv] .
  have inv1: "Streamer_inv com_ok s1" using r by (simp add: received_def)
  define n where "n = (if sz > rx_available s1 then rx_available s1 else sz)"
  have n: "unat n = min (unat sz) (rx_count s1)" by (simp add: n_def unat_clamp rx_available_value [OF inv1])
  show thesis
  proof (cases "rx_count s1 = 0")
    case True
    with e received_consumed [OF r] show thesis by (intro that [OF _ r, of 0 s1]) (simp_all add: Streamer_read_def)
  next
    case False
    have "0 < unat sz" using pos by (simp add: word_gt_0 unat_gt_0)
    with False n have n': "unat n \<le> rx_count s1" "m_rx_full s1 \<longrightarrow> 0 < unat n" by simp_all
    have "rx_copy s1 items n = Some (take (unat n) (rx_bytes s1) @ drop (unat n) items)"
      by (rule rx_copy_ok [OF inv1]) (use n items in simp_all)
    with False e show thesis
      by (intro that [OF _ r n consumed_drop [OF r n']]) (simp add: Streamer_read_def Let_def n_def [symmetric])
  qed
qed

end

section \<open>Progress over a bounded link\<close>

context bounded_link
begin

lemma flush_put_blocked:
  assumes "flush_put C s off k used = Some (s', used', n)" and "com_ok (m_com s)"
    and "off + unat k \<le> length (m_tx_buffer s)" and "k > 0" and "\<not> n > 0"
  shows "length (outq (m_com s')) = cap"
proof -
  obtain c where w: "Comm_write C (m_tx_buffer s) off k (m_com s) = Some (n, c)" "m_com s' = c" "n = 0"
    using assms(1,5) by (auto simp: flush_put_def word_gt_0 Let_def elim!: bind_SomeE split: if_splits)
  have "unat (0 :: size_t) = min (unat k) (cap - length (outq (m_com s)))" "com_ok c"
    "outq c = outq (m_com s) @ take (unat (0 :: size_t)) (drop off (m_tx_buffer s))"
    using bounded_write [OF assms(2,3)] w by auto
  moreover have "0 < unat k" using assms(4) by (simp add: word_gt_0 unat_gt_0)
  ultimately show ?thesis using w bounded_outq [OF \<open>com_ok c\<close>] by (auto simp: min_def split: if_splits)
qed

lemma flush_body_blocked:
  assumes inv: "Streamer_inv com_ok s" and used: "unat used = tx_count s" and pos: "used > 0" "m_packet_size s > 0"
    and b: "flush_body C s used = Some (s', used', n)" and n: "\<not> n > 0"
  shows "length (outq (m_com s')) = cap"
proof -
  define sz where "sz = (if used \<ge> m_packet_size s then m_packet_size s else used)"
  define count where "count = m_tx_out s + sz - m_max_size"
  have sz: "unat sz \<le> tx_count s" "sz > 0" using used pos by (auto simp: sz_def word_le_nat_alt)
  have le: "unat sz \<le> 1024" using sz ring_count_le by (metis tx_count_def le_trans)
  have out: "unat (m_tx_out s) < 1024" and len: "length (m_tx_buffer s) = 1024" and c: "com_ok (m_com s)"
    using inv by (auto simp: Streamer_inv_def tx_defs ring_ok_def)
  have wrap_iff: "0 <s count \<longleftrightarrow> 1024 < unat (m_tx_out s) + unat sz"
    using wrap_count_iff [OF out le] by (simp add: count_def STREAMER_BUFFER_SIZE_def)
  show ?thesis
  proof (cases "0 <s count")
    case False
    then have "flush_put C s (unat (m_tx_out s)) sz used = Some (s', used', n)"
      using b by (simp add: flush_body_def Let_def sz_def [symmetric] count_def [symmetric])
    with False show ?thesis using flush_put_blocked c len wrap_iff sz n by simp
  next
    case True
    then have wrap: "1024 < unat (m_tx_out s) + unat sz" using wrap_iff by simp
    have k: "unat (sz - count) = 1024 - unat (m_tx_out s)" "unat count = unat (m_tx_out s) + unat sz - 1024"
      using wrap_count [OF out le wrap] by (simp_all add: count_def STREAMER_BUFFER_SIZE_def)
    have pos': "sz - count > 0" "count > 0" using k wrap out by (simp_all add: word_less_nat_alt)
    have fit: "unat (sz - count) \<le> tx_count s" "unat (m_tx_out s) + unat (sz - count) \<le> 1024"
      using k wrap sz out by simp_all
    obtain n1 c1 s1 used1 where p1: "flush_put C s (unat (m_tx_out s)) (sz - count) used = Some (s1, used1, n1)"
      and f1: "flushed s s1 used1 n1" and buf1: "m_tx_buffer s1 = m_tx_buffer s"
      by (rule flush_put_front [OF inv used fit])
    have rest: "(if n1 > 0 then flush_put C s1 0 count used1 else Some (s1, used1, n1)) = Some (s', used', n)"
      using b [unfolded flush_body_def Let_def, folded sz_def, folded count_def] True p1 by simp
    show ?thesis
    proof (cases "n1 > 0")
      case True
      then show ?thesis
        using rest flush_put_blocked [of s1 0 count used1 s' used' n] n pos' k le out len buf1 f1
        by (simp add: flushed_def Streamer_inv_def)
    next
      case False
      then show ?thesis using rest flush_put_blocked [OF p1 c] len fit pos' by simp
    qed
  qed
qed

lemma flush_loop_progress:
  assumes "Streamer_inv com_ok s" and "unat used = tx_count s" and "used > 0" and "m_packet_size s > 0"
    and "flush_loop C s used = Some s'"
  shows "tx_count s' = 0 \<or> length (outq (m_com s')) = cap"
  using assms
proof (induction "tx_count s" arbitrary: s used rule: less_induct)
  case less
  obtain s1 used1 n where b: "flush_body C s used = Some (s1, used1, n)" "flushed s s1 used1 n"
    using flush_body_ok [OF less.prems(1,2)] .
  have s1: "Streamer_inv com_ok s1" "unat used1 = tx_count s1" "m_packet_size s1 > 0"
    using b(2) less.prems by (auto simp: flushed_def tx_frame_def)
  consider "used1 > 0" "n > 0" | "\<not> used1 > 0" "n > 0" | "\<not> n > 0" by blast
  then show ?case
  proof cases
    case 1
    then have "0 < unat n" by (simp add: word_gt_0 unat_gt_0)
    with b(2) have "tx_count s1 < tx_count s" by (simp add: flushed_def)
    moreover have "flush_loop C s1 used1 = Some s'"
      using less.prems(5) b 1 by (subst (asm) flush_loop.simps) simp
    ultimately show ?thesis using less.hyps s1 1 by blast
  next
    case 2
    then have "used1 = 0" by (simp add: word_gt_0)
    moreover have "s' = s1" using less.prems(5) b 2 by (subst (asm) flush_loop.simps) simp
    ultimately show ?thesis using s1(2) by simp
  next
    case 3
    moreover have "s' = s1" using less.prems(5) b 3 by (subst (asm) flush_loop.simps) simp
    ultimately show ?thesis using flush_body_blocked [OF less.prems(1-4) b(1)] by simp
  qed
qed

text \<open>A flush of an open link empties the transmit buffer or fills the link.\<close>

lemma flush_progress:
  assumes inv: "Streamer_inv com_ok s" and o: "Comm_is_open C (m_com s)" and p: "m_packet_size s > 0"
    and f: "flush C s = Some s'"
  shows "tx_count s' = 0 \<or> length (outq (m_com s')) = cap"
proof (cases "tx_empty s")
  case True
  with f have "s' = s" by (simp add: flush_def)
  moreover have "tx_count s = 0" using True inv tx_empty_iff [of s] by (simp add: Streamer_inv_def flip: length_tx_bytes)
  ultimately show ?thesis by simp
next
  case False
  define used where "used = (if tx_full s then m_max_size else (m_tx_in s - m_tx_out s) AND (m_max_size - 1))"
  have u: "unat used = tx_count s"
    unfolding used_def using inv ring_used unfolding Streamer_inv_def tx_defs tx_full_def by blast
  moreover have "tx_count s \<noteq> 0" using False inv tx_empty_iff [of s] by (simp add: Streamer_inv_def flip: length_tx_bytes)
  ultimately have "used > 0" by (auto simp: word_gt_0)
  moreover have "flush_loop C s used = Some s'" using f False o by (simp add: flush_def used_def)
  ultimately show ?thesis using flush_loop_progress [OF inv u] p by blast
qed


lemma bounded_readD:
  assumes "com_ok c" and "off + unat len \<le> length buf" and "Comm_read C buf off len c = Some (n, buf', c')"
  shows "unat n = min (unat len) (length (inq c))" and "inq c' = drop (unat n) (inq c)" and "com_ok c'"
    and "length buf' = length buf"
  using bounded_read [OF assms(1,2)] assms by auto

lemma received_full:
  assumes inv: "Streamer_inv com_ok s" and "received s s' k"
    and "length (inq (m_com s')) = length (inq (m_com s)) - m" and "m \<le> length (inq (m_com s))" and "rx_count s + m = 1024"
  shows "rx_count s' = 1024"
proof -
  have "length (rx_bytes s') = rx_count s + k" "length (inq (m_com s')) = length (inq (m_com s)) - k" "k \<le> length (inq (m_com s))"
    using assms by (auto simp: received_def)
  with assms show ?thesis by simp
qed

lemma com_read_progress_lower:
  assumes inv: "Streamer_inv com_ok s" and nf: "\<not> m_rx_full s" and low: "\<not> m_rx_in s \<ge> m_rx_out s"
    and r: "com_read C s = Some s'" and rcv: "received s s' k"
  shows "inq (m_com s') = [] \<or> rx_count s' = 1024"
proof -
  note b = rx_bounds [OF inv]
  define len where "len = m_rx_out s - m_rx_in s"
  have len: "unat len = unat (m_rx_out s) - unat (m_rx_in s)"
    using low by (simp add: len_def unat_diff_small word_le_nat_alt)
  obtain n buf c where rd: "Comm_read C (m_rx_buffer s) (unat (m_rx_in s)) len (m_com s) = Some (n, buf, c)"
    using r nf low by (auto simp: com_read_def rx_full_def len_def Let_def elim: bind_SomeE)
  have c: "m_com s' = c"
    using r nf low rd by (auto simp: com_read_def rx_full_def len_def Let_def split: if_splits)
  have n: "unat n = min (unat len) (length (inq (m_com s)))" "inq c = drop (unat n) (inq (m_com s))"
    using bounded_readD [OF _ _ rd] inv len b by (auto simp: Streamer_inv_def)
  show ?thesis
  proof (cases "unat n = unat len")
    case True
    have "rx_count s + unat len = 1024" using rx_count_cases [OF inv] nf low b len by (simp add: word_le_nat_alt)
    then show ?thesis using received_full [OF inv rcv, of "unat len"] n c True by simp
  next
    case False
    with n c show ?thesis by simp
  qed
qed

lemma com_read_progress_upper:
  assumes inv: "Streamer_inv com_ok s" and nf: "\<not> m_rx_full s" and up: "m_rx_in s \<ge> m_rx_out s"
    and r: "com_read C s = Some s'" and rcv: "received s s' k"
  shows "inq (m_com s') = [] \<or> rx_count s' = 1024"
proof -
  note b = rx_bounds [OF inv]
  define len where "len = m_max_size - m_rx_in s"
  have len: "unat len = 1024 - unat (m_rx_in s)"
    using b by (simp add: len_def STREAMER_BUFFER_SIZE_def unat_diff_small word_le_nat_alt)
  obtain n buf c where rd: "Comm_read C (m_rx_buffer s) (unat (m_rx_in s)) len (m_com s) = Some (n, buf, c)"
    using r nf up by (auto simp: com_read_def rx_full_def len_def Let_def elim: bind_SomeE)
  have n: "unat n = min (unat len) (length (inq (m_com s)))" "inq c = drop (unat n) (inq (m_com s))" "com_ok c" "length buf = 1024"
    using bounded_readD [OF _ _ rd] inv len b by (auto simp: Streamer_inv_def)
  show ?thesis
  proof (cases "n = len")
    case False
    then have "m_com s' = c"
      using r nf up rd by (auto simp: com_read_def rx_full_def len_def Let_def split: if_splits)
    with False n show ?thesis by (auto simp: word_unat_eq_iff min_def split: if_splits)
  next
    case True
    have "len > 0" using len b by (simp add: word_less_nat_alt)
    then obtain m buf' c' where rd2: "Comm_read C buf 0 (m_rx_out s) c = Some (m, buf', c')" "m_com s' = c'"
      using r nf up rd True by (auto simp: com_read_def rx_full_def len_def [symmetric] Let_def elim!: bind_SomeE split: if_splits)
    have m: "unat m = min (unat (m_rx_out s)) (length (inq c))" "inq c' = drop (unat m) (inq c)"
      using bounded_readD [OF n(3) _ rd2(1)] n(4) b by auto
    show ?thesis
    proof (cases "unat m = unat (m_rx_out s)")
      case False
      with m rd2 show ?thesis by simp
    next
      case full: True
      have "rx_count s + (unat len + unat m) = 1024"
        using rx_count_cases [OF inv] nf up b len full by (simp add: word_le_nat_alt)
      then show ?thesis using received_full [OF inv rcv, of "unat len + unat m"] n m rd2 True full by simp
    qed
  qed
qed

text \<open>Reading from the driver empties the link or fills the receive buffer.\<close>

lemma com_read_progress:
  assumes inv: "Streamer_inv com_ok s" and r: "com_read C s = Some s'"
  shows "inq (m_com s') = [] \<or> rx_count s' = 1024"
proof (cases "m_rx_full s")
  case True
  with r inv show ?thesis by (simp add: com_read_def rx_full_def rx_count_cases)
next
  case False
  obtain k where "received s s' k" using com_read_ok [OF inv] r by (metis option.inject)
  with False show ?thesis
    using com_read_progress_upper [OF inv _ _ r] com_read_progress_lower [OF inv _ _ r] by blast
qed

end

end
