(* ===== verification/Link_Properties.thy ===== *)
theory Link_Properties
  imports Streamer
begin

text \<open>
  The properties of the link and of the streamer: the theorems of the components read off for a link that
  satisfies the contract, and two behaviours outside it.
\<close>

section \<open>The loop-back link\<close>

lemma ServerCom_inv_new [simp]: "ServerCom_inv (ServerCom_new SharedBuffer_new)"
  by (simp add: ServerCom_inv_def ServerCom_new_def sb_inv_new)

lemma ClientCom_inv_new [simp]: "ClientCom_inv (ClientCom_new SharedBuffer_new)"
  by (simp add: ClientCom_inv_def ClientCom_new_def sb_inv_new)

text \<open>C28. What the client writes to the shared buffer the server reads in the same order: a write appends as
  many elements as there is room for, a read takes from the front as many as there are, and neither touches
  memory out of range.\<close>

theorem shared_buffer_fifo:
  assumes "sb_inv sb" and "off + unat len \<le> length buf" and "unat len' \<le> length dst"
  shows "\<exists>n sb1 k sb2. cln_write buf off len sb = Some (n, sb1) \<and>
           unat n = min (unat len) (256 - length (in_content sb)) \<and>
           srv_read dst 0 len' sb1 =
             Some (k, take (unat k) (in_content sb @ take (unat n) (drop off buf)) @ drop (unat k) dst, sb2) \<and>
           unat k = min (unat len') (length (in_content sb) + unat n) \<and>
           in_content sb2 = drop (unat k) (in_content sb @ take (unat n) (drop off buf)) \<and>
           out_content sb2 = out_content sb \<and> sb_inv sb2"
proof -
  obtain n sb1 where w: "cln_write buf off len sb = Some (n, sb1)" "unat n = min (unat len) (256 - length (in_content sb))"
    "sb_inv sb1" "in_content sb1 = in_content sb @ take (unat n) (drop off buf)" "out_content sb1 = out_content sb"
    using cln_write_spec [OF assms(1,2)] unfolding MAX_BUFFER_SIZE_def by blast
  obtain k sb2 where r: "srv_read dst 0 len' sb1 = Some (k, take (unat k) (in_content sb1) @ drop (unat k) dst, sb2)"
    "unat k = min (unat len') (length (in_content sb1))" "sb_inv sb2"
    "in_content sb2 = drop (unat k) (in_content sb1)" "out_content sb2 = out_content sb1"
    using srv_read_spec [OF w(3), of 0 len' dst] assms(3) unfolding take_0 append_Nil add_0 by blast
  have "length (take (unat n) (drop off buf)) = unat n" using w(2) assms(2) by simp
  then have "length (in_content sb1) = length (in_content sb) + unat n" by (simp add: w(4))
  with w r show ?thesis by metis
qed

theorem shared_buffer_fifo_witness:
  "\<exists>n sb1 k sb2. cln_write [7, 8, 9 :: u8] 1 2 SharedBuffer_new = Some (n, sb1) \<and> unat n = 2 \<and>
     srv_read [0, 0, 0] 0 3 sb1 = Some (k, [8, 9, 0], sb2) \<and> in_content sb2 = []"
proof -
  obtain n sb1 k sb2 where *: "cln_write [7, 8, 9 :: u8] 1 2 SharedBuffer_new = Some (n, sb1)" "unat n = 2"
    "srv_read [0, 0, 0] 0 3 sb1 = Some (k, take (unat k) (take (unat n) [8, 9]) @ drop (unat k) [0, 0, 0], sb2)"
    "unat k = min 3 (unat n)" "in_content sb2 = drop (unat k) (take (unat n) [8, 9])"
    using shared_buffer_fifo [OF sb_inv_new, of 1 2 "[7, 8, 9 :: u8]" 3 "[0, 0, 0]"] by auto
  then have "unat k = 2" by simp
  with * show ?thesis by auto
qed

section \<open>The streamer\<close>

lemma Streamer_inv_new:
  "com_ok com \<Longrightarrow> length tx = 1024 \<Longrightarrow> length rx = 1024 \<Longrightarrow> Streamer_inv com_ok (Streamer_new C com tx rx)"
  by (simp add: Streamer_inv_def Streamer_new_def tx_ok_def rx_ok_def ring_ok_def)

lemma tx_count_new [simp]: "tx_count (Streamer_new C com tx rx) = 0" "rx_count (Streamer_new C com tx rx) = 0"
  by (simp_all add: Streamer_new_def tx_count_def rx_count_def ring_count_def)

lemma bytes_new [simp]: "tx_bytes (Streamer_new C com tx rx) = []" "rx_bytes (Streamer_new C com tx rx) = []"
  by (simp_all flip: length_0_conv)

lemma m_com_new [simp]: "m_com (Streamer_new C com tx rx) = com"
  by (simp add: Streamer_new_def)

text \<open>A streamer on the server's end of the loop-back link, for the examples.\<close>

definition server_streamer :: "(u8, u8 ServerCom) Streamer" where
  "server_streamer = Streamer_new ServerCom (ServerCom_new SharedBuffer_new) (replicate 1024 0) (replicate 1024 0)"

lemma server_streamer_inv: "Streamer_inv ServerCom_inv server_streamer"
  by (simp add: server_streamer_def Streamer_inv_new)

lemma server_streamer_simps [simp]: "tx_count server_streamer = 0" "rx_count server_streamer = 0"
    "out_stream (out_content \<circ> srv_sb) server_streamer = []" "in_stream (in_content \<circ> srv_sb) server_streamer = []"
  by (simp_all add: server_streamer_def out_stream_def in_stream_def ServerCom_new_def)

text \<open>C29. Over every link that satisfies the contract, a write of a positive number of elements takes as many
  as the transmit buffer has room for and appends exactly these to what is to be delivered. It is memory safe,
  it returns, and it keeps the invariant.\<close>

theorem write_appends:
  assumes "data_link C com_ok inq outq" and "Streamer_inv com_ok s" and "0 < sz" and "unat sz \<le> length items"
  shows "\<exists>n s'. Streamer_write C s items sz = Some (n, s') \<and> unat n = min (unat sz) (1024 - tx_count s) \<and>
           Streamer_inv com_ok s' \<and> out_stream outq s' = out_stream outq s @ take (unat n) items \<and>
           in_stream inq s' = in_stream inq s"
  using data_link.Streamer_write_ok [OF assms(1,2,4,3)]
  by (auto simp: data_link.tx_frame_def [OF assms(1)] in_stream_def)

theorem write_appends_witness:
  "\<exists>n s'. Streamer_write ServerCom server_streamer [1, 2, 3] 3 = Some (n, s') \<and>
     out_stream (out_content \<circ> srv_sb) s' = [1, 2, 3] \<and> Streamer_inv ServerCom_inv s'"
  using write_appends [OF srv.data_link_axioms server_streamer_inv, of 3 "[1, 2, 3]"] by auto

context data_link
begin

lemma received_prefix:
  assumes "received s s1 k"
  shows "take (rx_count s1) (in_stream inq s) = rx_bytes s1" and "rx_count s \<le> rx_count s1"
proof -
  have b: "rx_bytes s1 = rx_bytes s @ take k (inq (m_com s))" and k: "k \<le> length (inq (m_com s))"
    using assms by (simp_all add: received_def)
  have l: "rx_count s1 = rx_count s + k" using arg_cong [OF b, of length] k by simp
  then show "rx_count s \<le> rx_count s1" by simp
  show "take (rx_count s1) (in_stream inq s) = rx_bytes s1" by (simp add: in_stream_def b l)
qed

lemma received_take:
  assumes "received s s1 k" and "n \<le> rx_count s1"
  shows "take n (rx_bytes s1) = take n (in_stream inq s)"
  using received_prefix(1) [OF assms(1)] assms(2) by (metis min.absorb1 take_take)

lemma read_stream:
  assumes "Streamer_inv com_ok s" and "0 < sz" and "unat sz \<le> length items"
  shows "\<exists>n s'. Streamer_read C s items sz = Some (n, take (unat n) (in_stream inq s) @ drop (unat n) items, s') \<and>
           min (unat sz) (rx_count s) \<le> unat n \<and> unat n \<le> unat sz \<and> Streamer_inv com_ok s' \<and>
           in_stream inq s' = drop (unat n) (in_stream inq s) \<and> out_stream outq s' = out_stream outq s"
proof -
  obtain n s1 k s' where r: "Streamer_read C s items sz = Some (n, take (unat n) (rx_bytes s1) @ drop (unat n) items, s')"
    "received s s1 k" "unat n = min (unat sz) (rx_count s1)" "consumed s s' (unat n)"
    using Streamer_read_ok [OF assms] .
  note t = received_take [OF r(2), of "unat n"] and m = received_prefix(2) [OF r(2)]
  from r t m show ?thesis
    by (intro exI [of _ n] exI [of _ s']) (auto simp: consumed_def dest: rx_frame_out_stream)
qed

lemma try_read_stream:
  assumes "Streamer_inv com_ok s" and "unat sz \<le> length items"
  shows "\<exists>n s'. try_read C s items sz = Some (n, take (unat n) (in_stream inq s) @ drop (unat n) items, s') \<and>
           min (unat sz) (rx_count s) \<le> unat n \<and> unat n \<le> unat sz \<and> Streamer_inv com_ok s' \<and>
           in_stream inq s' = in_stream inq s \<and> out_stream outq s' = out_stream outq s"
proof -
  obtain n s' k where r: "try_read C s items sz = Some (n, take (unat n) (rx_bytes s') @ drop (unat n) items, s')"
    "received s s' k" "unat n = min (unat sz) (rx_count s')"
    using try_read_ok [OF assms] .
  note t = received_take [OF r(2), of "unat n"] and m = received_prefix(2) [OF r(2)]
  from r t m received_in_stream [OF r(2)] show ?thesis
    by (intro exI [of _ n] exI [of _ s']) (auto simp: received_def dest: rx_frame_out_stream)
qed

lemma consume_stream:
  assumes "Streamer_inv com_ok s" and "0 < sz"
  shows "\<exists>n s'. consume_read C s sz = Some (n, s') \<and> min (unat sz) (rx_count s) \<le> unat n \<and> unat n \<le> unat sz \<and>
           Streamer_inv com_ok s' \<and> in_stream inq s' = drop (unat n) (in_stream inq s) \<and> out_stream outq s' = out_stream outq s"
proof -
  obtain n s1 k s' where r: "consume_read C s sz = Some (n, s')" "received s s1 k" "unat n = min (unat sz) (rx_count s1)"
    "consumed s s' (unat n)" using consume_read_ok [OF assms] by metis
  with received_prefix(2) [OF r(2)] show ?thesis
    by (intro exI [of _ n] exI [of _ s']) (auto simp: consumed_def dest: rx_frame_out_stream)
qed

lemma flush_stream:
  assumes "Streamer_inv com_ok s"
  shows "\<exists>s'. flush C s = Some s' \<and> Streamer_inv com_ok s' \<and> out_stream outq s' = out_stream outq s \<and>
           in_stream inq s' = in_stream inq s \<and> tx_count s' \<le> tx_count s"
  using flush_ok [OF assms] by (auto simp: tx_frame_def in_stream_def)

lemma rx_size_stream:
  assumes "Streamer_inv com_ok s"
  shows "\<exists>n s'. rx_size C s = Some (n, s') \<and> unat n = rx_count s' \<and> take (unat n) (in_stream inq s) = rx_bytes s' \<and>
           Streamer_inv com_ok s' \<and> in_stream inq s' = in_stream inq s \<and> out_stream outq s' = out_stream outq s"
proof -
  obtain n s' k where r: "rx_size C s = Some (n, s')" "received s s' k" "unat n = rx_count s'" using rx_size_ok [OF assms] .
  with received_prefix(1) [OF r(2)] received_in_stream [OF r(2)] show ?thesis
    by (auto simp: received_def dest: rx_frame_out_stream)
qed

end


text \<open>A streamer whose receive buffer holds the elements 5 and 6.\<close>

definition loaded_streamer :: "(u8, u8 ServerCom) Streamer" where
  "loaded_streamer = server_streamer\<lparr>m_rx_buffer := [5, 6] @ replicate 1022 0, m_rx_in := 2\<rparr>"

lemma loaded_streamer_inv: "Streamer_inv ServerCom_inv loaded_streamer"
  using server_streamer_inv
  by (simp add: loaded_streamer_def server_streamer_def Streamer_new_def Streamer_inv_def tx_ok_def rx_ok_def ring_ok_def)

lemma loaded_streamer_simps: "rx_count loaded_streamer = 2" "in_stream (in_content \<circ> srv_sb) loaded_streamer = [5, 6]"
proof -
  show c: "rx_count loaded_streamer = 2"
    by (simp add: loaded_streamer_def server_streamer_def Streamer_new_def rx_count_def ring_count_def)
  have "rx_bytes loaded_streamer = ring ([5, 6] @ replicate 1022 0) 0 2"
    using c by (simp add: rx_bytes_def rx_count_def) (simp add: loaded_streamer_def server_streamer_def Streamer_new_def)
  then show "in_stream (in_content \<circ> srv_sb) loaded_streamer = [5, 6]"
    by (simp add: in_stream_def ring_contiguous) (simp add: loaded_streamer_def server_streamer_def Streamer_new_def ServerCom_new_def)
qed


text \<open>Looking at the incoming stream without taking from it: \<^verbatim>\<open>try_read\<close> copies the next elements and leaves both
  streams as they are, whatever it moves from the link into its buffer.\<close>

theorem try_read_peeks:
  assumes "data_link C com_ok inq outq" and "Streamer_inv com_ok s" and "unat sz \<le> length items"
  shows "\<exists>n s'. try_read C s items sz = Some (n, take (unat n) (in_stream inq s) @ drop (unat n) items, s') \<and>
           min (unat sz) (rx_count s) \<le> unat n \<and> unat n \<le> unat sz \<and> Streamer_inv com_ok s' \<and>
           in_stream inq s' = in_stream inq s \<and> out_stream outq s' = out_stream outq s"
  by (rule data_link.try_read_stream [OF assms])

theorem try_read_peeks_witness:
  "\<exists>n s'. try_read ServerCom loaded_streamer [0] 1 = Some (n, [5], s') \<and> in_stream (in_content \<circ> srv_sb) s' = [5, 6]"
proof -
  obtain n s' where "try_read ServerCom loaded_streamer [0] 1 = Some (n, take (unat n) [5, 6] @ drop (unat n) [0], s')"
      "1 \<le> unat n" "unat n \<le> 1" "in_stream (in_content \<circ> srv_sb) s' = [5, 6]"
    using try_read_peeks [OF srv.data_link_axioms loaded_streamer_inv, of 1 "[0]"] by (auto simp: loaded_streamer_simps)
  moreover from this have "unat n = 1" by simp
  ultimately show ?thesis by auto
qed

text \<open>\<^verbatim>\<open>consume_read\<close> drops the next elements of the incoming stream and nothing else.\<close>

theorem consume_read_drops:
  assumes "data_link C com_ok inq outq" and "Streamer_inv com_ok s" and "0 < sz"
  shows "\<exists>n s'. consume_read C s sz = Some (n, s') \<and> min (unat sz) (rx_count s) \<le> unat n \<and> unat n \<le> unat sz \<and>
           Streamer_inv com_ok s' \<and> in_stream inq s' = drop (unat n) (in_stream inq s) \<and> out_stream outq s' = out_stream outq s"
  by (rule data_link.consume_stream [OF assms])

theorem consume_read_drops_witness:
  "\<exists>n s'. consume_read ServerCom loaded_streamer 1 = Some (n, s') \<and> in_stream (in_content \<circ> srv_sb) s' = [6]"
proof -
  obtain n s' where "consume_read ServerCom loaded_streamer 1 = Some (n, s')"
      "1 \<le> unat n" "unat n \<le> 1" "in_stream (in_content \<circ> srv_sb) s' = drop (unat n) [5, 6]"
    using consume_read_drops [OF srv.data_link_axioms loaded_streamer_inv, of 1] by (auto simp: loaded_streamer_simps)
  moreover from this have "unat n = 1" by simp
  ultimately show ?thesis by auto
qed



context bounded_link
begin

lemma flush_drains_link:
  assumes "Streamer_inv com_ok s" and "Comm_is_open C (m_com s)" and "0 < m_packet_size s"
  shows "\<exists>s'. flush C s = Some s' \<and> (tx_count s' = 0 \<or> length (outq (m_com s')) = cap)"
  using flush_stream [OF assms(1)] flush_progress [OF assms] by blast

lemma com_read_fills_buffer:
  assumes "Streamer_inv com_ok s"
  shows "\<exists>s'. com_read C s = Some s' \<and> (inq (m_com s') = [] \<or> rx_count s' = 1024) \<and> in_stream inq s' = in_stream inq s"
proof -
  obtain s' k where "com_read C s = Some s'" "received s s' k" using com_read_ok [OF assms] .
  then show ?thesis using com_read_progress [OF assms] received_in_stream by blast
qed

end

text \<open>Progress: a flush to an open link with a positive packet size empties the transmit buffer or leaves
  the link full.\<close>

theorem flush_drains:
  assumes "bounded_link C com_ok inq outq cap" and "Streamer_inv com_ok s" and "Comm_is_open C (m_com s)" and "0 < m_packet_size s"
  shows "\<exists>s'. flush C s = Some s' \<and> (tx_count s' = 0 \<or> length (outq (m_com s')) = cap)"
  by (rule bounded_link.flush_drains_link [OF assms])

text \<open>An open streamer whose transmit buffer holds one element.\<close>

definition open_streamer :: "(u8, u8 ServerCom) Streamer" where
  "open_streamer = server_streamer\<lparr>m_com := snd (ServerCom_open_impl (ServerCom_new SharedBuffer_new)), m_tx_in := 1\<rparr>"

lemma open_streamer_inv: "Streamer_inv ServerCom_inv open_streamer"
  using server_streamer_inv
  by (simp add: open_streamer_def server_streamer_def Streamer_new_def Streamer_inv_def tx_ok_def rx_ok_def ring_ok_def
      ServerCom_open_impl_def ServerCom_inv_def)

theorem flush_drains_witness:
  "\<exists>s'. flush ServerCom open_streamer = Some s' \<and> (tx_count s' = 0 \<or> length (out_content (srv_sb (m_com s'))) = 256)"
proof -
  have "Comm_is_open ServerCom (m_com open_streamer)" "0 < m_packet_size open_streamer"
    by (simp_all add: open_streamer_def server_streamer_def Streamer_new_def ServerCom_def ServerCom_open_impl_def
        ServerCom_is_open_impl_def ServerCom_get_packet_size_impl_def MAX_BUFFER_SIZE_def)
  then show ?thesis
    using flush_drains [OF srv.bounded_link_axioms open_streamer_inv] by (simp add: MAX_BUFFER_SIZE_def)
qed

text \<open>Progress on the other side: filling the receive buffer empties the link or fills the buffer, and moves
  elements without changing the incoming stream.\<close>

theorem com_read_fills:
  assumes "bounded_link C com_ok inq outq cap" and "Streamer_inv com_ok s"
  shows "\<exists>s'. com_read C s = Some s' \<and> (inq (m_com s') = [] \<or> rx_count s' = 1024) \<and> in_stream inq s' = in_stream inq s"
  by (rule bounded_link.com_read_fills_buffer [OF assms])

theorem com_read_fills_witness:
  "\<exists>s'. com_read ServerCom loaded_streamer = Some s' \<and> in_stream (in_content \<circ> srv_sb) s' = [5, 6]"
  using com_read_fills [OF srv.bounded_link_axioms loaded_streamer_inv] by (auto simp: loaded_streamer_simps)

lemma tx_size_value:
  assumes "tx_ok s"
  shows "unat (tx_size s) = tx_count s"
proof (cases "m_tx_full s")
  case True
  then show ?thesis by (simp add: tx_size_def tx_count_def ring_count_def STREAMER_BUFFER_SIZE_def)
next
  case False
  have b: "unat (m_tx_in s) < 1024" "unat (m_tx_out s) < 1024" using assms by (simp_all add: tx_ok_def ring_ok_def)
  have "unat (1024 + m_tx_in s) = 1024 + unat (m_tx_in s)" using b by (simp add: unat_add_small)
  then have "unat (1024 + m_tx_in s - m_tx_out s) = 1024 + unat (m_tx_in s) - unat (m_tx_out s)"
    using b by (simp add: unat_diff_small word_le_nat_alt)
  then show ?thesis
    using False b ring_count_cases [of "m_tx_buffer s" "m_tx_in s" "m_tx_out s" "m_tx_full s"] assms
    by (auto simp: tx_size_def tx_count_def tx_ok_def STREAMER_BUFFER_SIZE_def unat_diff_small word_le_nat_alt split: if_splits)
qed

text \<open>\<^verbatim>\<open>rx_size\<close> returns the exact number of elements that can be read at once, which are the first of the incoming
  stream, and \<^verbatim>\<open>tx_size\<close> the exact number that waits to be sent, in the three positions of the indices.\<close>

theorem sizes_exact:
  assumes "data_link C com_ok inq outq" and "Streamer_inv com_ok s"
  shows "unat (tx_size s) = length (tx_bytes s) \<and>
         (\<exists>n s'. rx_size C s = Some (n, s') \<and> unat n = length (rx_bytes s') \<and> rx_bytes s' = take (unat n) (in_stream inq s) \<and>
           Streamer_inv com_ok s' \<and> in_stream inq s' = in_stream inq s \<and> out_stream outq s' = out_stream outq s)"
proof
  show "unat (tx_size s) = length (tx_bytes s)" using assms(2) by (simp add: tx_size_value Streamer_inv_def)
next
  obtain n s' where "rx_size C s = Some (n, s')" "unat n = rx_count s'" "take (unat n) (in_stream inq s) = rx_bytes s'"
    "Streamer_inv com_ok s'" "in_stream inq s' = in_stream inq s" "out_stream outq s' = out_stream outq s"
    using data_link.rx_size_stream [OF assms] by blast
  then show "\<exists>n s'. rx_size C s = Some (n, s') \<and> unat n = length (rx_bytes s') \<and> rx_bytes s' = take (unat n) (in_stream inq s) \<and>
      Streamer_inv com_ok s' \<and> in_stream inq s' = in_stream inq s \<and> out_stream outq s' = out_stream outq s"
    by (intro exI [of _ n] exI [of _ s']) simp
qed

theorem sizes_exact_witness:
  "tx_size server_streamer = 0 \<and> (\<exists>n s'. rx_size ServerCom loaded_streamer = Some (n, s') \<and>
     rx_bytes s' = take (unat n) [5, 6] \<and> Streamer_inv ServerCom_inv s')"
proof -
  have "unat (tx_size server_streamer) = 0"
    using sizes_exact [OF srv.data_link_axioms server_streamer_inv] by simp
  then have "tx_size server_streamer = 0" by (simp add: unat_eq_0)
  moreover have "\<exists>n s'. rx_size ServerCom loaded_streamer = Some (n, s') \<and>
     rx_bytes s' = take (unat n) [5, 6] \<and> Streamer_inv ServerCom_inv s'"
    using sizes_exact [OF srv.data_link_axioms loaded_streamer_inv] unfolding loaded_streamer_simps by blast
  ultimately show ?thesis by blast
qed

section \<open>Behaviour outside the contract\<close>

lemma inc_0: "unat p < 1024 \<Longrightarrow> inc p 0 = p"
  by (simp add: inc_def STREAMER_BUFFER_SIZE_def word_le_nat_alt)

lemma tx_copy_0: "tx_ok s \<Longrightarrow> tx_copy s items 0 = Some (m_tx_buffer s)"
  using wrap_count_iff [of "m_tx_in s" 0]
  by (auto simp: tx_copy_def tx_ok_def ring_ok_def STREAMER_BUFFER_SIZE_def memcpy_def)

text \<open>A write of no elements to an empty transmit buffer marks the buffer full: with the link closed the streamer
  then counts 1024 elements that nobody wrote. The positive size in the statements above is needed.\<close>

theorem write_nothing_marks_full:
  assumes "tx_ok s" and "tx_empty s" and "\<not> Comm_is_open C (m_com s)"
  shows "Streamer_write C s items 0 = Some (0, s\<lparr>m_tx_full := True\<rparr>) \<and> tx_count (s\<lparr>m_tx_full := True\<rparr>) = 1024"
proof -
  have "inc (m_tx_in s) 0 = m_tx_in s" using assms(1) by (simp add: inc_0 tx_ok_def ring_ok_def)
  then show ?thesis
    using assms by (simp add: Streamer_write_def tx_copy_0 flush_def tx_full_def tx_empty_def tx_count_def ring_count_def
        STREAMER_BUFFER_SIZE_def Let_def)
qed

theorem write_nothing_marks_full_witness:
  "Streamer_write ServerCom server_streamer [] 0 = Some (0, server_streamer\<lparr>m_tx_full := True\<rparr>)"
proof -
  have "tx_ok server_streamer" "tx_empty server_streamer" "\<not> Comm_is_open ServerCom (m_com server_streamer)"
    using server_streamer_inv
    by (simp_all add: Streamer_inv_def server_streamer_def Streamer_new_def tx_empty_def ServerCom_def ServerCom_new_def ServerCom_is_open_impl_def)
  then show ?thesis using write_nothing_marks_full [of server_streamer ServerCom "[]"] by blast
qed

text \<open>A driver that takes one element per call, as the interface allows, and a streamer whose transmit buffer holds
  three elements round its end.\<close>

definition slow_com :: "(u8, u8 list) comm" where
  "slow_com =
     \<lparr>Comm_open = (\<lambda>c. (0, c)), Comm_close = id, Comm_is_open = (\<lambda>c. True), Comm_get_packet_size = (\<lambda>c. 256),
      Comm_write = (\<lambda>buf off len c. if 0 < len then Some (1, c @ [buf ! off]) else Some (0, c)),
      Comm_read = (\<lambda>buf off len c. Some (0, buf, c))\<rparr>"

definition wrapped_streamer :: "u8 list \<Rightarrow> (u8, u8 list) Streamer" where
  "wrapped_streamer buf = (Streamer_new slow_com [] buf (replicate 1024 0))\<lparr>m_tx_in := 1, m_tx_out := 1022\<rparr>"

lemma wrapped_streamer_bytes:
  assumes "length buf = 1024"
  shows "tx_bytes (wrapped_streamer buf) = [buf ! 1022, buf ! 1023, buf ! 0]"
proof -
  have "tx_count (wrapped_streamer buf) = 3"
    by (simp add: wrapped_streamer_def Streamer_new_def tx_count_def ring_count_def)
  then have "tx_bytes (wrapped_streamer buf) = ring buf 1022 3"
    by (simp add: tx_bytes_def) (simp add: wrapped_streamer_def Streamer_new_def)
  then show ?thesis using assms by (simp add: ring_def upt_rec)
qed

text \<open>C40. Over such a driver \<^verbatim>\<open>flush\<close> goes on with the start of the buffer although only part of the piece before
  its end was taken: one of the three elements is lost and another sent twice.\<close>

theorem flush_short_write_corrupts:
  assumes "length buf = 1024"
  shows "tx_bytes (wrapped_streamer buf) = [buf ! 1022, buf ! 1023, buf ! 0] \<and>
         (\<exists>s'. flush slow_com (wrapped_streamer buf) = Some s' \<and> m_com s' = [buf ! 1022, buf ! 0, buf ! 0] \<and> tx_empty s')"
  using assms
  by (simp add: wrapped_streamer_bytes)
    (simp add: wrapped_streamer_def flush_def tx_empty_def tx_full_def flush_loop.simps flush_body_def flush_put_def inc_def
      Streamer_new_def slow_com_def STREAMER_BUFFER_SIZE_def Let_def word_sless_alt word_le_nat_alt)

theorem flush_short_write_corrupts_witness:
  "\<exists>s'. flush slow_com (wrapped_streamer (replicate 1023 0 @ [7])) = Some s' \<and> m_com s' = [0, 0, 0]"
  using flush_short_write_corrupts [of "replicate 1023 0 @ [7]"] by (auto simp: nth_append)

end
