(* ===== verification/Message.thy ===== *)
theory Message
  imports Prelude
begin

text \<open>
  The messages (\<^verbatim>\<open>src/src/bmRPCMessage.h\<close>), binary and text, and the parts of the C++
  library they use. A \<^verbatim>\<open>std::string\<close> is its sequence of bytes; \<open>str\<close> turns a literal into
  one. The getters of the classes are the selectors of the records.
\<close>

section \<open>Strings of the C++ library\<close>

definition str :: "string \<Rightarrow> bytes" where
  "str cs = map of_char cs"

text \<open>The array behind \<^verbatim>\<open>c_str()\<close>, and the string that a pointer into an array denotes.
  Without a terminator in the array the latter is undefined.\<close>

definition c_str :: "bytes \<Rightarrow> bytes" where
  "c_str s = s @ [0]"

definition string_at :: "bytes \<Rightarrow> bytes option" where
  "string_at p = (if 0 \<in> set p then Some (takeWhile (\<lambda>b. b \<noteq> 0) p) else None)"

lemma string_at_c_str [simp]: "0 \<notin> set s \<Longrightarrow> string_at (s @ 0 # rest) = Some s"
  by (induction s) (auto simp: string_at_def)

text \<open>\<^verbatim>\<open>std::to_string\<close> of an unsigned number.\<close>

fun to_string_nat :: "nat \<Rightarrow> bytes" where
  "to_string_nat n =
     (if n < 10 then [48 + of_nat n] else to_string_nat (n div 10) @ [48 + of_nat (n mod 10)])"

declare to_string_nat.simps [simp del]

definition isdigit :: "u8 \<Rightarrow> bool" where
  "isdigit c \<longleftrightarrow> 48 \<le> c \<and> c \<le> 57"

definition digits_value :: "nat \<Rightarrow> bytes \<Rightarrow> nat" where
  "digits_value acc ds = foldl (\<lambda>v d. 10 * v + (unat d - 48)) acc ds"

text \<open>
  \<^verbatim>\<open>std::from_chars\<close> on an unsigned 16-bit target: the longest run of digits is
  converted; without a digit, or out of range, the target keeps its value.
\<close>

definition from_chars_u16 :: "bytes \<Rightarrow> u16 \<Rightarrow> u16" where
  "from_chars_u16 s old =
     (let ds = takeWhile isdigit s; v = digits_value 0 ds
      in if ds = [] \<or> v \<ge> 2 ^ 16 then old else of_nat v)"

section \<open>Binary messages\<close>

record BinMessage =
  bm_name :: bytes
  bm_id :: u16
  bm_value :: bytes

definition BinMessage_new :: BinMessage where
  "BinMessage_new = \<lparr>bm_name = [], bm_id = 0, bm_value = []\<rparr>"

definition BinMessage_setName :: "bytes \<Rightarrow> BinMessage \<Rightarrow> BinMessage" where
  "BinMessage_setName name m = m\<lparr>bm_name := name\<rparr>"

definition BinMessage_setValue :: "bytes \<Rightarrow> BinMessage \<Rightarrow> BinMessage" where
  "BinMessage_setValue value m = m\<lparr>bm_value := value\<rparr>"

definition BinMessage_resetValue :: "BinMessage \<Rightarrow> BinMessage" where
  "BinMessage_resetValue m = m\<lparr>bm_value := []\<rparr>"

text \<open>The loop of \<^verbatim>\<open>writeValue\<close>; its counter is an \<^verbatim>\<open>int\<close>.\<close>

primrec push_back_n :: "nat \<Rightarrow> bytes \<Rightarrow> bytes \<Rightarrow> bytes option" where
  "push_back_n 0 p v = Some v"
| "push_back_n (Suc n) p v = (case p of [] \<Rightarrow> None | b # p' \<Rightarrow> push_back_n n p' (v @ [b]))"

definition BinMessage_writeValue :: "bytes \<Rightarrow> size_t \<Rightarrow> BinMessage \<Rightarrow> BinMessage option" where
  "BinMessage_writeValue p sz m =
     (if unat sz < 2 ^ 31
      then do { v \<leftarrow> push_back_n (unat sz) p (bm_value m); Some (m\<lparr>bm_value := v\<rparr>) }
      else None)"

definition BinMessage_getSize :: "BinMessage \<Rightarrow> size_t" where
  "BinMessage_getSize m = of_nat (length (bm_value m))"

definition BinMessage_setId :: "u16 \<Rightarrow> BinMessage \<Rightarrow> BinMessage" where
  "BinMessage_setId i m = m\<lparr>bm_id := i\<rparr>"

lemma push_back_n_ok: "n \<le> length p \<Longrightarrow> push_back_n n p v = Some (v @ take n p)"
  by (induction n arbitrary: p v) (auto split: list.split)

lemma writeValue_ok:
  "unat sz \<le> length p \<Longrightarrow> unat sz < 2 ^ 31 \<Longrightarrow>
   BinMessage_writeValue p sz m = Some (m\<lparr>bm_value := bm_value m @ take (unat sz) p\<rparr>)"
  by (simp add: BinMessage_writeValue_def push_back_n_ok)

section \<open>Text messages\<close>

record TextMessage =
  tm_name :: bytes
  tm_id :: bytes
  tm_value :: bytes

definition TextMessage_new :: TextMessage where
  "TextMessage_new = \<lparr>tm_name = [], tm_id = [], tm_value = []\<rparr>"

definition TextMessage_setName :: "bytes \<Rightarrow> TextMessage \<Rightarrow> TextMessage" where
  "TextMessage_setName name m = m\<lparr>tm_name := name\<rparr>"

definition TextMessage_setValue :: "bytes \<Rightarrow> TextMessage \<Rightarrow> TextMessage" where
  "TextMessage_setValue value m = m\<lparr>tm_value := value\<rparr>"

text \<open>\<^verbatim>\<open>getId(uint16_t&)\<close> overwrites its argument, or leaves it as it was.\<close>

definition TextMessage_getId :: "TextMessage \<Rightarrow> u16 \<Rightarrow> u16" where
  "TextMessage_getId m i = from_chars_u16 (tm_id m) i"

definition TextMessage_setId :: "u16 \<Rightarrow> TextMessage \<Rightarrow> TextMessage" where
  "TextMessage_setId i m = m\<lparr>tm_id := to_string_nat (unat i)\<rparr>"

definition TextMessage_setId_string :: "bytes \<Rightarrow> TextMessage \<Rightarrow> TextMessage" where
  "TextMessage_setId_string s m = m\<lparr>tm_id := s\<rparr>"

section \<open>Decimal round trip\<close>

lemma unat_digit: "d < 10 \<Longrightarrow> unat (48 + of_nat d :: u8) = 48 + d"
  by (simp add: unat_word_ariths unat_of_nat)

lemma isdigit_digit: "d < 10 \<Longrightarrow> isdigit (48 + of_nat d)"
  by (simp add: isdigit_def word_le_nat_alt unat_digit)

lemma to_string_nat_digits: "\<forall>c \<in> set (to_string_nat n). isdigit c"
proof (induction n rule: to_string_nat.induct)
  case (1 n)
  then show ?case by (subst to_string_nat.simps) (auto simp: isdigit_digit)
qed

lemma to_string_nat_nonempty [simp]: "to_string_nat n \<noteq> []"
  by (subst to_string_nat.simps) simp

lemma digits_value_to_string: "digits_value 0 (to_string_nat n) = n"
proof (induction n rule: to_string_nat.induct)
  case (1 n)
  then show ?case
    by (subst to_string_nat.simps) (auto simp: digits_value_def unat_digit)
qed

lemma isdigit_nonzero: "isdigit c \<Longrightarrow> c \<noteq> 0"
  by (auto simp: isdigit_def)

lemma takeWhile_all: "\<forall>x \<in> set xs. P x \<Longrightarrow> takeWhile P xs = xs"
  by (induction xs) auto

lemma from_chars_to_string:
  "n < 65536 \<Longrightarrow> from_chars_u16 (to_string_nat n) old = of_nat n"
  by (simp add: from_chars_u16_def takeWhile_all [OF to_string_nat_digits] digits_value_to_string)

lemma TextMessage_id_roundtrip: "TextMessage_getId (TextMessage_setId i m) old = i"
  using unsigned_less [of i, where 'a = nat]
  by (simp add: TextMessage_getId_def TextMessage_setId_def from_chars_to_string)

end
