(* ===== verification/Serializer.thy ===== *)
theory Serializer
  imports Streamer Message
begin

text \<open>
  The binary \<^verbatim>\<open>Serializer\<close> and \<^verbatim>\<open>Deserializer\<close> (\<^verbatim>\<open>src/src/bmRPCSerializer.h\<close>). Both are resumable:
  each call of \<^verbatim>\<open>send\<close> or \<^verbatim>\<open>receive\<close> moves what the streamer can take or offer and remembers its
  phase. A message pointer is the message it points to, \<open>None\<close> the null pointer; \<open>m_p\<close> is the array
  the pointer is into, \<open>m_i\<close> the position in it.

  \<open>wire\<close> is the layout of a message on the link. In \<open>context byte_link\<close>, over any driver with
  the laws of \<open>data_link\<close>, a \<open>send\<close> moves a prefix of what is left of the layout to the stream, and a
  \<open>receive\<close> is a run of a byte-at-a-time automaton over the bytes available, however they arrive.
\<close>

section \<open>Serializer\<close>

datatype BTxPhase = BTX_IDLE | BTX_ID | BTX_NAME | BTX_SIZE | BTX_ARGS_VALUE | BTX_END

record BinSerializer =
  bs_pmsg :: "BinMessage option"
  bs_p :: bytes
  bs_i :: size_t
  bs_len :: size_t
  bs_size :: size_t
  bs_id :: u16
  bs_phase :: BTxPhase

definition BinSerializer_new :: BinSerializer where
  "BinSerializer_new =
     \<lparr>bs_pmsg = None, bs_p = [], bs_i = 0, bs_len = 0, bs_size = 0, bs_id = 0, bs_phase = BTX_IDLE\<rparr>"

definition BinSerializer_init :: "BinMessage option \<Rightarrow> BinSerializer \<Rightarrow> BinSerializer" where
  "BinSerializer_init pmsg ser =
     (case pmsg of
        None \<Rightarrow> ser
      | Some m \<Rightarrow>
          ser\<lparr>bs_pmsg := Some m, bs_id := bm_id m, bs_len := 2, bs_p := bytes_of 2 (bm_id m),
              bs_i := 0, bs_phase := BTX_ID\<rparr>)"

text \<open>What each of the four phases does: one write, then the next phase or a shorter rest.\<close>

definition bs_put :: "(u8, 'c) comm \<Rightarrow> BinSerializer \<Rightarrow> (u8, 'c) Streamer \<Rightarrow>
    (BinSerializer \<Rightarrow> BinSerializer option) \<Rightarrow> (BinSerializer \<times> (u8, 'c) Streamer) option" where
  "bs_put C ser s nxt =
     do {
       (count, s) \<leftarrow> Streamer_write C s (drop (unat (bs_i ser)) (bs_p ser)) (bs_len ser);
       ser \<leftarrow> (if count \<ge> bs_len ser then nxt ser
               else Some (ser\<lparr>bs_i := bs_i ser + count, bs_len := bs_len ser - count\<rparr>));
       Some (ser, s)
     }"

text \<open>The updates when a phase is complete; each reads the message through the pointer.\<close>

definition bs_to_name :: "BinSerializer \<Rightarrow> BinSerializer option" where
  "bs_to_name ser =
     do {
       m \<leftarrow> bs_pmsg ser;
       Some (ser\<lparr>bs_len := of_nat (length (bm_name m)) + 1, bs_p := c_str (bm_name m), bs_i := 0,
                 bs_phase := BTX_NAME\<rparr>)
     }"

definition bs_to_size :: "BinSerializer \<Rightarrow> BinSerializer option" where
  "bs_to_size ser =
     do {
       m \<leftarrow> bs_pmsg ser;
       let sz = BinMessage_getSize m;
       Some (ser\<lparr>bs_size := sz, bs_len := 8, bs_p := bytes_of 8 sz, bs_i := 0, bs_phase := BTX_SIZE\<rparr>)
     }"

definition bs_to_value :: "BinSerializer \<Rightarrow> BinSerializer option" where
  "bs_to_value ser =
     do {
       m \<leftarrow> bs_pmsg ser;
       let ser = ser\<lparr>bs_len := of_nat (length (bm_value m))\<rparr>;
       if bs_len ser > 0
       then Some (ser\<lparr>bs_p := bm_value m, bs_i := 0, bs_phase := BTX_ARGS_VALUE\<rparr>)
       else Some (ser\<lparr>bs_phase := BTX_END\<rparr>)
     }"

definition bs_to_end :: "BinSerializer \<Rightarrow> BinSerializer option" where
  "bs_to_end ser = Some (ser\<lparr>bs_phase := BTX_END\<rparr>)"

definition BinSerializer_send :: "(u8, 'c) comm \<Rightarrow> BinSerializer \<Rightarrow> (u8, 'c) Streamer \<Rightarrow>
    (bool \<times> BinSerializer \<times> (u8, 'c) Streamer) option" where
  "BinSerializer_send C ser s =
     do {
       (ser, s) \<leftarrow>
         (case bs_phase ser of
            BTX_IDLE \<Rightarrow> Some (ser, s)
          | BTX_END \<Rightarrow> Some (ser, s)
          | BTX_ID \<Rightarrow> bs_put C ser s bs_to_name
          | BTX_NAME \<Rightarrow> bs_put C ser s bs_to_size
          | BTX_SIZE \<Rightarrow> bs_put C ser s bs_to_value
          | BTX_ARGS_VALUE \<Rightarrow> bs_put C ser s bs_to_end);
       if bs_phase ser = BTX_END then Some (True, ser\<lparr>bs_phase := BTX_IDLE\<rparr>, s)
       else Some (False, ser, s)
     }"

section \<open>Deserializer\<close>

datatype BRxPhase = BRX_IDLE | BRX_ID | BRX_NAME | BRX_SIZE | BRX_ARGS_VALUE | BRX_END

record BinDeserializer =
  bd_pmsg :: "BinMessage option"
  bd_s :: bytes
  bd_v :: bytes
  bd_len :: size_t
  bd_size :: size_t
  bd_phase :: BRxPhase

definition BinDeserializer_new :: BinDeserializer where
  "BinDeserializer_new =
     \<lparr>bd_pmsg = None, bd_s = [], bd_v = [], bd_len = 0, bd_size = 0, bd_phase = BRX_IDLE\<rparr>"

definition BinDeserializer_init :: "BinMessage option \<Rightarrow> BinDeserializer \<Rightarrow> BinDeserializer" where
  "BinDeserializer_init pmsg d =
     (case pmsg of
        None \<Rightarrow> d
      | Some m \<Rightarrow> d\<lparr>bd_pmsg := Some m, bd_len := 0, bd_s := [], bd_v := [], bd_phase := BRX_ID\<rparr>)"

text \<open>\<^verbatim>\<open>v.insert(v.end(), p, p + n)\<close>, a read of \<open>k\<close> bytes through a cast of \<^verbatim>\<open>v.data()\<close>, and the
  position of the first zero byte among \<open>n\<close>.\<close>

definition insert_end :: "bytes \<Rightarrow> bytes \<Rightarrow> size_t \<Rightarrow> bytes option" where
  "insert_end v p n = (if unat n \<le> length p then Some (v @ take (unat n) p) else None)"

definition load :: "nat \<Rightarrow> bytes \<Rightarrow> 'a::len word option" where
  "load k v = (if k \<le> length v then Some (word_of (take k v)) else None)"

definition find_zero :: "bytes \<Rightarrow> size_t \<Rightarrow> nat option" where
  "find_zero p n = find (\<lambda>i. p ! i = 0) [0..<unat n]"

text \<open>The four phases of the loop body; \<open>p\<close> is always \<^verbatim>\<open>&buffer[ix]\<close> when it is read.\<close>

type_synonym 'c bd_state = "BinDeserializer \<times> (u8, 'c) Streamer \<times> size_t"

definition bd_id :: "(u8, 'c) comm \<Rightarrow> BinDeserializer \<Rightarrow> (u8, 'c) Streamer \<Rightarrow> bytes \<Rightarrow> size_t \<Rightarrow> 'c bd_state option" where
  "bd_id C d s p ix =
     (if bd_len d - ix + of_nat (length (bd_v d)) \<ge> 2
      then do {
        let n = 2 - of_nat (length (bd_v d));
        v \<leftarrow> insert_end (bd_v d) p n;
        m \<leftarrow> bd_pmsg d;
        i \<leftarrow> load 2 v;
        let d = d\<lparr>bd_pmsg := Some (BinMessage_setId i m), bd_phase := BRX_NAME\<rparr>;
        (_, s) \<leftarrow> consume_read C s n;
        Some (d\<lparr>bd_v := []\<rparr>, s, ix + n)
      }
      else do {
        v \<leftarrow> insert_end (bd_v d) p (bd_len d - ix);
        (_, s) \<leftarrow> consume_read C s (bd_len d - ix);
        Some (d\<lparr>bd_v := v\<rparr>, s, bd_len d)
      })"

definition bd_name :: "(u8, 'c) comm \<Rightarrow> BinDeserializer \<Rightarrow> (u8, 'c) Streamer \<Rightarrow> bytes \<Rightarrow> size_t \<Rightarrow> 'c bd_state option" where
  "bd_name C d s p ix =
     (case find_zero p (bd_len d - ix) of
        Some i \<Rightarrow> do {
          x \<leftarrow> string_at p;
          m \<leftarrow> bd_pmsg d;
          let d = d\<lparr>bd_s := bd_s d @ x, bd_pmsg := Some (BinMessage_setName (bd_s d @ x) m), bd_phase := BRX_SIZE\<rparr>;
          (_, s) \<leftarrow> consume_read C s (of_nat i + 1);
          Some (d, s, ix + (of_nat i + 1))
        }
      | None \<Rightarrow> do {
          x \<leftarrow> string_at p;
          (_, s) \<leftarrow> consume_read C s (bd_len d - ix);
          Some (d\<lparr>bd_s := bd_s d @ x\<rparr>, s, bd_len d)
        })"

definition bd_sz :: "(u8, 'c) comm \<Rightarrow> BinDeserializer \<Rightarrow> (u8, 'c) Streamer \<Rightarrow> bytes \<Rightarrow> size_t \<Rightarrow> 'c bd_state option" where
  "bd_sz C d s p ix =
     (if bd_len d - ix + of_nat (length (bd_v d)) \<ge> 8
      then do {
        let n = 8 - of_nat (length (bd_v d));
        v \<leftarrow> insert_end (bd_v d) p n;
        z \<leftarrow> load 8 v;
        (_, s) \<leftarrow> consume_read C s n;
        m \<leftarrow> bd_pmsg d;
        let d = d\<lparr>bd_v := v, bd_size := z, bd_pmsg := Some (BinMessage_resetValue m)\<rparr>;
        if bd_size d > 0
        then Some (d\<lparr>bd_phase := BRX_ARGS_VALUE\<rparr>, s, ix + n)
        else Some (d\<lparr>bd_phase := BRX_END\<rparr>, s, bd_len d)
      }
      else do {
        v \<leftarrow> insert_end (bd_v d) p (bd_len d - ix);
        (_, s) \<leftarrow> consume_read C s (bd_len d - ix);
        Some (d\<lparr>bd_v := v\<rparr>, s, bd_len d)
      })"

definition bd_value :: "(u8, 'c) comm \<Rightarrow> BinDeserializer \<Rightarrow> (u8, 'c) Streamer \<Rightarrow> bytes \<Rightarrow> size_t \<Rightarrow> 'c bd_state option" where
  "bd_value C d s p ix =
     do {
       m \<leftarrow> bd_pmsg d;
       if bd_len d - ix + BinMessage_getSize m \<ge> bd_size d
       then do {
         let n = bd_size d - BinMessage_getSize m;
         m \<leftarrow> BinMessage_writeValue p n m;
         (_, s) \<leftarrow> consume_read C s n;
         Some (d\<lparr>bd_pmsg := Some m, bd_phase := BRX_END\<rparr>, s, bd_len d)
       }
       else do {
         m \<leftarrow> BinMessage_writeValue p (bd_len d - ix) m;
         (_, s) \<leftarrow> consume_read C s (bd_len d - ix);
         Some (d\<lparr>bd_pmsg := Some m\<rparr>, s, bd_len d)
       }
     }"

definition bd_step :: "(u8, 'c) comm \<Rightarrow> BinDeserializer \<Rightarrow> (u8, 'c) Streamer \<Rightarrow> bytes \<Rightarrow> size_t \<Rightarrow> 'c bd_state option" where
  "bd_step C d s buffer ix =
     (case bd_phase d of
        BRX_IDLE \<Rightarrow> Some (d, s, ix)
      | BRX_END \<Rightarrow> Some (d, s, ix)
      | BRX_ID \<Rightarrow> bd_id C d s (drop (unat ix) buffer) ix
      | BRX_NAME \<Rightarrow> bd_name C d s (drop (unat ix) buffer) ix
      | BRX_SIZE \<Rightarrow> bd_sz C d s (drop (unat ix) buffer) ix
      | BRX_ARGS_VALUE \<Rightarrow> bd_value C d s (drop (unat ix) buffer) ix)"

partial_function (option) bd_loop :: "(u8, 'c) comm \<Rightarrow> BinDeserializer \<Rightarrow> (u8, 'c) Streamer \<Rightarrow> bytes \<Rightarrow> size_t \<Rightarrow> (BinDeserializer \<times> (u8, 'c) Streamer) option" where
  "bd_loop C d s buffer ix =
     (if ix < bd_len d
      then do { (d, s, ix) \<leftarrow> bd_step C d s buffer ix; bd_loop C d s buffer ix }
      else Some (d, s))"

text \<open>The local array is overwritten by \<^verbatim>\<open>try_read\<close> up to its last element, which is set to zero.\<close>

definition BinDeserializer_receive :: "(u8, 'c) comm \<Rightarrow> BinDeserializer \<Rightarrow> (u8, 'c) Streamer \<Rightarrow>
    (bool \<times> BinDeserializer \<times> (u8, 'c) Streamer) option" where
  "BinDeserializer_receive C d s =
     (if bd_phase d \<noteq> BRX_IDLE \<and> bd_phase d \<noteq> BRX_END
      then do {
        (n, s) \<leftarrow> rx_size C s;
        let d = d\<lparr>bd_len := n\<rparr>;
        if bd_len d \<le> 0 then Some (False, d, s)
        else do {
          (_, buffer, s) \<leftarrow> try_read C s (replicate (unat (bd_len d) + 1) 0) (bd_len d);
          let buffer = buffer[unat (bd_len d) := 0];
          (d, s) \<leftarrow> bd_loop C d s buffer 0;
          if bd_phase d = BRX_END then Some (True, d\<lparr>bd_phase := BRX_IDLE\<rparr>, s)
          else Some (False, d, s)
        }
      }
      else Some (False, d, s))"

section \<open>The layout on the link\<close>

definition wire :: "BinMessage \<Rightarrow> bytes" where
  "wire m = bytes_of 2 (bm_id m) @ c_str (bm_name m) @ bytes_of 8 (BinMessage_getSize m) @ bm_value m"

text \<open>Messages whose name is a C string and whose sizes fit the address space.\<close>

definition msg_ok :: "BinMessage \<Rightarrow> bool" where
  "msg_ok m \<longleftrightarrow> 0 \<notin> set (bm_name m) \<and> length (bm_name m) < 2 ^ 63 \<and> length (bm_value m) < 2 ^ 63"

lemma msg_ok_getSize: "msg_ok m \<Longrightarrow> unat (BinMessage_getSize m) = length (bm_value m)"
  by (simp add: msg_ok_def BinMessage_getSize_def unat_of_nat_small)

lemma wire_nonempty [simp]: "wire m \<noteq> []"
  by (simp add: wire_def)

section \<open>Sending\<close>

text \<open>What is left to write of the current piece, and of the whole message.\<close>

definition bs_chunk :: "BinSerializer \<Rightarrow> bytes" where
  "bs_chunk ser = drop (unat (bs_i ser)) (bs_p ser)"

definition bs_todo :: "BinSerializer \<Rightarrow> bytes" where
  "bs_todo ser =
     (case bs_pmsg ser of
        None \<Rightarrow> []
      | Some m \<Rightarrow>
          (case bs_phase ser of
             BTX_ID \<Rightarrow> bs_chunk ser @ c_str (bm_name m) @ bytes_of 8 (BinMessage_getSize m) @ bm_value m
           | BTX_NAME \<Rightarrow> bs_chunk ser @ bytes_of 8 (BinMessage_getSize m) @ bm_value m
           | BTX_SIZE \<Rightarrow> bs_chunk ser @ bm_value m
           | BTX_ARGS_VALUE \<Rightarrow> bs_chunk ser
           | _ \<Rightarrow> []))"

definition bs_active :: "BinSerializer \<Rightarrow> bool" where
  "bs_active ser \<longleftrightarrow> bs_phase ser \<noteq> BTX_IDLE \<and> bs_phase ser \<noteq> BTX_END \<and>
     (\<exists>m. bs_pmsg ser = Some m \<and> msg_ok m) \<and> bs_len ser > 0 \<and>
     unat (bs_i ser) + unat (bs_len ser) = length (bs_p ser) \<and> length (bs_p ser) \<le> 2 ^ 63"

lemma bs_activeD:
  assumes "bs_active ser"
  shows "bs_chunk ser \<noteq> []" and "length (bs_chunk ser) = unat (bs_len ser)"
    and "unat (bs_len ser) \<le> length (drop (unat (bs_i ser)) (bs_p ser))"
proof -
  from assms have "0 < unat (bs_len ser)" "unat (bs_i ser) + unat (bs_len ser) = length (bs_p ser)"
    by (simp_all add: bs_active_def word_gt_0 unat_gt_0)
  then show "bs_chunk ser \<noteq> []" "length (bs_chunk ser) = unat (bs_len ser)"
      "unat (bs_len ser) \<le> length (drop (unat (bs_i ser)) (bs_p ser))"
    by (auto simp: bs_chunk_def)
qed

lemma init_active: "msg_ok m \<Longrightarrow> bs_active (BinSerializer_init (Some m) ser) \<and> bs_todo (BinSerializer_init (Some m) ser) = wire m"
  by (simp add: BinSerializer_init_def bs_active_def bs_todo_def bs_chunk_def wire_def)

text \<open>Completing a piece leaves the rest of the message.\<close>

definition bs_rest :: "BinSerializer \<Rightarrow> BinMessage \<Rightarrow> BinSerializer \<Rightarrow> bool" where
  "bs_rest ser m t \<longleftrightarrow> bs_pmsg t = Some m \<and> bs_todo ser = bs_chunk ser @ bs_todo t"

lemma bs_to_name_ok:
  assumes "msg_ok m" and "bs_pmsg ser = Some m" and "bs_phase ser = BTX_ID"
  shows "\<exists>t. bs_to_name ser = Some t \<and> bs_active t \<and> bs_rest ser m t"
proof -
  have n: "unat (of_nat (length (bm_name m)) + 1 :: size_t) = length (bm_name m) + 1"
    using assms(1) unat_of_nat_small [of "Suc (length (bm_name m))"] by (simp add: msg_ok_def add.commute)
  moreover have "length (bm_name m) < 2 ^ 63" using assms(1) by (simp add: msg_ok_def)
  moreover have "of_nat (length (bm_name m)) + 1 \<noteq> (0 :: size_t)" using n by (metis add_is_0 one_neq_zero unat_0)
  ultimately show ?thesis
    using assms by (simp add: bs_to_name_def bs_active_def bs_rest_def bs_todo_def bs_chunk_def c_str_def word_gt_0)
qed

lemma bs_to_size_ok:
  assumes "msg_ok m" and "bs_pmsg ser = Some m" and "bs_phase ser = BTX_NAME"
  shows "\<exists>t. bs_to_size ser = Some t \<and> bs_active t \<and> bs_rest ser m t"
  using assms by (simp add: bs_to_size_def bs_active_def bs_rest_def bs_todo_def bs_chunk_def Let_def)

lemma bs_to_value_ok:
  assumes "msg_ok m" and "bs_pmsg ser = Some m" and "bs_phase ser = BTX_SIZE"
  shows "\<exists>t. bs_to_value ser = Some t \<and> (bs_active t \<or> bs_phase t = BTX_END) \<and> bs_rest ser m t"
proof (cases "bm_value m = []")
  case True
  with assms show ?thesis by (simp add: bs_to_value_def bs_rest_def bs_todo_def)
next
  case False
  have n: "unat (of_nat (length (bm_value m)) :: size_t) = length (bm_value m)"
    using assms(1) unat_of_nat_small [of "length (bm_value m)"] by (simp add: msg_ok_def)
  with False have "(of_nat (length (bm_value m)) :: size_t) \<noteq> 0" by (metis length_0_conv unat_0)
  with n assms show ?thesis
    by (simp add: bs_to_value_def bs_active_def bs_rest_def bs_todo_def bs_chunk_def word_gt_0) (simp add: msg_ok_def)
qed

lemma bs_to_end_ok:
  assumes "bs_pmsg ser = Some m" and "bs_phase ser = BTX_ARGS_VALUE"
  shows "\<exists>t. bs_to_end ser = Some t \<and> (bs_active t \<or> bs_phase t = BTX_END) \<and> bs_rest ser m t"
  using assms by (simp add: bs_to_end_def bs_rest_def bs_todo_def)

locale byte_link = data_link C com_ok inq outq
  for C :: "(u8, 'c) comm" and com_ok :: "'c \<Rightarrow> bool" and inq outq :: "'c \<Rightarrow> bytes"
begin

text \<open>\<open>n\<close> bytes of what was left of the message are now in the stream.\<close>

definition sent :: "(u8, 'c) Streamer \<Rightarrow> (u8, 'c) Streamer \<Rightarrow> bytes \<Rightarrow> bytes \<Rightarrow> bool" where
  "sent s s' todo todo' \<longleftrightarrow> Streamer_inv com_ok s' \<and> tx_frame s s' \<and>
     out_stream outq s' @ todo' = out_stream outq s @ todo \<and> length todo' \<le> length todo \<and>
     (tx_count s < 1024 \<longrightarrow> length todo' < length todo)"

lemma sent_append: "sent s s' a b \<Longrightarrow> sent s s' (a @ t) (b @ t)"
  by (auto simp: sent_def simp flip: append_assoc)

text \<open>Writing a piece \<open>p\<close> from position \<open>i\<close> on: all of the \<open>len\<close> bytes left, or a part of them.\<close>

lemma piece_write:
  assumes inv: "Streamer_inv com_ok s" and pos: "0 < len" and p: "unat i + unat len = length p" "length p \<le> 2 ^ 63"
  obtains (whole) n s' where "Streamer_write C s (drop (unat i) p) len = Some (n, s')" and "n \<ge> len" and "sent s s' (drop (unat i) p) []"
    | (part) n s' where "Streamer_write C s (drop (unat i) p) len = Some (n, s')" and "\<not> n \<ge> len" and "0 < len - n"
        and "unat (i + n) + unat (len - n) = length p" and "sent s s' (drop (unat i) p) (drop (unat (i + n)) p)"
proof -
  let ?c = "drop (unat i) p"
  have c: "length ?c = unat len" "0 < unat len" using p pos by (simp_all add: word_gt_0 unat_gt_0)
  then have c1: "unat len \<le> length ?c" by simp
  obtain n s' where w: "Streamer_write C s ?c len = Some (n, s')" "unat n = min (unat len) (1024 - tx_count s)" "Streamer_inv com_ok s'"
    "out_stream outq s' = out_stream outq s @ take (unat n) ?c" "tx_frame s s'"
    using Streamer_write_ok [OF inv c1 pos] by auto
  show thesis
  proof (cases "n \<ge> len")
    case True
    then have "take (unat n) ?c = ?c" using c by (simp add: word_le_nat_alt)
    with True w c show thesis by (intro whole [of n s']) (simp_all add: sent_def)
  next
    case False
    then have lt: "unat n < unat len" by (simp add: word_le_nat_alt)
    have i: "unat (i + n) = unat i + unat n" using lt p by (intro unat_add_small) simp
    have l: "unat (len - n) = unat len - unat n" using lt by (intro unat_diff_small) (simp add: word_le_nat_alt)
    then have "len - n \<noteq> 0" using lt by (metis diff_is_0_eq leD unat_0)
    moreover have d: "drop (unat (i + n)) p = drop (unat n) ?c" by (simp add: i add.commute)
    moreover have "tx_count s < 1024 \<Longrightarrow> 0 < unat n" using w(2) lt by simp
    then have "sent s s' ?c (drop (unat n) ?c)" using w(3-5) c lt by (simp add: sent_def del: drop_drop)
    ultimately show thesis using False w(1) i l lt p
      by (intro part [of n s']) (simp_all add: word_gt_0 del: drop_drop)
  qed
qed

lemma bs_put_ok:
  assumes inv: "Streamer_inv com_ok s" and act: "bs_active ser" and m: "bs_pmsg ser = Some m"
    and nxt: "\<exists>t. nxt ser = Some t \<and> Q t \<and> bs_rest ser m t"
    and tail: "\<And>i l. bs_todo (ser\<lparr>bs_i := i, bs_len := l\<rparr>) = drop (unat i) (bs_p ser) @ drop (length (bs_chunk ser)) (bs_todo ser)"
  obtains t s' where "bs_put C ser s nxt = Some (t, s')" and "bs_pmsg t = Some m" and "bs_active t \<or> Q t"
    and "sent s s' (bs_todo ser) (bs_todo t)"
proof -
  have a: "0 < bs_len ser" "unat (bs_i ser) + unat (bs_len ser) = length (bs_p ser)" "length (bs_p ser) \<le> 2 ^ 63"
    using act by (simp_all add: bs_active_def)
  obtain t0 where t0: "nxt ser = Some t0" "Q t0" "bs_pmsg t0 = Some m" "bs_todo ser = bs_chunk ser @ bs_todo t0" using nxt by (auto simp: bs_rest_def)
  from inv a show thesis
  proof (cases rule: piece_write)
    case (whole n s')
    then have "sent s s' (bs_todo ser) (bs_todo t0)" using sent_append [OF whole(3), of "bs_todo t0"] t0(4) by (simp add: bs_chunk_def)
    with whole t0 show thesis by (intro that [of t0 s']) (simp_all add: bs_put_def)
  next
    case (part n s')
    let ?t = "ser\<lparr>bs_i := bs_i ser + n, bs_len := bs_len ser - n\<rparr>"
    have "bs_todo ?t = drop (unat (bs_i ser + n)) (bs_p ser) @ bs_todo t0" unfolding tail t0(4) by simp
    then have "sent s s' (bs_todo ser) (bs_todo ?t)" using sent_append [OF part(5), of "bs_todo t0"] t0(4) by (simp add: bs_chunk_def)
    moreover have "bs_active ?t" using act part(3,4) by (simp add: bs_active_def)
    ultimately show thesis using part(1,2) m by (intro that [of ?t s']) (simp_all add: bs_put_def)
  qed
qed

lemma send_ok:
  assumes inv: "Streamer_inv com_ok s" and act: "bs_active ser"
  obtains b t s' where "BinSerializer_send C ser s = Some (b, t, s')" and "bs_pmsg t = bs_pmsg ser"
    and "if b then bs_phase t = BTX_IDLE \<and> bs_todo t = [] else bs_active t" and "sent s s' (bs_todo ser) (bs_todo t)"
proof -
  obtain m where m: "bs_pmsg ser = Some m" "msg_ok m" using act by (auto simp: bs_active_def)
  define nxt where "nxt = (case bs_phase ser of BTX_ID \<Rightarrow> bs_to_name | BTX_NAME \<Rightarrow> bs_to_size | BTX_SIZE \<Rightarrow> bs_to_value | _ \<Rightarrow> bs_to_end)"
  let ?Q = "\<lambda>t. bs_active t \<or> bs_phase t = BTX_END"
  have N: "\<exists>t. nxt ser = Some t \<and> ?Q t \<and> bs_rest ser m t"
    using bs_to_name_ok [OF m(2,1)] bs_to_size_ok [OF m(2,1)] bs_to_value_ok [OF m(2,1)] bs_to_end_ok [OF m(1)] act
    by (cases "bs_phase ser") (auto simp: nxt_def bs_active_def)
  have T: "bs_todo (ser\<lparr>bs_i := i, bs_len := l\<rparr>) = drop (unat i) (bs_p ser) @ drop (length (bs_chunk ser)) (bs_todo ser)" for i l
    using m act by (cases "bs_phase ser") (auto simp: bs_todo_def bs_chunk_def bs_active_def)
  obtain t s' where p: "bs_put C ser s nxt = Some (t, s')" "bs_pmsg t = Some m" "?Q t"
      "sent s s' (bs_todo ser) (bs_todo t)"
    using bs_put_ok [where nxt = nxt and Q = ?Q, OF inv act m(1) N T] by blast
  have s: "BinSerializer_send C ser s =
      do { (ser, s) \<leftarrow> bs_put C ser s nxt; if bs_phase ser = BTX_END then Some (True, ser\<lparr>bs_phase := BTX_IDLE\<rparr>, s) else Some (False, ser, s) }"
    using act by (cases "bs_phase ser") (auto simp: BinSerializer_send_def nxt_def bs_active_def)
  show thesis
  proof (cases "bs_phase t = BTX_END")
    case True
    then have "bs_todo (t\<lparr>bs_phase := BTX_IDLE\<rparr>) = bs_todo t" by (simp add: bs_todo_def split: option.split)
    moreover have "bs_todo t = []" using True by (simp add: bs_todo_def split: option.split)
    ultimately show thesis using p True m by (intro that [of True "t\<lparr>bs_phase := BTX_IDLE\<rparr>" s']) (simp_all add: s)
  next
    case False
    with p m show thesis by (intro that [of False t s']) (auto simp: s)
  qed
qed

end

section \<open>The reference automaton\<close>

text \<open>The deserializer one byte at a time, and its run up to the end of a message: the state
  reached and the number of bytes used.\<close>

definition bd_byte :: "BinDeserializer \<Rightarrow> u8 \<Rightarrow> BinDeserializer" where
  "bd_byte d b =
     (case bd_phase d of
        BRX_ID \<Rightarrow>
          (let v = bd_v d @ [b]
           in if length v \<ge> 2
              then d\<lparr>bd_pmsg := map_option (BinMessage_setId (word_of v)) (bd_pmsg d), bd_phase := BRX_NAME, bd_v := []\<rparr>
              else d\<lparr>bd_v := v\<rparr>)
      | BRX_NAME \<Rightarrow>
          (if b = 0 then d\<lparr>bd_pmsg := map_option (BinMessage_setName (bd_s d)) (bd_pmsg d), bd_phase := BRX_SIZE\<rparr>
           else d\<lparr>bd_s := bd_s d @ [b]\<rparr>)
      | BRX_SIZE \<Rightarrow>
          (let v = bd_v d @ [b]
           in if length v \<ge> 8
              then d\<lparr>bd_v := v, bd_size := word_of v, bd_pmsg := map_option BinMessage_resetValue (bd_pmsg d),
                     bd_phase := (if (word_of v :: size_t) > 0 then BRX_ARGS_VALUE else BRX_END)\<rparr>
              else d\<lparr>bd_v := v\<rparr>)
      | BRX_ARGS_VALUE \<Rightarrow>
          (case bd_pmsg d of
             None \<Rightarrow> d
           | Some m \<Rightarrow>
               d\<lparr>bd_pmsg := Some (m\<lparr>bm_value := bm_value m @ [b]\<rparr>),
                 bd_phase := (if unat (bd_size d) \<le> Suc (length (bm_value m)) then BRX_END else BRX_ARGS_VALUE)\<rparr>)
      | _ \<Rightarrow> d)"

fun bd_run :: "BinDeserializer \<Rightarrow> bytes \<Rightarrow> BinDeserializer \<times> nat" where
  "bd_run d [] = (d, 0)"
| "bd_run d (b # bs) =
     (let d = bd_byte d b
      in if bd_phase d = BRX_END then (d, 1) else (let (d, n) = bd_run d bs in (d, Suc n)))"

lemma bd_run_bound: "snd (bd_run d bs) \<le> length bs"
  by (induction d bs rule: bd_run.induct) (auto simp: Let_def split: prod.splits)

lemma bd_run_append:
  "bd_run d (xs @ ys) =
     (let (d', n) = bd_run d xs
      in if bd_phase d' = BRX_END \<and> xs \<noteq> [] then (d', n) else (let (d'', k) = bd_run d' ys in (d'', n + k)))"
proof (induction d xs rule: bd_run.induct)
  case (2 d b bs)
  then show ?case by (cases bs) (auto simp: Let_def split: prod.splits)
qed (simp split: prod.split)

lemma bd_run_all: "bd_run d bs = (d', n) \<Longrightarrow> bd_phase d' \<noteq> BRX_END \<Longrightarrow> n = length bs"
  by (induction d bs arbitrary: n rule: bd_run.induct) (auto simp: Let_def split: prod.splits if_splits)

lemma bd_run_used: "bd_run d bs = (d', n) \<Longrightarrow> bd_run d (take n bs @ cs) = (d', n) \<or> bd_phase d' \<noteq> BRX_END \<or> bs = []"
proof (induction d bs arbitrary: n rule: bd_run.induct)
  case (2 d b bs)
  then show ?case by (cases bs) (auto simp: Let_def split: prod.splits if_splits)
qed simp

lemma bd_byte_len: "bd_byte (d\<lparr>bd_len := l\<rparr>) b = bd_byte d b\<lparr>bd_len := l\<rparr>"
  by (cases "bd_phase d") (auto simp: bd_byte_def Let_def split: option.split)

lemma bd_run_len: "bd_run (d\<lparr>bd_len := l\<rparr>) bs = (let (d', n) = bd_run d bs in (d'\<lparr>bd_len := l\<rparr>, n))"
  by (induction d bs rule: bd_run.induct) (auto simp: Let_def bd_byte_len split: prod.split)

lemma bd_run_bd_len: "bd_len (fst (bd_run d bs)) = bd_len d"
proof (induction d bs rule: bd_run.induct)
  case (2 d b bs)
  have "bd_len (bd_byte d b) = bd_len d"
    by (cases "bd_phase d") (auto simp: bd_byte_def Let_def split: option.split)
  with 2 show ?case by (auto simp: Let_def split: prod.split)
qed simp

text \<open>Runs within a phase, and to the end of it.\<close>

lemma bd_run_id_more:
  "bd_phase d = BRX_ID \<Longrightarrow> length (bd_v d) + length bs < 2 \<Longrightarrow> bd_run d bs = (d\<lparr>bd_v := bd_v d @ bs\<rparr>, length bs)"
  by (induction bs arbitrary: d) (auto simp: bd_byte_def Let_def)

lemma bd_run_id_done:
  assumes "bd_phase d = BRX_ID" and "length (bd_v d) + length bs = 2" and "bs \<noteq> []"
  shows "bd_run d bs = (d\<lparr>bd_pmsg := map_option (BinMessage_setId (word_of (bd_v d @ bs))) (bd_pmsg d),
                    bd_phase := BRX_NAME, bd_v := []\<rparr>, length bs)"
proof (cases bs rule: rev_cases)
  case (snoc xs b)
  with assms show ?thesis using bd_run_id_more [of d xs] by (simp add: bd_run_append bd_byte_def Let_def)
qed (use assms in simp)

lemma bd_run_name_more:
  "bd_phase d = BRX_NAME \<Longrightarrow> 0 \<notin> set bs \<Longrightarrow> bd_run d bs = (d\<lparr>bd_s := bd_s d @ bs\<rparr>, length bs)"
  by (induction bs arbitrary: d) (auto simp: bd_byte_def)

lemma bd_run_name_done:
  "bd_phase d = BRX_NAME \<Longrightarrow> 0 \<notin> set bs \<Longrightarrow>
   bd_run d (bs @ [0]) = (d\<lparr>bd_s := bd_s d @ bs, bd_pmsg := map_option (BinMessage_setName (bd_s d @ bs)) (bd_pmsg d),
                    bd_phase := BRX_SIZE\<rparr>, Suc (length bs))"
  by (induction bs arbitrary: d) (auto simp: bd_byte_def)

lemma bd_run_size_more:
  "bd_phase d = BRX_SIZE \<Longrightarrow> length (bd_v d) + length bs < 8 \<Longrightarrow> bd_run d bs = (d\<lparr>bd_v := bd_v d @ bs\<rparr>, length bs)"
  by (induction bs arbitrary: d) (auto simp: bd_byte_def Let_def)

lemma bd_run_size_done:
  assumes "bd_phase d = BRX_SIZE" and "length (bd_v d) + length bs = 8" and "bs \<noteq> []"
  shows "bd_run d bs = (d\<lparr>bd_v := bd_v d @ bs, bd_size := word_of (bd_v d @ bs), bd_pmsg := map_option BinMessage_resetValue (bd_pmsg d),
                    bd_phase := (if (word_of (bd_v d @ bs) :: size_t) > 0 then BRX_ARGS_VALUE else BRX_END)\<rparr>, length bs)"
proof (cases bs rule: rev_cases)
  case (snoc xs b)
  with assms show ?thesis using bd_run_size_more [of d xs] by (simp add: bd_run_append bd_byte_def Let_def)
qed (use assms in simp)

lemma bd_run_value_more:
  "bd_phase d = BRX_ARGS_VALUE \<Longrightarrow> bd_pmsg d = Some m \<Longrightarrow> length (bm_value m) + length bs < unat (bd_size d) \<Longrightarrow>
   bd_run d bs = (d\<lparr>bd_pmsg := Some (m\<lparr>bm_value := bm_value m @ bs\<rparr>)\<rparr>, length bs)"
proof (induction bs arbitrary: d m)
  case (Cons b bs)
  then show ?case by (auto simp: bd_byte_def)
qed simp

lemma bd_run_value_done:
  assumes "bd_phase d = BRX_ARGS_VALUE" and "bd_pmsg d = Some m" and "length (bm_value m) + length bs = unat (bd_size d)" and "bs \<noteq> []"
  shows "bd_run d bs = (d\<lparr>bd_pmsg := Some (m\<lparr>bm_value := bm_value m @ bs\<rparr>), bd_phase := BRX_END\<rparr>, length bs)"
proof (cases bs rule: rev_cases)
  case (snoc xs b)
  with assms show ?thesis using bd_run_value_more [of d m xs] by (simp add: bd_run_append bd_byte_def Let_def)
qed (use assms in simp)

text \<open>The automaton reads back the layout of a message.\<close>

lemma bd_run_wire_value:
  assumes "msg_ok m" and "bd_phase d = BRX_SIZE" and "bd_v d = []" and "bd_pmsg d = Some m0"
  obtains d' where "bd_run d (bytes_of 8 (BinMessage_getSize m) @ bm_value m @ rest) = (d', 8 + length (bm_value m))"
    and "bd_phase d' = BRX_END" and "bd_pmsg d' = Some (m0\<lparr>bm_value := bm_value m\<rparr>)"
proof -
  let ?z = "BinMessage_getSize m"
  have z: "unat ?z = length (bm_value m)" using assms(1) by (rule msg_ok_getSize)
  then have z0: "?z > 0 \<longleftrightarrow> bm_value m \<noteq> []" by (metis length_0_conv unat_0 unat_eq_zero word_gt_0)
  let ?d = "d\<lparr>bd_v := bytes_of 8 ?z, bd_size := ?z, bd_pmsg := Some (m0\<lparr>bm_value := []\<rparr>),
               bd_phase := (if ?z > 0 then BRX_ARGS_VALUE else BRX_END)\<rparr>"
  have r: "bd_run d (bytes_of 8 ?z) = (?d, 8)"
    using bd_run_size_done [of d "bytes_of 8 ?z"] assms by (simp add: BinMessage_resetValue_def)
  show thesis
  proof (cases "bm_value m = []")
    case True
    with r z0 show thesis by (intro that [of ?d]) (simp_all add: bd_run_append)
  next
    case False
    then have "bd_run ?d (bm_value m) = (?d\<lparr>bd_pmsg := Some (m0\<lparr>bm_value := bm_value m\<rparr>), bd_phase := BRX_END\<rparr>, length (bm_value m))"
      using z z0 by (subst bd_run_value_done [of _ "m0\<lparr>bm_value := []\<rparr>"]) simp_all
    with r False z0 show thesis
      by (intro that [of "?d\<lparr>bd_pmsg := Some (m0\<lparr>bm_value := bm_value m\<rparr>), bd_phase := BRX_END\<rparr>"]) (simp_all add: bd_run_append)
  qed
qed

text \<open>A deserializer that has seen nothing of its message.\<close>

definition bd_start :: "BinDeserializer \<Rightarrow> bool" where
  "bd_start d \<longleftrightarrow> bd_phase d = BRX_ID \<and> bd_v d = [] \<and> bd_s d = [] \<and> (\<exists>m. bd_pmsg d = Some m)"

lemma bd_start_init [simp]: "bd_start (BinDeserializer_init (Some m) d)"
  by (simp add: bd_start_def BinDeserializer_init_def)

lemma bd_start_len [simp]: "bd_start (d\<lparr>bd_len := l\<rparr>) = bd_start d"
  by (simp add: bd_start_def)

lemma bd_run_wire:
  assumes m: "msg_ok m" and d: "bd_start d"
  obtains d' where "bd_run d (wire m @ rest) = (d', length (wire m))"
    and "bd_phase d' = BRX_END" and "bd_pmsg d' = Some m"
proof -
  obtain m0 where m0: "bd_pmsg d = Some m0" using d by (auto simp: bd_start_def)
  let ?d1 = "d\<lparr>bd_pmsg := Some (m0\<lparr>bm_id := bm_id m\<rparr>), bd_phase := BRX_NAME\<rparr>"
  let ?d2 = "?d1\<lparr>bd_s := bm_name m, bd_pmsg := Some (m0\<lparr>bm_id := bm_id m, bm_name := bm_name m\<rparr>), bd_phase := BRX_SIZE\<rparr>"
  have 1: "bd_run d (bytes_of 2 (bm_id m)) = (?d1, 2)"
    using d m0 by (subst bd_run_id_done) (simp_all add: bd_start_def BinMessage_setId_def)
  have 2: "bd_run ?d1 (c_str (bm_name m)) = (?d2, length (c_str (bm_name m)))"
    unfolding c_str_def using m d
    by (subst bd_run_name_done) (simp_all add: bd_start_def BinMessage_setName_def msg_ok_def)
  obtain d' where 3: "bd_run ?d2 (bytes_of 8 (BinMessage_getSize m) @ bm_value m @ rest) = (d', 8 + length (bm_value m))"
    "bd_phase d' = BRX_END" "bd_pmsg d' = Some (m0\<lparr>bm_id := bm_id m, bm_name := bm_name m, bm_value := bm_value m\<rparr>)"
    by (rule bd_run_wire_value [OF m, of ?d2 "m0\<lparr>bm_id := bm_id m, bm_name := bm_name m\<rparr>" rest])
      (use d in \<open>simp_all add: bd_start_def\<close>)
  have "bd_run ?d1 (c_str (bm_name m) @ bytes_of 8 (BinMessage_getSize m) @ bm_value m @ rest) =
      (d', length (c_str (bm_name m)) + (8 + length (bm_value m)))"
    unfolding bd_run_append [of ?d1] 2 Let_def prod.case 3 by simp
  then have "bd_run d (bytes_of 2 (bm_id m) @ c_str (bm_name m) @ bytes_of 8 (BinMessage_getSize m) @ bm_value m @ rest) =
      (d', 2 + (length (c_str (bm_name m)) + (8 + length (bm_value m))))"
    unfolding bd_run_append [of d] 1 by simp
  then have "bd_run d (wire m @ rest) = (d', length (wire m))" by (simp add: wire_def)
  moreover have "bd_pmsg d' = Some m"
    unfolding 3(3) by (rule arg_cong [where f = Some], rule BinMessage.equality) simp_all
  ultimately show thesis using 3(2) by (intro that)
qed

text \<open>The value only grows while it is received.\<close>

lemma bd_run_value_grows:
  "bd_phase d = BRX_ARGS_VALUE \<Longrightarrow> bd_pmsg d = Some m \<Longrightarrow>
   \<exists>m'. bd_pmsg (fst (bd_run d bs)) = Some m' \<and> length (bm_value m) \<le> length (bm_value m')"
proof (induction bs arbitrary: d m)
  case (Cons b bs)
  let ?m = "m\<lparr>bm_value := bm_value m @ [b]\<rparr>" and ?d = "bd_byte d b"
  have d: "?d = d\<lparr>bd_pmsg := Some ?m, bd_phase := (if unat (bd_size d) \<le> Suc (length (bm_value m)) then BRX_END else BRX_ARGS_VALUE)\<rparr>"
    using Cons.prems by (simp add: bd_byte_def)
  show ?case
  proof (cases "bd_phase ?d = BRX_END")
    case True
    with d Cons.prems show ?thesis by (simp add: Let_def)
  next
    case False
    with d have "bd_phase ?d = BRX_ARGS_VALUE" "bd_pmsg ?d = Some ?m" by (simp_all split: if_splits)
    from Cons.IH [OF this] False show ?thesis by (auto simp: Let_def split: prod.split)
  qed
qed simp

section \<open>Receiving\<close>

text \<open>States between two calls of \<^verbatim>\<open>receive\<close>, while a message is awaited.\<close>

definition bd_ok :: "BinDeserializer \<Rightarrow> bool" where
  "bd_ok d \<longleftrightarrow> (\<exists>m. bd_pmsg d = Some m \<and>
     (case bd_phase d of
        BRX_ID \<Rightarrow> length (bd_v d) < 2
      | BRX_NAME \<Rightarrow> bd_v d = []
      | BRX_SIZE \<Rightarrow> length (bd_v d) < 8
      | BRX_ARGS_VALUE \<Rightarrow> length (bm_value m) < unat (bd_size d)
      | _ \<Rightarrow> False))"

text \<open>There is room in the address space for \<open>l\<close> more bytes of the value.\<close>

definition bd_room :: "BinDeserializer \<Rightarrow> nat \<Rightarrow> bool" where
  "bd_room d l \<longleftrightarrow> (\<forall>m. bd_phase d = BRX_ARGS_VALUE \<longrightarrow> bd_pmsg d = Some m \<longrightarrow> length (bm_value m) + l < 2 ^ 64)"

lemma bd_ok_init: "bd_ok (BinDeserializer_init (Some m) d) \<and> bd_room (BinDeserializer_init (Some m) d) l"
  by (simp add: bd_ok_def bd_room_def BinDeserializer_init_def)

lemma bd_ok_len [simp]: "bd_ok (d\<lparr>bd_len := l\<rparr>) = bd_ok d"
  by (cases "bd_phase d") (simp_all add: bd_ok_def)

lemma bd_ok_phase: "bd_ok d \<Longrightarrow> bd_phase d \<noteq> BRX_IDLE \<and> bd_phase d \<noteq> BRX_END"
  by (auto simp: bd_ok_def)

lemma find_zero_cases:
  assumes "unat n \<le> length p"
  obtains (zero) i where "find_zero p n = Some i" and "i < unat n" and "take i p = takeWhile (\<lambda>b. b \<noteq> 0) p"
      and "0 \<notin> set (take i p)" and "take (Suc i) p = take i p @ [0]"
    | (none) "find_zero p n = None" and "0 \<notin> set (take (unat n) p)"
proof (cases "find_zero p n")
  case None
  then have "\<forall>i < unat n. p ! i \<noteq> 0" by (simp add: find_zero_def find_None_iff)
  with None assms show thesis by (intro none) (auto simp: in_set_conv_nth)
next
  case (Some i)
  then obtain j where j: "j < length [0..<unat n]" "p ! ([0..<unat n] ! j) = 0" "i = [0..<unat n] ! j"
      "\<forall>k < j. \<not> p ! ([0..<unat n] ! k) = 0"
    unfolding find_zero_def find_Some_iff by blast
  then have i: "i = j" "i < unat n" "p ! i = 0" "\<forall>k < i. p ! k \<noteq> 0" by auto
  with assms have "take i p = takeWhile (\<lambda>b. b \<noteq> 0) p" by (intro takeWhile_eq_take_P_nth [symmetric]) auto
  moreover have "0 \<notin> set (take i p)" using i assms by (auto simp: in_set_conv_nth)
  moreover have "take (Suc i) p = take i p @ [0]" using i assms by (simp add: take_Suc_conv_app_nth)
  ultimately show thesis using Some i by (intro zero)
qed

text \<open>The sizes compared in the phases of fixed length \<open>k\<close>, of which \<open>l\<close> bytes are already there.\<close>

lemma chunk_arith:
  assumes ix: "ix < (len :: size_t)" and len: "unat len \<le> 1024" and bs: "length bs = unat len - unat ix"
  shows "unat (len - ix) = length bs" and "0 < length bs" and "unat ix < 1024"
    and "l < k \<Longrightarrow> k \<le> 8 \<Longrightarrow> of_nat k \<le> len - ix + of_nat l \<longleftrightarrow> k \<le> length bs + l"
    and "l < k \<Longrightarrow> k \<le> 8 \<Longrightarrow> unat (of_nat k - of_nat l :: size_t) = k - l"
proof -
  show d: "unat (len - ix) = length bs" using ix bs by (simp add: unat_diff_small less_imp_le)
  show "0 < length bs" "unat ix < 1024" using ix bs len by (simp_all add: word_less_nat_alt)
  assume k: "l < k" "k \<le> 8"
  then have u: "unat (of_nat l :: size_t) = l" "unat (of_nat k :: size_t) = k" by (auto intro: unat_of_nat_small)
  then show "of_nat k \<le> len - ix + of_nat l \<longleftrightarrow> k \<le> length bs + l"
    using d k bs len by (simp add: word_le_nat_alt unat_add_small)
  show "unat (of_nat k - of_nat l :: size_t) = k - l"
    using u k by (simp add: unat_diff_small word_le_nat_alt)
qed

lemmas chunk_arith_2 = chunk_arith(4,5) [where k = 2, simplified]
lemmas chunk_arith_8 = chunk_arith(4,5) [where k = 8, simplified]

context byte_link
begin

lemma consume_prefix:
  assumes inv: "Streamer_inv com_ok s" and sz: "0 < unat sz" "unat sz \<le> length bs" and bs: "take (length bs) (rx_bytes s) = bs"
  obtains r s' where "consume_read C s sz = Some (r, s')" and "consumed s s' (unat sz)"
    and "take (length bs - unat sz) (rx_bytes s') = drop (unat sz) bs"
proof -
  have pos: "sz > 0" using sz(1) by (simp add: word_gt_0 unat_gt_0)
  obtain n s1 k s' where c: "consume_read C s sz = Some (n, s')" "received s s1 k"
    "unat n = min (unat sz) (rx_count s1)" "consumed s s' (unat n)" "rx_bytes s' = drop (unat n) (rx_bytes s1)"
    using consume_read_ok [OF inv pos] .
  from bs have "length bs \<le> rx_count s" by (metis length_rx_bytes length_take min.absorb_iff2 min.commute)
  moreover have r: "rx_bytes s1 = rx_bytes s @ take k (inq (m_com s))" using c(2) by (simp add: received_def)
  then have "rx_count s \<le> rx_count s1" by (metis length_append length_rx_bytes le_add1)
  ultimately have n: "unat n = unat sz" using c(3) sz by simp
  have "take (length bs) (rx_bytes s1) = bs" using bs \<open>length bs \<le> rx_count s\<close> by (simp add: r)
  then have "take (length bs - unat sz) (rx_bytes s') = drop (unat sz) bs"
    unfolding c(5) n by (metis drop_take)
  with c(1,4) n show thesis by (intro that) simp_all
qed

text \<open>One execution of the loop body uses \<open>n\<close> of the bytes \<open>bs\<close> that are left in the local array.\<close>

definition stepped :: "BinDeserializer \<Rightarrow> (u8, 'c) Streamer \<Rightarrow> bytes \<Rightarrow> size_t \<Rightarrow> 'c bd_state option \<Rightarrow> bool" where
  "stepped d s bs ix r \<longleftrightarrow>
     (\<exists>n d' s' ix'. r = Some (d', s', ix') \<and> 0 < n \<and> n \<le> length bs \<and> bd_run d (take n bs) = (d', n) \<and>
        consumed s s' n \<and> take (length bs - n) (rx_bytes s') = drop n bs \<and> bd_len d' = bd_len d \<and>
        (if bd_phase d' = BRX_END then ix' = bd_len d else unat ix' = unat ix + n \<and> bd_ok d' \<and> bd_room d' (length bs - n)))"

lemma steppedI:
  assumes "r = Some (d', s', ix')" and "0 < n" and "n \<le> length bs" and "bd_run d (take n bs) = (d', n)"
    and "consumed s s' n" and "take (length bs - n) (rx_bytes s') = drop n bs"
    and "bd_phase d' = BRX_END \<Longrightarrow> ix' = bd_len d"
    and "bd_phase d' \<noteq> BRX_END \<Longrightarrow> unat ix' = unat ix + n \<and> bd_ok d' \<and> bd_room d' (length bs - n)"
  shows "stepped d s bs ix r"
proof -
  have "bd_len d' = bd_len d" using bd_run_bd_len [of d "take n bs"] assms(4) by simp
  with assms show ?thesis unfolding stepped_def by (intro exI [of _ n] exI [of _ d'] exI [of _ s'] exI [of _ ix']) simp
qed

text \<open>What the loop has at hand when it enters a phase: the bytes left, followed by the zero.\<close>

definition bd_entry :: "BinDeserializer \<Rightarrow> (u8, 'c) Streamer \<Rightarrow> bytes \<Rightarrow> size_t \<Rightarrow> bool" where
  "bd_entry d s bs ix \<longleftrightarrow> Streamer_inv com_ok s \<and> bd_ok d \<and> bd_room d (length bs) \<and> ix < bd_len d \<and> unat (bd_len d) \<le> 1024 \<and>
     length bs = unat (bd_len d) - unat ix \<and> take (length bs) (rx_bytes s) = bs"

lemma bd_entryD:
  assumes "bd_entry d s bs ix"
  shows "unat (bd_len d - ix) = length bs" and "0 < length bs" and "unat ix < 1024" and "unat ix + length bs = unat (bd_len d)" and "length bs \<le> 1024"
    and "length (bd_v d) < 2 \<Longrightarrow> 2 \<le> bd_len d - ix + of_nat (length (bd_v d)) \<longleftrightarrow> 2 \<le> length bs + length (bd_v d)"
    and "length (bd_v d) < 2 \<Longrightarrow> unat (2 - of_nat (length (bd_v d)) :: size_t) = 2 - length (bd_v d)"
    and "length (bd_v d) < 8 \<Longrightarrow> 8 \<le> bd_len d - ix + of_nat (length (bd_v d)) \<longleftrightarrow> 8 \<le> length bs + length (bd_v d)"
    and "length (bd_v d) < 8 \<Longrightarrow> unat (8 - of_nat (length (bd_v d)) :: size_t) = 8 - length (bd_v d)"
proof -
  have "ix < bd_len d" "unat (bd_len d) \<le> 1024" "length bs = unat (bd_len d) - unat ix"
    using assms by (simp_all add: bd_entry_def)
  note a = chunk_arith(1-3) [OF this] and b = chunk_arith_2 [OF this] and c = chunk_arith_8 [OF this]
  show "unat (bd_len d - ix) = length bs" "0 < length bs" "unat ix < 1024" using a by simp_all
  show "unat ix + length bs = unat (bd_len d)" using a \<open>length bs = _\<close> by simp
  with \<open>unat (bd_len d) \<le> 1024\<close> show "length bs \<le> 1024" by simp
  show "length (bd_v d) < 2 \<Longrightarrow> 2 \<le> bd_len d - ix + of_nat (length (bd_v d)) \<longleftrightarrow> 2 \<le> length bs + length (bd_v d)"
    "length (bd_v d) < 2 \<Longrightarrow> unat (2 - of_nat (length (bd_v d)) :: size_t) = 2 - length (bd_v d)" using b by simp_all
  show "length (bd_v d) < 8 \<Longrightarrow> 8 \<le> bd_len d - ix + of_nat (length (bd_v d)) \<longleftrightarrow> 8 \<le> length bs + length (bd_v d)"
    "length (bd_v d) < 8 \<Longrightarrow> unat (8 - of_nat (length (bd_v d)) :: size_t) = 8 - length (bd_v d)" using c by simp_all
qed

text \<open>Using up \<open>n\<close> of the bytes, or all of them.\<close>

lemma bd_entry_consume:
  assumes e: "bd_entry d s bs ix" and n: "0 < unat n" "unat n \<le> length bs"
  obtains r s' where "consume_read C s n = Some (r, s')" and "consumed s s' (unat n)"
    and "take (length bs - unat n) (rx_bytes s') = drop (unat n) bs" and "unat (ix + n) = unat ix + unat n"
proof -
  have "unat (ix + n) = unat ix + unat n"
    using bd_entryD(3,5) [OF e] n by (intro unat_add_small) simp
  then show thesis
    using that consume_prefix [OF _ n] e unfolding bd_entry_def by blast
qed

lemma bd_entry_all:
  assumes e: "bd_entry d s bs ix"
  obtains r s' where "consume_read C s (bd_len d - ix) = Some (r, s')" and "consumed s s' (length bs)"
    and "take (length bs - length bs) (rx_bytes s') = drop (length bs) bs" and "unat (bd_len d) = unat ix + length bs"
  using bd_entry_consume [OF e, of "bd_len d - ix"] bd_entryD(1,2,4) [OF e] that by (metis order_refl)

lemma bd_id_ok:
  assumes e: "bd_entry d s bs ix" and ph: "bd_phase d = BRX_ID"
  shows "stepped d s bs ix (bd_id C d s (bs @ [0]) ix)"
proof -
  obtain m where m: "bd_pmsg d = Some m" "length (bd_v d) < 2"
    using e ph by (auto simp: bd_entry_def bd_ok_def)
  note D = bd_entryD [OF e]
  show ?thesis
  proof (cases "2 \<le> length bs + length (bd_v d)")
    case True
    define n where "n = (2 - of_nat (length (bd_v d)) :: size_t)"
    have n: "unat n + length (bd_v d) = 2" "0 < unat n" "unat n \<le> length bs" "2 - length (bd_v d) = unat n"
      using D(7) m True by (simp_all add: n_def)
    let ?d = "d\<lparr>bd_pmsg := Some (BinMessage_setId (word_of (bd_v d @ take (unat n) bs)) m), bd_phase := BRX_NAME, bd_v := []\<rparr>"
    obtain r s' where c: "consume_read C s n = Some (r, s')" "consumed s s' (unat n)"
      "take (length bs - unat n) (rx_bytes s') = drop (unat n) bs" "unat (ix + n) = unat ix + unat n"
      using bd_entry_consume [OF e n(2,3)] .
    have "bd_id C d s (bs @ [0]) ix = Some (?d, s', ix + n)"
      using True D(6) c(1) n m by (simp add: bd_id_def insert_end_def load_def Let_def flip: n_def)
    moreover have "bd_run d (take (unat n) bs) = (?d, unat n)"
      using bd_run_id_done [OF ph, of "take (unat n) bs"] n m D(2) by auto
    ultimately show ?thesis using n c m by (intro steppedI [of _ ?d s' "ix + n" "unat n"]) (auto simp: bd_ok_def bd_room_def BinMessage_setId_def)
  next
    case False
    obtain r s' where c: "consume_read C s (bd_len d - ix) = Some (r, s')" "consumed s s' (length bs)"
      "take (length bs - length bs) (rx_bytes s') = drop (length bs) bs" "unat (bd_len d) = unat ix + length bs"
      using bd_entry_all [OF e] .
    have "bd_id C d s (bs @ [0]) ix = Some (d\<lparr>bd_v := bd_v d @ bs\<rparr>, s', bd_len d)"
      using False D(1,6) c(1) m by (simp add: bd_id_def insert_end_def)
    moreover have "bd_run d (take (length bs) bs) = (d\<lparr>bd_v := bd_v d @ bs\<rparr>, length bs)"
      using bd_run_id_more [OF ph] False by simp
    ultimately show ?thesis using D(2) c m ph False by (intro steppedI [of _ _ s' "bd_len d" "length bs"]) (auto simp: bd_ok_def bd_room_def)
  qed
qed

lemma bd_name_ok:
  assumes e: "bd_entry d s bs ix" and ph: "bd_phase d = BRX_NAME"
  shows "stepped d s bs ix (bd_name C d s (bs @ [0]) ix)"
proof -
  obtain m where m: "bd_pmsg d = Some m" "bd_v d = []"
    using e ph by (auto simp: bd_entry_def bd_ok_def)
  note D = bd_entryD [OF e]
  have "unat (bd_len d - ix) \<le> length (bs @ [0])" using D(1) by simp
  then show ?thesis
  proof (cases rule: find_zero_cases)
    case (zero i)
    define n where "n = (of_nat i + 1 :: size_t)"
    have n: "unat n = Suc i" "0 < unat n" "unat n \<le> length bs"
      using zero(2) D(1,5) unat_of_nat_small [of "Suc i"] by (simp_all add: n_def add.commute)
    then have t: "take i (bs @ [0]) = take i bs" "take (unat n) bs = take i bs @ [0]" "string_at (bs @ [0]) = Some (take i bs)"
      using zero by (simp_all add: string_at_def)
    let ?d = "d\<lparr>bd_s := bd_s d @ take i bs, bd_pmsg := Some (BinMessage_setName (bd_s d @ take i bs) m), bd_phase := BRX_SIZE\<rparr>"
    obtain r s' where c: "consume_read C s n = Some (r, s')" "consumed s s' (unat n)"
      "take (length bs - unat n) (rx_bytes s') = drop (unat n) bs" "unat (ix + n) = unat ix + unat n"
      using bd_entry_consume [OF e n(2,3)] .
    have "bd_name C d s (bs @ [0]) ix = Some (?d, s', ix + n)"
      using zero(1) c(1) t m by (simp add: bd_name_def Let_def flip: n_def)
    moreover have "bd_run d (take (unat n) bs) = (?d, unat n)"
      using bd_run_name_done [OF ph, of "take i bs"] n zero(4) m t by simp
    ultimately show ?thesis using n c m by (intro steppedI [of _ ?d s' "ix + n" "unat n"]) (auto simp: bd_ok_def bd_room_def BinMessage_setName_def)
  next
    case none
    then have z: "0 \<notin> set bs" using D(1) by simp
    then have t: "string_at (bs @ [0]) = Some bs" by simp
    obtain r s' where c: "consume_read C s (bd_len d - ix) = Some (r, s')" "consumed s s' (length bs)"
      "take (length bs - length bs) (rx_bytes s') = drop (length bs) bs" "unat (bd_len d) = unat ix + length bs"
      using bd_entry_all [OF e] .
    have "bd_name C d s (bs @ [0]) ix = Some (d\<lparr>bd_s := bd_s d @ bs\<rparr>, s', bd_len d)"
      using none(1) c(1) t by (simp add: bd_name_def)
    moreover have "bd_run d (take (length bs) bs) = (d\<lparr>bd_s := bd_s d @ bs\<rparr>, length bs)"
      using bd_run_name_more [OF ph z] by simp
    ultimately show ?thesis using D(2) c m ph by (intro steppedI [of _ _ s' "bd_len d" "length bs"]) (auto simp: bd_ok_def bd_room_def)
  qed
qed

lemma bd_sz_ok:
  assumes e: "bd_entry d s bs ix" and ph: "bd_phase d = BRX_SIZE"
  shows "stepped d s bs ix (bd_sz C d s (bs @ [0]) ix)"
proof -
  obtain m where m: "bd_pmsg d = Some m" "length (bd_v d) < 8"
    using e ph by (auto simp: bd_entry_def bd_ok_def)
  note D = bd_entryD [OF e]
  show ?thesis
  proof (cases "8 \<le> length bs + length (bd_v d)")
    case True
    define n where "n = (8 - of_nat (length (bd_v d)) :: size_t)"
    have n: "unat n + length (bd_v d) = 8" "0 < unat n" "unat n \<le> length bs" "8 - length (bd_v d) = unat n"
      using D(9) m True by (simp_all add: n_def)
    define v where "v = bd_v d @ take (unat n) bs"
    let ?d = "d\<lparr>bd_v := v, bd_size := word_of v, bd_pmsg := Some (BinMessage_resetValue m),
                bd_phase := (if (word_of v :: size_t) > 0 then BRX_ARGS_VALUE else BRX_END)\<rparr>"
    obtain r s' where c: "consume_read C s n = Some (r, s')" "consumed s s' (unat n)"
      "take (length bs - unat n) (rx_bytes s') = drop (unat n) bs" "unat (ix + n) = unat ix + unat n"
      using bd_entry_consume [OF e n(2,3)] .
    have "bd_sz C d s (bs @ [0]) ix = Some (?d, s', if (word_of v :: size_t) > 0 then ix + n else bd_len d)"
      using True D(8) c(1) n m by (simp add: bd_sz_def insert_end_def load_def Let_def v_def flip: n_def)
    moreover have "bd_run d (take (unat n) bs) = (?d, unat n)"
      using bd_run_size_done [OF ph, of "take (unat n) bs"] n m D(2) unfolding v_def by auto
    moreover have "(word_of v :: size_t) > 0 \<Longrightarrow> 0 < unat (word_of v :: size_t)" by (simp add: word_gt_0 unat_gt_0)
    ultimately show ?thesis using n c m D(5)
      by (intro steppedI [of _ ?d s' "if (word_of v :: size_t) > 0 then ix + n else bd_len d" "unat n"])
        (auto simp: bd_ok_def bd_room_def BinMessage_resetValue_def split: if_splits)
  next
    case False
    obtain r s' where c: "consume_read C s (bd_len d - ix) = Some (r, s')" "consumed s s' (length bs)"
      "take (length bs - length bs) (rx_bytes s') = drop (length bs) bs" "unat (bd_len d) = unat ix + length bs"
      using bd_entry_all [OF e] .
    have "bd_sz C d s (bs @ [0]) ix = Some (d\<lparr>bd_v := bd_v d @ bs\<rparr>, s', bd_len d)"
      using False D(1,8) c(1) m by (simp add: bd_sz_def insert_end_def)
    moreover have "bd_run d (take (length bs) bs) = (d\<lparr>bd_v := bd_v d @ bs\<rparr>, length bs)"
      using bd_run_size_more [OF ph] False by simp
    ultimately show ?thesis using D(2) c m ph False by (intro steppedI [of _ _ s' "bd_len d" "length bs"]) (auto simp: bd_ok_def bd_room_def)
  qed
qed

lemma bd_value_ok:
  assumes e: "bd_entry d s bs ix" and ph: "bd_phase d = BRX_ARGS_VALUE"
  shows "stepped d s bs ix (bd_value C d s (bs @ [0]) ix)"
proof -
  obtain m where m: "bd_pmsg d = Some m" "length (bm_value m) < unat (bd_size d)" "length (bm_value m) + length bs < 2 ^ 64"
    using e ph by (auto simp: bd_entry_def bd_ok_def bd_room_def)
  note D = bd_entryD [OF e]
  have g: "unat (BinMessage_getSize m) = length (bm_value m)" using m by (simp add: BinMessage_getSize_def unat_of_nat_small)
  have le: "bd_size d \<le> bd_len d - ix + BinMessage_getSize m \<longleftrightarrow> unat (bd_size d) \<le> length bs + length (bm_value m)"
    using D(1,5) g m by (subst word_le_nat_alt, subst unat_add_small) simp_all
  show ?thesis
  proof (cases "unat (bd_size d) \<le> length bs + length (bm_value m)")
    case True
    define n where "n = bd_size d - BinMessage_getSize m"
    have n: "length (bm_value m) + unat n = unat (bd_size d)" "0 < unat n" "unat n \<le> length bs"
      using g m True by (simp_all add: n_def unat_diff_small word_le_nat_alt)
    let ?d = "d\<lparr>bd_pmsg := Some (m\<lparr>bm_value := bm_value m @ take (unat n) bs\<rparr>), bd_phase := BRX_END\<rparr>"
    obtain r s' where c: "consume_read C s n = Some (r, s')" "consumed s s' (unat n)"
      "take (length bs - unat n) (rx_bytes s') = drop (unat n) bs" "unat (ix + n) = unat ix + unat n"
      using bd_entry_consume [OF e n(2,3)] .
    have "bd_value C d s (bs @ [0]) ix = Some (?d, s', bd_len d)"
      using True le c(1) n m D(5) by (simp add: bd_value_def writeValue_ok flip: n_def)
    moreover have "bd_run d (take (unat n) bs) = (?d, unat n)"
      using bd_run_value_done [OF ph m(1), of "take (unat n) bs"] n D(2) by auto
    ultimately show ?thesis using n c m by (intro steppedI [of _ ?d s' "bd_len d" "unat n"]) auto
  next
    case False
    obtain r s' where c: "consume_read C s (bd_len d - ix) = Some (r, s')" "consumed s s' (length bs)"
      "take (length bs - length bs) (rx_bytes s') = drop (length bs) bs" "unat (bd_len d) = unat ix + length bs"
      using bd_entry_all [OF e] .
    have "bd_value C d s (bs @ [0]) ix = Some (d\<lparr>bd_pmsg := Some (m\<lparr>bm_value := bm_value m @ bs\<rparr>)\<rparr>, s', bd_len d)"
      using False D(1,5) le c(1) m by (simp add: bd_value_def writeValue_ok)
    moreover have "bd_run d (take (length bs) bs) = (d\<lparr>bd_pmsg := Some (m\<lparr>bm_value := bm_value m @ bs\<rparr>)\<rparr>, length bs)"
      using bd_run_value_more [OF ph m(1)] False by simp
    ultimately show ?thesis using D(2) c m ph False
      by (intro steppedI [of _ _ s' "bd_len d" "length bs"]) (auto simp: bd_ok_def bd_room_def)
  qed
qed

lemma bd_step_ok:
  assumes e: "bd_entry d s bs ix" and p: "drop (unat ix) buffer = bs @ [0]"
  shows "stepped d s bs ix (bd_step C d s buffer ix)"
  using e bd_id_ok [OF e] bd_name_ok [OF e] bd_sz_ok [OF e] bd_value_ok [OF e] bd_ok_phase [of d]
  by (cases "bd_phase d") (simp_all add: bd_step_def p bd_entry_def)

lemma bd_loop_ok:
  assumes "Streamer_inv com_ok s" and "bd_ok d" and "bd_room d (length bs)" and "unat (bd_len d) \<le> 1024"
    and "unat ix + length bs = unat (bd_len d)" and "take (length bs) (rx_bytes s) = bs" and "drop (unat ix) buffer = bs @ [0]"
  shows "\<exists>d' s' n. bd_loop C d s buffer ix = Some (d', s') \<and> bd_run d bs = (d', n) \<and> consumed s s' n \<and>
           (bd_phase d' \<noteq> BRX_END \<longrightarrow> bd_ok d')"
  using assms
proof (induction "length bs" arbitrary: d s bs ix rule: less_induct)
  case less
  show ?case
  proof (cases "bs = []")
    case True
    then have "\<not> ix < bd_len d" using less.prems(5) by (simp add: word_less_nat_alt)
    with True less.prems show ?thesis by (simp add: bd_loop.simps [of C d] consumed_0)
  next
    case False
    then have "0 < length bs" by simp
    then have ix: "ix < bd_len d" using less.prems(5) by (simp add: word_less_nat_alt del: length_greater_0_conv)
    have "bd_entry d s bs ix" using less.prems ix by (simp add: bd_entry_def)
    from bd_step_ok [OF this less.prems(7)] obtain n d1 s1 ix1 where
      st: "bd_step C d s buffer ix = Some (d1, s1, ix1)" "0 < n" "n \<le> length bs" "bd_run d (take n bs) = (d1, n)"
        "consumed s s1 n" "take (length bs - n) (rx_bytes s1) = drop n bs" "bd_len d1 = bd_len d"
        "if bd_phase d1 = BRX_END then ix1 = bd_len d
         else unat ix1 = unat ix + n \<and> bd_ok d1 \<and> bd_room d1 (length bs - n)"
      unfolding stepped_def by blast
    have L: "bd_loop C d s buffer ix = bd_loop C d1 s1 buffer ix1" using ix st(1) by (simp add: bd_loop.simps [of C d])
    have R: "bd_run d bs = (if bd_phase d1 = BRX_END then (d1, n) else (let (d2, k) = bd_run d1 (drop n bs) in (d2, n + k)))"
      using bd_run_append [of d "take n bs" "drop n bs"] st(2,4) False by simp
    show ?thesis
    proof (cases "bd_phase d1 = BRX_END")
      case True
      with st have "bd_loop C d1 s1 buffer ix1 = Some (d1, s1)" by (simp add: bd_loop.simps [of C d1])
      with L R True st show ?thesis by simp
    next
      case F: False
      have "\<exists>d' s' k. bd_loop C d1 s1 buffer ix1 = Some (d', s') \<and> bd_run d1 (drop n bs) = (d', k) \<and> consumed s1 s' k \<and>
          (bd_phase d' \<noteq> BRX_END \<longrightarrow> bd_ok d')"
      proof (rule less.hyps)
        have "drop (unat ix1) buffer = drop n (drop (unat ix) buffer)" using st F by (simp add: add.commute)
        then show "drop (unat ix1) buffer = drop n bs @ [0]" using st(3) less.prems(7) by simp
      qed (use st F less.prems False in \<open>auto simp: consumed_def\<close>)
      with L R F st(5) show ?thesis by (auto intro: consumed_trans)
    qed
  qed
qed

text \<open>The local array holds what the streamer held when it was asked for its size, and the zero.\<close>

lemma try_read_held:
  assumes "received s s1 k" and "unat len = rx_count s1"
  obtains s2 k2 where "\<exists>n. try_read C s1 (replicate (unat len + 1) 0) len = Some (n, rx_bytes s1 @ [0], s2)" and "received s1 s2 k2"
    and "take (rx_count s1) (rx_bytes s2) = rx_bytes s1"
proof -
  have inv1: "Streamer_inv com_ok s1" using assms(1) by (simp add: received_def)
  obtain n s2 k2 where r2: "try_read C s1 (replicate (unat len + 1) 0) len = Some (n, take (unat n) (rx_bytes s2) @ drop (unat n) (replicate (unat len + 1) 0), s2)"
    "received s1 s2 k2" "unat n = min (unat len) (rx_count s2)"
    using try_read_ok [OF inv1, of len "replicate (unat len + 1) 0"] by auto
  have b2: "rx_bytes s2 = rx_bytes s1 @ take k2 (inq (m_com s1))" using r2(2) by (simp add: received_def)
  then have "rx_count s1 \<le> rx_count s2" by (metis length_append length_rx_bytes le_add1)
  then have n: "unat n = rx_count s1" using r2(3) assms(2) by simp
  have t: "take (rx_count s1) (rx_bytes s2) = rx_bytes s1" using b2 by simp
  have "take (unat n) (rx_bytes s2) @ drop (unat n) (replicate (unat len + 1) 0) = rx_bytes s1 @ [0]"
    unfolding n t assms(2) by (simp del: replicate_Suc) simp
  with r2(1,2) t show thesis by (intro that [of s2 k2]) auto
qed

text \<open>
  A call of \<^verbatim>\<open>receive\<close> runs the automaton over the bytes that the streamer holds after asking the
  link, and consumes what the automaton has used.
\<close>

lemma receive_ok:
  assumes inv: "Streamer_inv com_ok s" and ok: "bd_ok d" and room: "bd_room d 1024"
  obtains s1 k d1 n s' where "com_read C s = Some s1" and "received s s1 k"
    and "bd_run (d\<lparr>bd_len := of_nat (rx_count s1)\<rparr>) (rx_bytes s1) = (d1, n)" and "consumed s s' n"
    and "bd_phase d1 \<noteq> BRX_END \<Longrightarrow> bd_ok d1"
    and "BinDeserializer_receive C d s =
           Some (bd_phase d1 = BRX_END, if bd_phase d1 = BRX_END then d1\<lparr>bd_phase := BRX_IDLE\<rparr> else d1, s')"
proof -
  note ph = bd_ok_phase [OF ok]
  obtain len s1 k where r1: "rx_size C s = Some (len, s1)" "received s s1 k" "unat len = rx_count s1"
    using rx_size_ok [OF inv] .
  have c1: "com_read C s = Some s1" using r1(1) by (auto simp: rx_size_def elim: bind_SomeE)
  have inv1: "Streamer_inv com_ok s1" using r1(2) by (simp add: received_def)
  have len: "len = of_nat (rx_count s1)" by (simp flip: r1(3))
  let ?d = "d\<lparr>bd_len := len\<rparr>"
  show thesis
  proof (cases "rx_count s1 = 0")
    case True
    then have "len = 0" using len by simp
    then have "BinDeserializer_receive C d s = Some (False, ?d, s1)"
      using ph r1(1) by (simp add: BinDeserializer_receive_def)
    moreover have "rx_bytes s1 = []" using True by (simp flip: length_0_conv)
    ultimately show thesis
      using c1 r1(2) received_consumed [OF r1(2)] ph ok len by (intro that [of s1 k ?d 0 s1]) simp_all
  next
    case False
    then have len0: "\<not> len \<le> 0" using r1(3) by (auto simp: word_le_nat_alt)
    obtain s2 k2 where r2: "\<exists>n. try_read C s1 (replicate (unat len + 1) 0) len = Some (n, rx_bytes s1 @ [0], s2)" "received s1 s2 k2"
      "take (rx_count s1) (rx_bytes s2) = rx_bytes s1"
      using try_read_held [OF r1(2,3)] .
    have inv2: "Streamer_inv com_ok s2" using r2(2) by (simp add: received_def)
    have buf: "(rx_bytes s1 @ [0])[unat len := 0] = rx_bytes s1 @ [0]" using r1(3) by (simp add: list_update_append)
    have "\<exists>d' s' n. bd_loop C ?d s2 (rx_bytes s1 @ [0]) 0 = Some (d', s') \<and> bd_run ?d (rx_bytes s1) = (d', n) \<and> consumed s2 s' n \<and>
           (bd_phase d' \<noteq> BRX_END \<longrightarrow> bd_ok d')"
    proof (rule bd_loop_ok [OF inv2])
      show l: "unat (bd_len ?d) \<le> 1024" using r1(3) ring_count_le by (simp add: rx_count_def)
      then show "bd_room ?d (length (rx_bytes s1))" using room r1(3) by (auto simp: bd_room_def)
      show "take (length (rx_bytes s1)) (rx_bytes s2) = rx_bytes s1" using r2(3) by simp
    qed (use ok r1(3) in simp_all)
    then obtain d1 s' j where L: "bd_loop C ?d s2 (rx_bytes s1 @ [0]) 0 = Some (d1, s')" "bd_run ?d (rx_bytes s1) = (d1, j)"
      "consumed s2 s' j" "bd_phase d1 \<noteq> BRX_END \<Longrightarrow> bd_ok d1" by blast
    have "consumed s s' j"
      using consumed_trans [OF received_consumed [OF received_trans [OF r1(2) r2(2)]] L(3)] by simp
    moreover have "BinDeserializer_receive C d s =
           Some (bd_phase d1 = BRX_END, if bd_phase d1 = BRX_END then d1\<lparr>bd_phase := BRX_IDLE\<rparr> else d1, s')"
      using ph r1(1) len0 r2(1) buf L(1) by (auto simp: BinDeserializer_receive_def)
    ultimately show thesis using c1 r1(2) L(2,4) len by (intro that [of s1 k d1 j s']) simp_all
  qed
qed

end

text \<open>Between two bytes of a message the state stays well formed.\<close>

lemma bd_ok_byte: "bd_ok d \<Longrightarrow> bd_phase (bd_byte d b) \<noteq> BRX_END \<Longrightarrow> bd_ok (bd_byte d b)"
proof -
  assume "bd_ok d" "bd_phase (bd_byte d b) \<noteq> BRX_END"
  moreover have "(0 :: nat) < unat w" if "0 < w" for w :: size_t using that by (simp add: word_gt_0 unat_gt_0)
  ultimately show ?thesis
    by (cases "bd_phase d")
      (auto simp: bd_ok_def bd_byte_def Let_def BinMessage_setId_def BinMessage_setName_def BinMessage_resetValue_def not_less_eq_eq split: if_splits)
qed

lemma bd_ok_run: "bd_ok d \<Longrightarrow> bd_phase (fst (bd_run d bs)) \<noteq> BRX_END \<Longrightarrow> bd_ok (fst (bd_run d bs))"
proof (induction d bs rule: bd_run.induct)
  case (2 d b bs)
  then show ?case using bd_ok_byte [OF 2(2), of b] by (auto simp: Let_def split: prod.splits if_splits)
qed simp

lemma bd_ok_start: "bd_start d \<Longrightarrow> bd_ok d"
  by (auto simp: bd_start_def bd_ok_def)

text \<open>
  \<open>d\<close> has read the bytes \<open>c\<close> of the messages \<open>ms\<close>, of which the bytes \<open>S\<close> are still to come.
\<close>

definition bd_expects :: "BinDeserializer \<Rightarrow> bytes \<Rightarrow> BinMessage list \<Rightarrow> bool" where
  "bd_expects d S ms \<longleftrightarrow>
     (\<exists>d0 c. bd_start d0 \<and> bd_run d0 c = (d, length c) \<and> bd_phase d \<noteq> BRX_END \<and>
        c @ S = concat (map wire ms) \<and> (\<forall>m \<in> set ms. msg_ok m))"

lemma bd_expects_init:
  "S = concat (map wire ms) \<Longrightarrow> \<forall>m \<in> set ms. msg_ok m \<Longrightarrow> bd_start d \<Longrightarrow> bd_expects d S ms"
  unfolding bd_expects_def by (intro exI [of _ d] exI [of _ "[]"]) (auto simp: bd_start_def)

lemma bd_expects_ok:
  assumes "bd_expects d S ms"
  shows "bd_ok d" and "bd_room d 1024"
proof -
  obtain d0 c where e: "bd_start d0" "bd_run d0 c = (d, length c)" "bd_phase d \<noteq> BRX_END"
    "c @ S = concat (map wire ms)" "\<forall>m \<in> set ms. msg_ok m" using assms by (auto simp: bd_expects_def)
  show "bd_ok d" using bd_ok_run [of d0 c] bd_ok_start [OF e(1)] e(2,3) by simp
  have "length (bm_value m) + 1024 < 2 ^ 64" if ph: "bd_phase d = BRX_ARGS_VALUE" and m: "bd_pmsg d = Some m" for m
  proof -
    have "c \<noteq> []" using e(1,2) ph by (auto simp: bd_start_def)
    then obtain m1 ms1 where ms: "ms = m1 # ms1" using e(4) by (cases ms) auto
    then obtain d' where d': "bd_run d0 (c @ S) = (d', length (wire m1))" "bd_phase d' = BRX_END" "bd_pmsg d' = Some m1"
      using bd_run_wire [of m1 d0 "concat (map wire ms1)"] e by auto
    moreover have "bd_run d0 (c @ S) = (let (d2, k) = bd_run d S in (d2, length c + k))"
      using e(2,3) by (simp add: bd_run_append)
    ultimately have "d' = fst (bd_run d S)" by (simp add: Let_def split: prod.splits)
    then have "length (bm_value m) \<le> length (bm_value m1)" using bd_run_value_grows [OF ph m, of S] d'(3) by auto
    also have "\<dots> < 2 ^ 63" using e(5) ms by (simp add: msg_ok_def)
    finally show ?thesis by simp
  qed
  then show "bd_room d 1024" by (simp add: bd_room_def)
qed

text \<open>Reading on: within a message, and to its end.\<close>

lemma bd_expects_run:
  assumes e: "bd_expects d (X @ Y) ms" and r: "bd_run (d\<lparr>bd_len := l\<rparr>) X = (d1, n)"
  shows "bd_phase d1 \<noteq> BRX_END \<Longrightarrow> bd_expects d1 (drop n (X @ Y)) ms"
    and "bd_phase d1 = BRX_END \<Longrightarrow> \<exists>m ms'. ms = m # ms' \<and> bd_pmsg d1 = Some m \<and> drop n (X @ Y) = concat (map wire ms')"
proof -
  obtain d0 c where e: "bd_start d0" "bd_run d0 c = (d, length c)" "bd_phase d \<noteq> BRX_END"
    "c @ X @ Y = concat (map wire ms)" "\<forall>m \<in> set ms. msg_ok m" using e by (auto simp: bd_expects_def)
  let ?d0 = "d0\<lparr>bd_len := l\<rparr>"
  have s: "bd_start ?d0" using e(1) by simp
  have c: "bd_run ?d0 c = (d\<lparr>bd_len := l\<rparr>, length c)" using e(2) by (simp add: bd_run_len)
  then have cX: "bd_run ?d0 (c @ X) = (d1, length c + n)" using e(3) r by (simp add: bd_run_append)
  show "bd_expects d1 (drop n (X @ Y)) ms" if ph: "bd_phase d1 \<noteq> BRX_END"
  proof -
    have "n = length X" using bd_run_all [OF r ph] .
    with s cX e(4,5) ph show ?thesis unfolding bd_expects_def by (intro exI [of _ ?d0] exI [of _ "c @ X"]) simp
  qed
  show "\<exists>m ms'. ms = m # ms' \<and> bd_pmsg d1 = Some m \<and> drop n (X @ Y) = concat (map wire ms')" if ph: "bd_phase d1 = BRX_END"
  proof -
    have "c @ X \<noteq> []" using cX ph s by (auto simp: bd_start_def)
    then obtain m ms' where ms: "ms = m # ms'" using e(4) by (cases ms) auto
    obtain d' where d': "bd_run ?d0 (wire m @ concat (map wire ms')) = (d', length (wire m))" "bd_pmsg d' = Some m"
      using bd_run_wire [OF _ s] e(5) ms by (metis list.set_intros(1))
    have "bd_run ?d0 ((c @ X) @ Y) = (d1, length c + n)"
      using cX ph \<open>c @ X \<noteq> []\<close> unfolding bd_run_append [of ?d0 "c @ X" Y] by simp
    then have "d' = d1" and l: "length (wire m) = length c + n" using d' e(4) ms by auto
    moreover have "drop (length c + n) (c @ X @ Y) = drop (length (wire m)) (wire m @ concat (map wire ms'))"
      unfolding l e(4) ms by simp
    ultimately show ?thesis using d'(2) ms by simp
  qed
qed

context byte_link
begin

lemma receive_expects:
  assumes inv: "Streamer_inv com_ok s" and e: "bd_expects d (in_stream inq s @ later) ms"
  obtains b d' s' n where "BinDeserializer_receive C d s = Some (b, d', s')" and "consumed s s' n"
    and "b \<Longrightarrow> \<exists>m ms'. ms = m # ms' \<and> bd_pmsg d' = Some m \<and> in_stream inq s' @ later = concat (map wire ms')"
    and "\<not> b \<Longrightarrow> bd_expects d' (in_stream inq s' @ later) ms"
proof -
  obtain s1 k d1 n s' where r: "com_read C s = Some s1" "received s s1 k"
    "bd_run (d\<lparr>bd_len := of_nat (rx_count s1)\<rparr>) (rx_bytes s1) = (d1, n)" "consumed s s' n"
    "bd_phase d1 \<noteq> BRX_END \<Longrightarrow> bd_ok d1"
    "BinDeserializer_receive C d s =
           Some (bd_phase d1 = BRX_END, if bd_phase d1 = BRX_END then d1\<lparr>bd_phase := BRX_IDLE\<rparr> else d1, s')"
    using receive_ok [OF inv bd_expects_ok [OF e]] by blast
  have S: "in_stream inq s @ later = rx_bytes s1 @ inq (m_com s1) @ later"
    using received_in_stream [OF r(2)] by (simp add: in_stream_def)
  have D: "drop n (in_stream inq s @ later) = in_stream inq s' @ later" using r(4) by (simp add: consumed_def)
  note X = bd_expects_run [OF e [unfolded S] r(3), folded S, unfolded D]
  show thesis
  proof (cases "bd_phase d1 = BRX_END")
    case True
    with X(2) r(4,6) show thesis by (intro that [of True "d1\<lparr>bd_phase := BRX_IDLE\<rparr>" s' n]) auto
  next
    case False
    with X(1) r(4,6) show thesis by (intro that [of False d1 s' n]) auto
  qed
qed

end

text \<open>The two ends of the loop-back link satisfy the contract.\<close>

interpretation srv_bytes: byte_link ServerCom ServerCom_inv "in_content \<circ> srv_sb" "out_content \<circ> srv_sb"
  by unfold_locales

interpretation cln_bytes: byte_link ClientCom ClientCom_inv "out_content \<circ> cln_sb" "in_content \<circ> cln_sb"
  by unfold_locales

end
