(* ===== verification/Timeout.thy ===== *)
theory Timeout
  imports Prelude "HOL-Library.Stream"
begin

text \<open>
  The time-outs (\<^verbatim>\<open>src/src/bmRPCTimeout.h\<close>). Every call of \<^verbatim>\<open>high_resolution_clock::now()\<close> takes the
  next element of a stream of readings, in nanoseconds. Nothing is assumed of the clock except where a
  theorem says that it runs on.
\<close>

record TimeOutChrono =
  m_start :: int
  m_tout_preset :: int

definition TimeOutChrono_new :: "int \<Rightarrow> TimeOutChrono" where
  "TimeOutChrono_new start = \<lparr>m_start = start, m_tout_preset = 10\<rparr>"

definition preset_impl :: "int \<Rightarrow> TimeOutChrono \<Rightarrow> TimeOutChrono" where
  "preset_impl milliseconds t = t\<lparr>m_tout_preset := milliseconds\<rparr>"

definition start_impl :: "int \<Rightarrow> TimeOutChrono \<Rightarrow> TimeOutChrono" where
  "start_impl now t = t\<lparr>m_start := now\<rparr>"

text \<open>\<^verbatim>\<open>duration_cast\<close> to milliseconds truncates towards zero.\<close>

definition duration_cast_ms :: "int \<Rightarrow> int" where
  "duration_cast_ms ns = (if ns \<ge> 0 then ns div 1000000 else - ((- ns) div 1000000))"

definition expired_impl :: "int \<Rightarrow> TimeOutChrono \<Rightarrow> bool" where
  "expired_impl now t \<longleftrightarrow> duration_cast_ms (now - m_start t) \<ge> m_tout_preset t"

lemma expired_iff:
  assumes "m_tout_preset t > 0"
  shows "expired_impl now t \<longleftrightarrow> now \<ge> m_start t + m_tout_preset t * 1000000"
proof (cases "now \<ge> m_start t")
  case True
  then show ?thesis by (simp add: expired_impl_def duration_cast_ms_def) linarith
next
  case False
  then have "0 \<le> (m_start t - now) div 1000000" by (intro pos_imp_zdiv_nonneg_iff [THEN iffD2]) auto
  then have "\<not> expired_impl now t" using False assms by (simp add: expired_impl_def duration_cast_ms_def)
  moreover have "\<not> now \<ge> m_start t + m_tout_preset t * 1000000" using False assms by linarith
  ultimately show ?thesis by simp
qed

text \<open>A clock that exceeds every bound, however much of it has been read.\<close>

definition clock_runs :: "int stream \<Rightarrow> bool" where
  "clock_runs clk \<longleftrightarrow> (\<forall>k B. \<exists>n. B \<le> sdrop k clk !! n)"

lemma clock_runs_sdrop: "clock_runs clk \<Longrightarrow> clock_runs (sdrop n clk)"
  by (simp add: clock_runs_def sdrop_add)

lemma clock_runs_stl: "clock_runs clk \<Longrightarrow> clock_runs (stl clk)"
  using clock_runs_sdrop [of clk 1] by simp

lemma clock_runs_expires:
  assumes "clock_runs clk" and "m_tout_preset t > 0"
  shows "\<exists>n. expired_impl (clk !! n) t"
proof -
  have "\<exists>n. m_start t + m_tout_preset t * 1000000 \<le> sdrop 0 clk !! n" using assms(1) unfolding clock_runs_def by blast
  with assms(2) show ?thesis by (simp add: expired_iff)
qed

text \<open>\<^verbatim>\<open>std::this_thread::sleep_for\<close>: every later reading is as much later. What the thread sleeps beyond that is in the readings themselves.\<close>

definition sleep_for :: "int \<Rightarrow> int stream \<Rightarrow> int stream" where
  "sleep_for milliseconds clk = smap (\<lambda>now. now + milliseconds * 1000000) clk"

lemma snth_sleep_for [simp]: "sleep_for ms clk !! n = clk !! n + ms * 1000000"
  by (simp add: sleep_for_def)

lemma shd_sleep_for [simp]: "shd (sleep_for ms clk) = shd clk + ms * 1000000" and stl_sleep_for [simp]: "stl (sleep_for ms clk) = sleep_for ms (stl clk)"
  by (simp_all add: sleep_for_def)

lemma sdrop_sleep_for [simp]: "sdrop k (sleep_for ms clk) = sleep_for ms (sdrop k clk)"
  by (simp add: sleep_for_def sdrop_smap)

lemma clock_runs_sleep_for: "clock_runs clk \<Longrightarrow> clock_runs (sleep_for ms clk)"
proof -
  assume "clock_runs clk"
  then have "\<exists>n. B - ms * 1000000 \<le> sdrop k clk !! n" for k B unfolding clock_runs_def by blast
  then show ?thesis unfolding clock_runs_def by (simp add: algebra_simps)
qed

text \<open>A clock that reads \<open>d\<close> nanoseconds more each time.\<close>

definition ticks :: "int \<Rightarrow> int stream" where
  "ticks d = smap (\<lambda>n. int n * d) nats"

lemma snth_ticks [simp]: "ticks d !! n = int n * d" "shd (ticks d) = 0" "sdrop k (ticks d) !! n = int (k + n) * d"
  by (simp_all add: ticks_def sdrop_snth)

lemma ticks_runs: "0 < d \<Longrightarrow> clock_runs (ticks d)"
proof -
  assume d: "0 < d"
  have "B \<le> sdrop k (ticks d) !! nat B" for k B
  proof -
    have "B \<le> int (k + nat B)" by simp
    also have "\<dots> \<le> int (k + nat B) * d" using d by (simp add: mult_le_cancel_left1)
    finally show ?thesis by simp
  qed
  then show "clock_runs (ticks d)" unfolding clock_runs_def by blast
qed

end
