(* ===== verification/Peer.thy ===== *)
theory Peer
  imports Serializer Timeout
begin

text \<open>
  What \<^verbatim>\<open>RpcServer\<close> and \<^verbatim>\<open>RpcClient\<close> have in common (\<^verbatim>\<open>src/src/bmRPCServer.h\<close>,
  \<^verbatim>\<open>src/src/bmRPCClient.h\<close>): the two message queues, the streamer with its serializer and deserializer, and the
  transmit and receive loops of \<^verbatim>\<open>doLoop\<close>, which the two classes repeat word for word. The static
  messages of \<^verbatim>\<open>doLoop\<close> are fields; the deserializer writes through its pointer into \<open>rx_msg\<close>. The
  time-outs, which the code declares as \<^verbatim>\<open>TimeOut_t\<close>, the base class without members, are objects of \<^verbatim>\<open>TimeOutChrono\<close> here.

  In \<open>context byte_link\<close> the transmit loop is shown to keep the sequence of bytes still to be
  delivered, and the receive loop to keep the sequence of messages still to be dispatched.
\<close>

section \<open>State and loops\<close>

record 'c Peer =
  tx_msg_buffer :: "BinMessage list"
  rx_msg_buffer :: "BinMessage list"
  m_init_deserializer :: bool
  m_init_serializer :: bool
  m_streamer :: "(u8, 'c) Streamer"
  m_deserializer :: BinDeserializer
  m_serializer :: BinSerializer
  tx_msg :: BinMessage
  rx_msg :: BinMessage

definition initLoop :: "('c, 'z) Peer_scheme \<Rightarrow> ('c, 'z) Peer_scheme" where
  "initLoop p = p\<lparr>m_init_serializer := True, m_init_deserializer := True\<rparr>"

text \<open>One turn of the receive loop.\<close>

definition rx_turn :: "(u8, 'c) comm \<Rightarrow> ('c, 'z) Peer_scheme \<Rightarrow> ('c, 'z) Peer_scheme option" where
  "rx_turn C p =
     do {
       let p = (if m_init_deserializer p
                then p\<lparr>m_deserializer := BinDeserializer_init (Some (rx_msg p)) (m_deserializer p),
                       m_init_deserializer := False\<rparr>
                else p);
       (b, d, s) \<leftarrow> BinDeserializer_receive C (m_deserializer p) (m_streamer p);
       let p = p\<lparr>m_deserializer := d, m_streamer := s,
                 rx_msg := (case bd_pmsg d of None \<Rightarrow> rx_msg p | Some m \<Rightarrow> m)\<rparr>;
       if b then Some (p\<lparr>rx_msg_buffer := rx_msg_buffer p @ [rx_msg p], m_init_deserializer := True\<rparr>)
       else Some p
     }"

text \<open>The loop with its time-out; one that never ends gives \<open>None\<close>.\<close>

partial_function (option) rx_loop :: "(u8, 'c) comm \<Rightarrow> TimeOutChrono \<Rightarrow> int stream \<Rightarrow> ('c, 'z) Peer_scheme \<Rightarrow> (('c, 'z) Peer_scheme \<times> int stream) option" where
  "rx_loop C t clk p =
     (if expired_impl (shd clk) t then Some (p, stl clk)
      else do { p \<leftarrow> rx_turn C p; rx_loop C t (stl clk) p })"

definition tx_turn :: "(u8, 'c) comm \<Rightarrow> ('c, 'z) Peer_scheme \<Rightarrow> ('c, 'z) Peer_scheme option" where
  "tx_turn C p =
     do {
       let p = (if m_init_serializer p
                then (let m = hd (tx_msg_buffer p)
                      in p\<lparr>tx_msg := m, m_serializer := BinSerializer_init (Some m) (m_serializer p),
                           m_init_serializer := False\<rparr>)
                else p);
       (b, ser, s) \<leftarrow> BinSerializer_send C (m_serializer p) (m_streamer p);
       let p = p\<lparr>m_serializer := ser, m_streamer := s\<rparr>;
       if b then Some (p\<lparr>tx_msg_buffer := tl (tx_msg_buffer p), m_init_serializer := True\<rparr>)
       else Some p
     }"

partial_function (option) tx_loop :: "(u8, 'c) comm \<Rightarrow> TimeOutChrono \<Rightarrow> int stream \<Rightarrow> ('c, 'z) Peer_scheme \<Rightarrow> (('c, 'z) Peer_scheme \<times> int stream) option" where
  "tx_loop C t clk p =
     (if tx_msg_buffer p = [] then Some (p, clk)
      else if expired_impl (shd clk) t then Some (p, stl clk)
      else do { p \<leftarrow> tx_turn C p; tx_loop C t (stl clk) p })"

text \<open>The receive and the transmit part of \<^verbatim>\<open>doLoop\<close>, each with its own time-out.\<close>

definition rx_phase :: "(u8, 'c) comm \<Rightarrow> int \<Rightarrow> int stream \<Rightarrow> ('c, 'z) Peer_scheme \<Rightarrow> (('c, 'z) Peer_scheme \<times> int stream) option" where
  "rx_phase C ms clk p =
     (let t = start_impl (shd clk) (preset_impl ms (TimeOutChrono_new 0)) in rx_loop C t (stl clk) p)"

definition tx_phase :: "(u8, 'c) comm \<Rightarrow> int \<Rightarrow> int stream \<Rightarrow> ('c, 'z) Peer_scheme \<Rightarrow> (('c, 'z) Peer_scheme \<times> int stream) option" where
  "tx_phase C ms clk p =
     do {
       let t = start_impl (shd clk) (preset_impl ms (TimeOutChrono_new 0));
       (p, clk) \<leftarrow> tx_loop C t (stl clk) p;
       s \<leftarrow> flush C (m_streamer p);
       Some (p\<lparr>m_streamer := s\<rparr>, clk)
     }"

section \<open>What is left to send\<close>

definition tx_todo :: "('c, 'z) Peer_scheme \<Rightarrow> bytes" where
  "tx_todo p =
     (if m_init_serializer p then concat (map wire (tx_msg_buffer p))
      else bs_todo (m_serializer p) @ concat (map wire (tl (tx_msg_buffer p))))"

definition tx_state_ok :: "('c, 'z) Peer_scheme \<Rightarrow> bool" where
  "tx_state_ok p \<longleftrightarrow> (\<forall>m \<in> set (tx_msg_buffer p). msg_ok m) \<and>
     (\<not> m_init_serializer p \<longrightarrow> tx_msg_buffer p \<noteq> [] \<and> bs_active (m_serializer p))"

lemma tx_todo_streamer [simp]:
  "tx_todo (p\<lparr>m_streamer := s\<rparr>) = tx_todo p" "tx_state_ok (p\<lparr>m_streamer := s\<rparr>) = tx_state_ok p"
  by (simp_all add: tx_todo_def tx_state_ok_def)

text \<open>The messages \<open>ms\<close> are what the peer will still receive if \<open>later\<close> follows what the link holds.\<close>

definition rx_expects :: "('c \<Rightarrow> bytes) \<Rightarrow> ('c, 'z) Peer_scheme \<Rightarrow> bytes \<Rightarrow> BinMessage list \<Rightarrow> bool" where
  "rx_expects inq p later ms \<longleftrightarrow>
     (if m_init_deserializer p
      then in_stream inq (m_streamer p) @ later = concat (map wire ms) \<and> (\<forall>m \<in> set ms. msg_ok m)
      else bd_expects (m_deserializer p) (in_stream inq (m_streamer p) @ later) ms)"

definition same_rx :: "('c \<Rightarrow> bytes) \<Rightarrow> ('c, 'z) Peer_scheme \<Rightarrow> ('c, 'z) Peer_scheme \<Rightarrow> bool" where
  "same_rx inq p p' \<longleftrightarrow> rx_msg_buffer p' = rx_msg_buffer p \<and> m_init_deserializer p' = m_init_deserializer p \<and>
     m_deserializer p' = m_deserializer p \<and> rx_msg p' = rx_msg p \<and> Peer.more p' = Peer.more p \<and>
     in_stream inq (m_streamer p') = in_stream inq (m_streamer p)"

definition same_tx :: "('c \<Rightarrow> bytes) \<Rightarrow> ('c, 'z) Peer_scheme \<Rightarrow> ('c, 'z) Peer_scheme \<Rightarrow> bool" where
  "same_tx outq p p' \<longleftrightarrow> tx_msg_buffer p' = tx_msg_buffer p \<and> m_init_serializer p' = m_init_serializer p \<and>
     m_serializer p' = m_serializer p \<and> tx_msg p' = tx_msg p \<and> Peer.more p' = Peer.more p \<and>
     out_stream outq (m_streamer p') = out_stream outq (m_streamer p) \<and> tx_bytes (m_streamer p') = tx_bytes (m_streamer p)"

lemma same_rx_expects: "same_rx inq p p' \<Longrightarrow> rx_expects inq p' later ms = rx_expects inq p later ms"
  by (simp add: same_rx_def rx_expects_def)

lemma same_tx_todo: "same_tx outq p p' \<Longrightarrow> tx_todo p' = tx_todo p \<and> tx_state_ok p' = tx_state_ok p"
  by (simp add: same_tx_def tx_todo_def tx_state_ok_def)

lemma same_rx_trans: "same_rx inq p q \<Longrightarrow> same_rx inq q r \<Longrightarrow> same_rx inq p r"
  by (simp add: same_rx_def)

lemma same_tx_trans: "same_tx outq p q \<Longrightarrow> same_tx outq q r \<Longrightarrow> same_tx outq p r"
  by (simp add: same_tx_def)

context byte_link
begin

text \<open>\<open>transmitted p p'\<close>: some of what was left is now in the stream, and nothing else changed.\<close>

definition transmitted :: "('c, 'z) Peer_scheme \<Rightarrow> ('c, 'z) Peer_scheme \<Rightarrow> bool" where
  "transmitted p p' \<longleftrightarrow> Streamer_inv com_ok (m_streamer p') \<and> tx_state_ok p' \<and> same_rx inq p p' \<and>
     out_stream outq (m_streamer p') @ tx_todo p' = out_stream outq (m_streamer p) @ tx_todo p \<and> length (tx_todo p') \<le> length (tx_todo p) \<and>
     Comm_is_open C (m_com (m_streamer p')) = Comm_is_open C (m_com (m_streamer p)) \<and>
     m_packet_size (m_streamer p') = m_packet_size (m_streamer p)"

lemma transmitted_refl: "Streamer_inv com_ok (m_streamer p) \<Longrightarrow> tx_state_ok p \<Longrightarrow> transmitted p p"
  by (simp add: transmitted_def same_rx_def)

lemma transmitted_trans: "transmitted p q \<Longrightarrow> transmitted q r \<Longrightarrow> transmitted p r"
  by (auto simp: transmitted_def intro: same_rx_trans)

lemma tx_frame_in_stream: "tx_frame s s' \<Longrightarrow> in_stream inq s' = in_stream inq s"
  by (simp add: tx_frame_def in_stream_def)

lemma tx_turn_ok:
  assumes inv: "Streamer_inv com_ok (m_streamer p)" and ok: "tx_state_ok p" and ne: "tx_msg_buffer p \<noteq> []"
  obtains p' where "tx_turn C p = Some p'" and "transmitted p p'"
    and "tx_count (m_streamer p) < 1024 \<Longrightarrow> length (tx_todo p') < length (tx_todo p)"
proof -
  obtain m ms where b: "tx_msg_buffer p = m # ms" using ne by (cases "tx_msg_buffer p") auto
  define p1 where "p1 = (if m_init_serializer p
      then p\<lparr>tx_msg := m, m_serializer := BinSerializer_init (Some m) (m_serializer p), m_init_serializer := False\<rparr> else p)"
  have p1: "tx_msg_buffer p1 = m # ms" "m_streamer p1 = m_streamer p" "same_rx inq p p1" "\<not> m_init_serializer p1"
    by (simp_all add: p1_def b same_rx_def)
  have act: "bs_active (m_serializer p1)" and todo: "tx_todo p = bs_todo (m_serializer p1) @ concat (map wire ms)"
    using ok init_active [of m "m_serializer p"] b by (auto simp: p1_def tx_state_ok_def tx_todo_def)
  obtain r t s' where s: "BinSerializer_send C (m_serializer p1) (m_streamer p) = Some (r, t, s')"
    "if r then bs_phase t = BTX_IDLE \<and> bs_todo t = [] else bs_active t"
    "sent (m_streamer p) s' (bs_todo (m_serializer p1)) (bs_todo t)"
    using send_ok [OF inv act] by metis
  let ?q = "p1\<lparr>m_serializer := t, m_streamer := s'\<rparr>"
  let ?p' = "if r then ?q\<lparr>tx_msg_buffer := ms, m_init_serializer := True\<rparr> else ?q"
  have "tx_turn C p = Some ?p'" using s(1) p1(1,2) b
    by (simp add: tx_turn_def Let_def) (auto simp: p1_def b)
  moreover have T: "tx_todo ?p' = bs_todo t @ concat (map wire ms)" using s(2) p1 by (simp add: tx_todo_def)
  have "same_rx inq p ?p'" using p1(3) s(3) by (auto simp: same_rx_def sent_def tx_frame_in_stream p1(2))
  moreover have "tx_state_ok ?p'" using ok s(2) p1 b by (auto simp: tx_state_ok_def)
  ultimately show thesis using s(3) T todo
    by (intro that [of ?p']) (auto simp: transmitted_def sent_def tx_frame_def)
qed

lemma tx_loop_ok:
  assumes "Streamer_inv com_ok (m_streamer p)" and "tx_state_ok p" and "expired_impl (clk !! n) t"
  shows "\<exists>p' k. tx_loop C t clk p = Some (p', sdrop k clk) \<and> transmitted p p'"
  using assms
proof (induction n arbitrary: clk p)
  case 0
  then show ?case
    by (cases "tx_msg_buffer p = []") (auto simp: tx_loop.simps [of C t clk p] transmitted_refl intro: exI [of _ 0] exI [of _ 1])
next
  case (Suc n)
  show ?case
  proof (cases "tx_msg_buffer p = [] \<or> expired_impl (shd clk) t")
    case True
    with Suc.prems show ?thesis
      by (cases "tx_msg_buffer p = []") (auto simp: tx_loop.simps [of C t clk p] transmitted_refl intro: exI [of _ 0] exI [of _ 1])
  next
    case False
    obtain q where q: "tx_turn C p = Some q" "transmitted p q" using tx_turn_ok [OF Suc.prems(1,2)] False by blast
    then obtain p' k where "tx_loop C t (stl clk) q = Some (p', sdrop k (stl clk))" "transmitted q p'"
      using Suc.IH [of q "stl clk"] Suc.prems(3) by (auto simp: transmitted_def)
    with q False show ?thesis
      by (auto simp: tx_loop.simps [of C t clk p] intro!: exI [of _ "Suc k"] intro: transmitted_trans)
  qed
qed

text \<open>\<open>obtained p p' later\<close>: whatever was expected is now queued or still expected.\<close>

definition obtained :: "('c, 'z) Peer_scheme \<Rightarrow> ('c, 'z) Peer_scheme \<Rightarrow> bytes \<Rightarrow> BinMessage list \<Rightarrow> bool" where
  "obtained p p' later ms \<longleftrightarrow> Streamer_inv com_ok (m_streamer p') \<and> same_tx outq p p' \<and>
     (\<exists>ms'. rx_msg_buffer p' @ ms' = rx_msg_buffer p @ ms \<and> rx_expects inq p' later ms') \<and>
     Comm_is_open C (m_com (m_streamer p')) = Comm_is_open C (m_com (m_streamer p)) \<and>
     m_packet_size (m_streamer p') = m_packet_size (m_streamer p)"

lemma rx_turn_ok:
  assumes inv: "Streamer_inv com_ok (m_streamer p)" and e: "rx_expects inq p later ms"
  obtains p' where "rx_turn C p = Some p'" and "obtained p p' later ms"
proof -
  define p1 where "p1 = (if m_init_deserializer p
      then p\<lparr>m_deserializer := BinDeserializer_init (Some (rx_msg p)) (m_deserializer p), m_init_deserializer := False\<rparr> else p)"
  have p1: "m_streamer p1 = m_streamer p" "same_tx outq p p1" "\<not> m_init_deserializer p1" "rx_msg_buffer p1 = rx_msg_buffer p"
    by (simp_all add: p1_def same_tx_def)
  have "bd_expects (m_deserializer p1) (in_stream inq (m_streamer p) @ later) ms"
    using e by (auto simp: rx_expects_def p1_def intro: bd_expects_init)
  from receive_expects [OF inv this] obtain b d s' n where
    r: "BinDeserializer_receive C (m_deserializer p1) (m_streamer p) = Some (b, d, s')" "consumed (m_streamer p) s' n"
      "b \<Longrightarrow> \<exists>m ms'. ms = m # ms' \<and> bd_pmsg d = Some m \<and> in_stream inq s' @ later = concat (map wire ms')"
      "\<not> b \<Longrightarrow> bd_expects d (in_stream inq s' @ later) ms" by blast
  have ok: "\<forall>m \<in> set ms. msg_ok m" using e by (auto simp: rx_expects_def bd_expects_def split: if_splits)
  let ?q = "p1\<lparr>m_deserializer := d, m_streamer := s', rx_msg := (case bd_pmsg d of None \<Rightarrow> rx_msg p1 | Some m \<Rightarrow> m)\<rparr>"
  let ?p' = "if b then ?q\<lparr>rx_msg_buffer := rx_msg_buffer ?q @ [rx_msg ?q], m_init_deserializer := True\<rparr> else ?q"
  have "rx_turn C p = Some ?p'" using r(1) p1(1) by (simp add: rx_turn_def Let_def flip: p1_def)
  moreover have "same_tx outq p ?p'"
    using p1(1,2) r(2) by (auto simp: same_tx_def consumed_def rx_frame_out_stream rx_frame_tx_bytes)
  moreover have "\<exists>ms'. rx_msg_buffer ?p' @ ms' = rx_msg_buffer p @ ms \<and> rx_expects inq ?p' later ms'"
    using r(3,4) p1 ok by (cases b) (auto simp: rx_expects_def)
  ultimately show thesis using r(2) p1(1)
    by (intro that [of ?p']) (auto simp: obtained_def consumed_def rx_frame_def)
qed

lemma obtained_trans: "obtained p q later ms \<Longrightarrow> rx_msg_buffer q @ ms' = rx_msg_buffer p @ ms \<Longrightarrow> obtained q r later ms' \<Longrightarrow> obtained p r later ms"
  by (auto simp: obtained_def intro: same_tx_trans)

lemma obtained_refl: "Streamer_inv com_ok (m_streamer p) \<Longrightarrow> rx_expects inq p later ms \<Longrightarrow> obtained p p later ms"
  by (auto simp: obtained_def same_tx_def)

lemma rx_loop_ok:
  assumes "Streamer_inv com_ok (m_streamer p)" and "rx_expects inq p later ms" and "expired_impl (clk !! n) t"
  shows "\<exists>p' k. rx_loop C t clk p = Some (p', sdrop k clk) \<and> obtained p p' later ms"
  using assms
proof (induction n arbitrary: clk p ms)
  case 0
  then show ?case by (auto simp: rx_loop.simps [of C t clk p] obtained_refl intro: exI [of _ 1])
next
  case (Suc n)
  show ?case
  proof (cases "expired_impl (shd clk) t")
    case True
    with Suc.prems show ?thesis by (auto simp: rx_loop.simps [of C t clk p] obtained_refl intro: exI [of _ 1])
  next
    case False
    obtain q where q: "rx_turn C p = Some q" "obtained p q later ms" using rx_turn_ok [OF Suc.prems(1,2)] .
    then obtain ms' where ms': "rx_msg_buffer q @ ms' = rx_msg_buffer p @ ms" "rx_expects inq q later ms'" by (auto simp: obtained_def)
    obtain p' k where "rx_loop C t (stl clk) q = Some (p', sdrop k (stl clk))" "obtained q p' later ms'"
      using Suc.IH [OF _ ms'(2), of "stl clk"] Suc.prems(3) q(2) by (auto simp: obtained_def)
    with q False ms' show ?thesis
      by (auto simp: rx_loop.simps [of C t clk p] intro!: exI [of _ "Suc k"] intro: obtained_trans)
  qed
qed

text \<open>The two phases of \<^verbatim>\<open>doLoop\<close> end when the clock runs on.\<close>

lemma rx_phase_ok:
  assumes "Streamer_inv com_ok (m_streamer p)" and "rx_expects inq p later ms" and "clock_runs clk" and "0 < tout"
  obtains p' clk' where "rx_phase C tout clk p = Some (p', clk')" and "obtained p p' later ms" and "clock_runs clk'"
proof -
  let ?t = "start_impl (shd clk) (preset_impl tout (TimeOutChrono_new 0))"
  obtain n where "expired_impl (stl clk !! n) ?t"
    using clock_runs_expires [OF clock_runs_stl [OF assms(3)], of ?t] assms(4) by (auto simp: start_impl_def preset_impl_def)
  from rx_loop_ok [OF assms(1,2) this] show thesis
    using clock_runs_sdrop [OF clock_runs_stl [OF assms(3)]] that by (auto simp: rx_phase_def)
qed

lemma transmitted_flush:
  assumes "transmitted p q" and "flush C (m_streamer q) = Some s" 
  shows "transmitted p (q\<lparr>m_streamer := s\<rparr>)"
proof -
  obtain s' where "flush C (m_streamer q) = Some s'" "Streamer_inv com_ok s'" "out_stream outq s' = out_stream outq (m_streamer q)" "tx_frame (m_streamer q) s'"
    using flush_ok [of "m_streamer q"] assms(1) by (auto simp: transmitted_def)
  with assms show ?thesis
    using tx_frame_in_stream [of "m_streamer q" s]
    by (simp add: transmitted_def same_rx_def) (simp add: tx_frame_def)
qed

lemma tx_phase_ok:
  assumes "Streamer_inv com_ok (m_streamer p)" and "tx_state_ok p" and "clock_runs clk" and "0 < tout"
  obtains p' clk' where "tx_phase C tout clk p = Some (p', clk')" and "transmitted p p'" and "clock_runs clk'"
proof -
  let ?t = "start_impl (shd clk) (preset_impl tout (TimeOutChrono_new 0))"
  obtain n where "expired_impl (stl clk !! n) ?t"
    using clock_runs_expires [OF clock_runs_stl [OF assms(3)], of ?t] assms(4) by (auto simp: start_impl_def preset_impl_def)
  from tx_loop_ok [OF assms(1,2) this] obtain q k where q: "tx_loop C ?t (stl clk) p = Some (q, sdrop k (stl clk))" "transmitted p q" by blast
  then obtain s where s: "flush C (m_streamer q) = Some s" using flush_ok [of "m_streamer q"] by (auto simp: transmitted_def)
  with q transmitted_flush [OF q(2) s] show thesis
    using clock_runs_sdrop [OF clock_runs_stl [OF assms(3)], of k]
    by (intro that [of "q\<lparr>m_streamer := s\<rparr>" "sdrop k (stl clk)"]) (simp_all add: tx_phase_def Let_def)
qed

end

end
