(* ===== verification/Progress.thy ===== *)
theory Progress
  imports Peer
begin

text \<open>
  Progress of the loops of \<^verbatim>\<open>doLoop\<close> (\<^verbatim>\<open>src/src/bmRPCServer.h\<close>, \<^verbatim>\<open>src/src/bmRPCClient.h\<close>) over a link of bounded
  capacity: with enough turns before the time-out, the transmit loop sends all that fits and the receive loop
  takes all that has arrived.
\<close>

locale bounded_byte_link = bounded_link C com_ok inq outq cap
  for C :: "(u8, 'c) comm" and com_ok :: "'c \<Rightarrow> bool" and inq outq :: "'c \<Rightarrow> bytes" and cap :: nat

sublocale bounded_byte_link \<subseteq> byte_link
  by unfold_locales

interpretation srv_link: bounded_byte_link ServerCom ServerCom_inv "in_content \<circ> srv_sb" "out_content \<circ> srv_sb" MAX_BUFFER_SIZE
  by unfold_locales

interpretation cln_link: bounded_byte_link ClientCom ClientCom_inv "out_content \<circ> cln_sb" "in_content \<circ> cln_sb" MAX_BUFFER_SIZE
  by unfold_locales

text \<open>The clock lets a loop that starts now and lasts \<open>tout\<close> milliseconds make \<open>n\<close> turns.\<close>

definition steady :: "int \<Rightarrow> nat \<Rightarrow> int stream \<Rightarrow> bool" where
  "steady tout n clk \<longleftrightarrow> (\<forall>k < n. clk !! Suc k < shd clk + tout * 1000000)"

text \<open>A clock that lets every loop, whenever it starts, make \<open>n\<close> turns.\<close>

definition timely :: "int \<Rightarrow> nat \<Rightarrow> int stream \<Rightarrow> bool" where
  "timely tout n clk \<longleftrightarrow> clock_runs clk \<and> (\<forall>k. steady tout n (sdrop k clk))"

lemma timely_sdrop: "timely tout n clk \<Longrightarrow> timely tout n (sdrop k clk)"
  by (simp add: timely_def clock_runs_sdrop sdrop_add)

lemma timelyD:
  assumes "timely tout n clk" and "m \<le> n"
  shows "clock_runs clk" and "steady tout m clk"
proof -
  have "steady tout n (sdrop 0 clk)" using assms(1) unfolding timely_def by blast
  with assms show "clock_runs clk" "steady tout m clk" by (simp_all add: timely_def steady_def)
qed

lemma timely_ticks: "int n * d < tout * 1000000 \<Longrightarrow> 0 < d \<Longrightarrow> timely tout n (ticks d)"
proof -
  assume n: "int n * d < tout * 1000000" and d: "0 < d"
  have "sdrop k (ticks d) !! Suc j < shd (sdrop k (ticks d)) + tout * 1000000" if "j < n" for k j
  proof -
    have "int (Suc j) * d \<le> int n * d" using that d by (intro mult_right_mono) simp_all
    moreover have "sdrop k (ticks d) !! Suc j = int k * d + int (Suc j) * d" "shd (sdrop k (ticks d)) = int k * d"
      by (simp_all add: algebra_simps flip: snth.simps)
    ultimately show ?thesis using n by linarith
  qed
  then show "timely tout n (ticks d)" using ticks_runs [OF d] by (simp add: timely_def steady_def)
qed

lemma steady_running:
  assumes "steady tout n clk" and "0 < tout" and "k < n"
  shows "\<not> expired_impl (stl clk !! k) (start_impl (shd clk) (preset_impl tout t))"
  using assms by (subst expired_iff) (auto simp: steady_def start_impl_def preset_impl_def)

section \<open>Receiving\<close>

lemma bd_run_pos: "bs \<noteq> [] \<Longrightarrow> bd_run d bs = (d', n) \<Longrightarrow> 0 < n"
  by (cases bs) (auto simp: Let_def split: if_splits prod.splits)

text \<open>Of the first message expected at least one byte is still to come.\<close>

lemma bd_expects_strict:
  assumes "bd_expects d S (m # ms)"
  shows "length (concat (map wire ms)) < length S"
proof (rule ccontr)
  obtain d0 c where e: "bd_start d0" "bd_run d0 c = (d, length c)" "bd_phase d \<noteq> BRX_END" "c @ S = wire m @ concat (map wire ms)" "msg_ok m"
    using assms by (auto simp: bd_expects_def)
  assume "\<not> length (concat (map wire ms)) < length S"
  then have "length (wire m) \<le> length c" using arg_cong [OF e(4), of length] unfolding length_append by linarith
  moreover have "take (length (wire m)) (c @ S) = wire m" unfolding e(4) by simp
  ultimately have "take (length (wire m)) c = wire m" by simp
  then obtain u where c: "c = wire m @ u" by (metis append_take_drop_id)
  obtain d' where "bd_run d0 (wire m @ u) = (d', length (wire m))" "bd_phase d' = BRX_END"
    using bd_run_wire [OF e(5,1)] by metis
  with e(2,3) c show False by simp
qed

text \<open>When nothing more is to come, nothing more is expected.\<close>

lemma bd_expects_Nil: "bd_expects d [] ms \<Longrightarrow> ms = []"
  by (cases ms) (auto dest: bd_expects_strict)

lemma rx_expects_Nil: "rx_expects inq p [] ms \<Longrightarrow> in_stream inq (m_streamer p) = [] \<Longrightarrow> ms = []"
  by (cases ms) (auto simp: rx_expects_def dest: bd_expects_Nil split: if_splits)

lemma rx_expects_strict:
  assumes "rx_expects inq p later (m # ms)"
  shows "length (concat (map wire ms)) < length (in_stream inq (m_streamer p)) + length later"
proof (cases "m_init_deserializer p")
  case True
  with assms have "in_stream inq (m_streamer p) @ later = wire m @ concat (map wire ms)" by (simp add: rx_expects_def)
  then have "length (in_stream inq (m_streamer p)) + length later = length (wire m) + length (concat (map wire ms))" by (metis length_append)
  moreover have "0 < length (wire m)" by simp
  ultimately show ?thesis by linarith
next
  case False
  with assms bd_expects_strict [of "m_deserializer p"] show ?thesis by (fastforce simp: rx_expects_def)
qed

context bounded_byte_link
begin

lemma receive_progress:
  assumes "Streamer_inv com_ok s" and "bd_ok d" and "bd_room d 1024"
    and r: "BinDeserializer_receive C d s = Some (b, d', s')"
  shows "in_stream inq s' = [] \<or> length (in_stream inq s') < length (in_stream inq s)"
proof -
  obtain s1 k d1 n s2 where c: "com_read C s = Some s1" "received s s1 k"
    "bd_run (d\<lparr>bd_len := of_nat (rx_count s1)\<rparr>) (rx_bytes s1) = (d1, n)" "consumed s s2 n"
    "bd_phase d1 \<noteq> BRX_END \<Longrightarrow> bd_ok d1"
    "BinDeserializer_receive C d s =
       Some (bd_phase d1 = BRX_END, if bd_phase d1 = BRX_END then d1\<lparr>bd_phase := BRX_IDLE\<rparr> else d1, s2)"
    using receive_ok [OF assms(1-3)] by blast
  have i: "in_stream inq s1 = in_stream inq s" using received_in_stream [OF c(2)] .
  have "s2 = s'" using c(6) r by simp
  then have d: "in_stream inq s' = drop n (in_stream inq s)" using c(4) by (simp add: consumed_def)
  show ?thesis
  proof (cases "in_stream inq s = []")
    case True
    with d show ?thesis by simp
  next
    case False
    have "rx_bytes s1 \<noteq> []"
    proof
      assume "rx_bytes s1 = []"
      then have "inq (m_com s1) = []" using com_read_progress [OF assms(1) c(1)] by (auto simp flip: length_rx_bytes)
      with \<open>rx_bytes s1 = []\<close> i False show False by (simp add: in_stream_def)
    qed
    then have "0 < n" using bd_run_pos c(3) by blast
    with d False show ?thesis by simp
  qed
qed

lemma rx_turn_progress:
  assumes inv: "Streamer_inv com_ok (m_streamer p)" and e: "rx_expects inq p later ms"
    and r: "rx_turn C p = Some p'"
  shows "in_stream inq (m_streamer p') = [] \<or> length (in_stream inq (m_streamer p')) < length (in_stream inq (m_streamer p))"
proof -
  define p1 where "p1 = (if m_init_deserializer p
      then p\<lparr>m_deserializer := BinDeserializer_init (Some (rx_msg p)) (m_deserializer p), m_init_deserializer := False\<rparr> else p)"
  have p1: "m_streamer p1 = m_streamer p" by (simp add: p1_def)
  have "bd_expects (m_deserializer p1) (in_stream inq (m_streamer p) @ later) ms"
    using e by (auto simp: rx_expects_def p1_def intro: bd_expects_init)
  note ok = bd_expects_ok [OF this]
  obtain b d s where s: "BinDeserializer_receive C (m_deserializer p1) (m_streamer p) = Some (b, d, s)" "m_streamer p' = s"
    using r p1 by (auto simp: rx_turn_def Let_def simp flip: p1_def elim!: bind_SomeE split: if_splits)
  then show ?thesis using receive_progress [OF inv ok s(1)] by simp
qed

lemma rx_loop_moves:
  assumes "Streamer_inv com_ok (m_streamer p)" and "rx_expects inq p later ms" and "expired_impl (clk !! n) t"
    and "\<And>k. k < b \<Longrightarrow> \<not> expired_impl (clk !! k) t"
  shows "\<exists>p' k. rx_loop C t clk p = Some (p', sdrop k clk) \<and> obtained p p' later ms \<and>
           length (in_stream inq (m_streamer p')) \<le> length (in_stream inq (m_streamer p)) - b"
  using assms
proof (induction n arbitrary: clk p ms b)
  case 0
  then have "b = 0" by (metis gr0I)
  with 0 show ?case by (auto simp: rx_loop.simps [of C t clk p] obtained_refl intro!: exI [of _ 1])
next
  case (Suc n)
  show ?case
  proof (cases "expired_impl (shd clk) t")
    case True
    then have "b = 0" using Suc.prems(4) [of 0] by auto
    with True Suc.prems(1,2) show ?thesis by (auto simp: rx_loop.simps [of C t clk p] obtained_refl intro!: exI [of _ 1])
  next
    case False
    obtain q where q: "rx_turn C p = Some q" "obtained p q later ms" using rx_turn_ok [OF Suc.prems(1,2)] .
    then obtain ms' where ms': "rx_msg_buffer q @ ms' = rx_msg_buffer p @ ms" "rx_expects inq q later ms'" by (auto simp: obtained_def)
    have inv: "Streamer_inv com_ok (m_streamer q)" using q(2) by (simp add: obtained_def)
    have l: "\<not> expired_impl (stl clk !! k) t" if "k < b - 1" for k
      using that Suc.prems(4) [of "Suc k"] by auto
    obtain p' k where r: "rx_loop C t (stl clk) q = Some (p', sdrop k (stl clk))" "obtained q p' later ms'"
      "length (in_stream inq (m_streamer p')) \<le> length (in_stream inq (m_streamer q)) - (b - 1)"
      using Suc.IH [OF inv ms'(2), of "stl clk" "b - 1"] l Suc.prems(3) by auto
    have "length (in_stream inq (m_streamer p')) \<le> length (in_stream inq (m_streamer p)) - b"
      using r(3) rx_turn_progress [OF Suc.prems(1,2) q(1)] by auto
    with r(1,2) q False ms' show ?thesis
      by (auto simp: rx_loop.simps [of C t clk p] intro!: exI [of _ "Suc k"] intro: obtained_trans)
  qed
qed

lemma rx_phase_moves:
  assumes "Streamer_inv com_ok (m_streamer p)" and "rx_expects inq p later ms" and "clock_runs clk" and "0 < tout"
    and "steady tout b clk"
  obtains p' k where "rx_phase C tout clk p = Some (p', sdrop k clk)" and "obtained p p' later ms"
    and "length (in_stream inq (m_streamer p')) \<le> length (in_stream inq (m_streamer p)) - b"
proof -
  let ?t = "start_impl (shd clk) (preset_impl tout (TimeOutChrono_new 0))"
  obtain n where n: "expired_impl (stl clk !! n) ?t"
    using clock_runs_expires [OF clock_runs_stl [OF assms(3)], of ?t] assms(4) by (auto simp: start_impl_def preset_impl_def)
  from rx_loop_moves [OF assms(1,2) n steady_running [OF assms(5,4)]] obtain p' k where
    "rx_loop C ?t (stl clk) p = Some (p', sdrop k (stl clk))" "obtained p p' later ms"
    "length (in_stream inq (m_streamer p')) \<le> length (in_stream inq (m_streamer p)) - b" by blast
  then show thesis by (intro that [of p' "Suc k"]) (simp_all add: rx_phase_def)
qed

lemma rx_phase_all:
  assumes "Streamer_inv com_ok (m_streamer p)" and "rx_expects inq p [] ms" and "clock_runs clk" and "0 < tout"
    and "steady tout (length (in_stream inq (m_streamer p))) clk"
  obtains p' k where "rx_phase C tout clk p = Some (p', sdrop k clk)" and "obtained p p' [] ms"
    and "rx_msg_buffer p' = rx_msg_buffer p @ ms" and "in_stream inq (m_streamer p') = []"
proof -
  obtain p' k where p: "rx_phase C tout clk p = Some (p', sdrop k clk)" "obtained p p' [] ms"
    "length (in_stream inq (m_streamer p')) \<le> length (in_stream inq (m_streamer p)) - length (in_stream inq (m_streamer p))"
    using rx_phase_moves [OF assms] .
  then obtain ms' where ms: "rx_msg_buffer p' @ ms' = rx_msg_buffer p @ ms" "rx_expects inq p' [] ms'" by (auto simp: obtained_def)
  have "in_stream inq (m_streamer p') = []" using p(3) by simp
  with p(1,2) ms rx_expects_Nil [OF ms(2)] show thesis by (intro that [of p' k]) simp_all
qed

end

section \<open>Transmitting\<close>

lemma bs_todo_active: "bs_active ser \<Longrightarrow> bs_todo ser \<noteq> []"
  using bs_activeD(1) [of ser] by (auto simp: bs_todo_def bs_active_def split: BTxPhase.splits)

lemma tx_todo_Nil: "tx_state_ok p \<Longrightarrow> tx_todo p = [] \<longleftrightarrow> tx_msg_buffer p = []"
  by (cases "tx_msg_buffer p") (auto simp: tx_todo_def tx_state_ok_def dest: bs_todo_active split: if_splits)

text \<open>The peer has nothing left to put into the link.\<close>

definition all_sent :: "('c, 'z) Peer_scheme \<Rightarrow> bool" where
  "all_sent p \<longleftrightarrow> tx_bytes (m_streamer p) = [] \<and> tx_todo p = []"

context byte_link
begin

lemma transmitted_total:
  "transmitted p q \<Longrightarrow> length (out_stream outq (m_streamer q)) + length (tx_todo q) = length (out_stream outq (m_streamer p)) + length (tx_todo p)"
  unfolding transmitted_def by (metis length_append)

lemma transmitted_grows: "transmitted p q \<Longrightarrow> length (out_stream outq (m_streamer p)) \<le> length (out_stream outq (m_streamer q))"
  using transmitted_total [of p q] by (auto simp: transmitted_def)

lemma tx_loop_moves:
  assumes "Streamer_inv com_ok (m_streamer p)" and "tx_state_ok p" and "expired_impl (clk !! n) t"
    and "\<And>k. k < b \<Longrightarrow> \<not> expired_impl (clk !! k) t"
  shows "\<exists>p' k. tx_loop C t clk p = Some (p', sdrop k clk) \<and> transmitted p p' \<and>
           (tx_msg_buffer p' = [] \<or> min 1024 (length (out_stream outq (m_streamer p)) + b) \<le> length (out_stream outq (m_streamer p')))"
  using assms
proof (induction n arbitrary: clk p b)
  case 0
  then have "b = 0" by (metis gr0I)
  with 0 show ?case
    by (cases "tx_msg_buffer p = []") (auto simp: tx_loop.simps [of C t clk p] transmitted_refl intro!: exI [of _ p] intro: exI [of _ 0] exI [of _ 1])
next
  case (Suc n)
  show ?case
  proof (cases "tx_msg_buffer p = [] \<or> expired_impl (shd clk) t")
    case True
    then have "tx_msg_buffer p = [] \<or> b = 0" using Suc.prems(4) [of 0] by auto
    with True Suc.prems(1,2) show ?thesis
      by (cases "tx_msg_buffer p = []") (auto simp: tx_loop.simps [of C t clk p] transmitted_refl intro!: exI [of _ p] intro: exI [of _ 0] exI [of _ 1])
  next
    case False
    obtain q where q: "tx_turn C p = Some q" "transmitted p q"
        "tx_count (m_streamer p) < 1024 \<Longrightarrow> length (tx_todo q) < length (tx_todo p)"
      using tx_turn_ok [OF Suc.prems(1,2)] False by metis
    have l: "\<not> expired_impl (stl clk !! k) t" if "k < b - 1" for k
      using that Suc.prems(4) [of "Suc k"] by auto
    obtain p' k where r: "tx_loop C t (stl clk) q = Some (p', sdrop k (stl clk))" "transmitted q p'"
      "tx_msg_buffer p' = [] \<or> min 1024 (length (out_stream outq (m_streamer q)) + (b - 1)) \<le> length (out_stream outq (m_streamer p'))"
      using Suc.IH [of q "stl clk" "b - 1"] l Suc.prems(3) q(2) by (auto simp: transmitted_def)
    have "min 1024 (length (out_stream outq (m_streamer p)) + 1) \<le> length (out_stream outq (m_streamer q))"
    proof (cases "tx_count (m_streamer p) < 1024")
      case True
      then show ?thesis using q(3) transmitted_total [OF q(2)] by auto
    next
      case False
      then have "1024 \<le> length (out_stream outq (m_streamer p))" unfolding out_stream_def length_append length_tx_bytes by linarith
      then show ?thesis using transmitted_grows [OF q(2)] by linarith
    qed
    then have "tx_msg_buffer p' = [] \<or> min 1024 (length (out_stream outq (m_streamer p)) + b) \<le> length (out_stream outq (m_streamer p'))"
      using r(3) by linarith
    with r(1,2) q(1,2) False show ?thesis
      by (auto simp: tx_loop.simps [of C t clk p] intro!: exI [of _ p'] exI [of _ "Suc k"] intro: transmitted_trans)
  qed
qed

end

context bounded_byte_link
begin

lemma tx_phase_moves:
  assumes "Streamer_inv com_ok (m_streamer p)" and "tx_state_ok p" and "clock_runs clk" and "0 < tout" and "steady tout b clk"
    and link: "Comm_is_open C (m_com (m_streamer p))" "0 < m_packet_size (m_streamer p)"
  obtains p' k where "tx_phase C tout clk p = Some (p', sdrop k clk)" and "transmitted p p'"
    and "tx_msg_buffer p' = [] \<or> min 1024 (length (out_stream outq (m_streamer p)) + b) \<le> length (out_stream outq (m_streamer p'))"
    and "tx_bytes (m_streamer p') = [] \<or> length (outq (m_com (m_streamer p'))) = cap"
proof -
  let ?t = "start_impl (shd clk) (preset_impl tout (TimeOutChrono_new 0))"
  obtain n where n: "expired_impl (stl clk !! n) ?t"
    using clock_runs_expires [OF clock_runs_stl [OF assms(3)], of ?t] assms(4) by (auto simp: start_impl_def preset_impl_def)
  from tx_loop_moves [OF assms(1,2) n steady_running [OF assms(5,4)]] obtain q k where
    q: "tx_loop C ?t (stl clk) p = Some (q, sdrop k (stl clk))" "transmitted p q"
      "tx_msg_buffer q = [] \<or> min 1024 (length (out_stream outq (m_streamer p)) + b) \<le> length (out_stream outq (m_streamer q))" by blast
  then obtain s where s: "flush C (m_streamer q) = Some s" using flush_ok [of "m_streamer q"] by (auto simp: transmitted_def)
  note t = transmitted_flush [OF q(2) s]
  have i: "Streamer_inv com_ok (m_streamer q)" "Comm_is_open C (m_com (m_streamer q))" "0 < m_packet_size (m_streamer q)"
    using q(2) link by (simp_all add: transmitted_def)
  have "out_stream outq s = out_stream outq (m_streamer q)" using flush_ok [OF i(1)] s by auto
  moreover have "tx_bytes s = [] \<or> length (outq (m_com s)) = cap" using flush_progress [OF i s] by (auto simp flip: length_0_conv)
  ultimately show thesis using q(1,3) s t by (intro that [of "q\<lparr>m_streamer := s\<rparr>" "Suc k"]) (simp_all add: tx_phase_def Let_def)
qed

lemma tx_phase_all:
  assumes "Streamer_inv com_ok (m_streamer p)" and "tx_state_ok p" and "clock_runs clk" and "0 < tout"
    and "steady tout (length (tx_todo p)) clk" and fits: "length (out_stream outq (m_streamer p)) + length (tx_todo p) \<le> cap" "cap \<le> 1024"
    and link: "Comm_is_open C (m_com (m_streamer p))" "0 < m_packet_size (m_streamer p)"
  obtains p' k where "tx_phase C tout clk p = Some (p', sdrop k clk)" and "transmitted p p'"
    and "tx_msg_buffer p' = []" and "tx_bytes (m_streamer p') = []" and "tx_todo p' = []"
proof -
  obtain p' k where p: "tx_phase C tout clk p = Some (p', sdrop k clk)" "transmitted p p'"
    "tx_msg_buffer p' = [] \<or> min 1024 (length (out_stream outq (m_streamer p)) + length (tx_todo p)) \<le> length (out_stream outq (m_streamer p'))"
    "tx_bytes (m_streamer p') = [] \<or> length (outq (m_com (m_streamer p'))) = cap"
    using tx_phase_moves [OF assms(1-5) link] .
  have nil: "tx_todo p' = [] \<longleftrightarrow> tx_msg_buffer p' = []" using p(2) tx_todo_Nil by (auto simp: transmitted_def)
  have "length (tx_todo p') = 0" if "tx_msg_buffer p' \<noteq> []" using that p(3) transmitted_total [OF p(2)] fits by linarith
  with nil have todo: "tx_todo p' = []" by auto
  then have "tx_bytes (m_streamer p') = []" using p(4) transmitted_total [OF p(2)] fits by (auto simp: out_stream_def simp flip: length_0_conv)
  with p(1,2) todo nil show thesis by (intro that [of p' k]) simp_all
qed

text \<open>A phase with a turn for each byte of the link's capacity sends everything or fills the link.\<close>

lemma tx_phase_fills:
  assumes "Streamer_inv com_ok (m_streamer p)" and "tx_state_ok p" and "clock_runs clk" and "0 < tout" and "steady tout cap clk" and "cap \<le> 1024"
    and link: "Comm_is_open C (m_com (m_streamer p))" "0 < m_packet_size (m_streamer p)"
  obtains p' k where "tx_phase C tout clk p = Some (p', sdrop k clk)" and "transmitted p p'"
    and "all_sent p' \<or> cap \<le> length (outq (m_com (m_streamer p')))"
proof -
  obtain p' k where p: "tx_phase C tout clk p = Some (p', sdrop k clk)" "transmitted p p'"
    "tx_msg_buffer p' = [] \<or> min 1024 (length (out_stream outq (m_streamer p)) + cap) \<le> length (out_stream outq (m_streamer p'))"
    "tx_bytes (m_streamer p') = [] \<or> length (outq (m_com (m_streamer p'))) = cap"
    using tx_phase_moves [OF assms(1-5) link] .
  have nil: "tx_todo p' = [] \<longleftrightarrow> tx_msg_buffer p' = []" using p(2) tx_todo_Nil by (auto simp: transmitted_def)
  have "all_sent p' \<or> cap \<le> length (outq (m_com (m_streamer p')))"
  proof (cases "tx_bytes (m_streamer p') = []")
    case True
    then have "out_stream outq (m_streamer p') = outq (m_com (m_streamer p'))" by (simp add: out_stream_def)
    then show ?thesis using True p(3) nil assms(6) unfolding all_sent_def by fastforce
  next
    case False
    then show ?thesis using p(4) by simp
  qed
  with p(1,2) show thesis by (intro that [of p' k])
qed

end

end
