(* ===== verification/Wire_Properties.thy ===== *)
theory Wire_Properties
  imports Progress Link_Properties
begin

text \<open>
  The properties of the messages on the wire: the serializer and the deserializer over a link that satisfies
  the contract, and the transmit and receive loops of the two peers.
\<close>

section \<open>Examples\<close>

text \<open>A message, a streamer on the open loop-back link, and a peer that has the message to send.\<close>

definition small_msg :: BinMessage where
  "small_msg = \<lparr>bm_name = [102], bm_id = 1, bm_value = [7, 8]\<rparr>"

lemma small_msg_ok: "msg_ok small_msg" and small_msg_wire: "length (wire small_msg) = 14"
  by (simp_all add: small_msg_def msg_ok_def wire_def c_str_def)

definition ready_streamer :: "(u8, u8 ServerCom) Streamer" where
  "ready_streamer = server_streamer\<lparr>m_com := snd (ServerCom_open_impl (ServerCom_new SharedBuffer_new))\<rparr>"

lemma ready_streamer_inv: "Streamer_inv ServerCom_inv ready_streamer"
  using server_streamer_inv
  by (simp add: ready_streamer_def server_streamer_def Streamer_new_def Streamer_inv_def tx_ok_def rx_ok_def ring_ok_def
      ServerCom_open_impl_def ServerCom_inv_def)

lemma ready_streamer_streams [simp]:
  "out_stream (out_content \<circ> srv_sb) ready_streamer = []" "in_stream (in_content \<circ> srv_sb) ready_streamer = []"
  "Comm_is_open ServerCom (m_com ready_streamer)" "0 < m_packet_size ready_streamer" "tx_count ready_streamer = 0"
  by (simp_all add: ready_streamer_def server_streamer_def Streamer_new_def out_stream_def in_stream_def tx_bytes_def rx_bytes_def
      tx_count_def rx_count_def ring_count_def ServerCom_open_impl_def ServerCom_new_def ServerCom_def ServerCom_is_open_impl_def
      ServerCom_get_packet_size_impl_def)

definition ready_peer :: "BinMessage list \<Rightarrow> u8 ServerCom Peer" where
  "ready_peer ms =
     \<lparr>tx_msg_buffer = ms, rx_msg_buffer = [], m_init_deserializer = True, m_init_serializer = True,
      m_streamer = ready_streamer, m_deserializer = BinDeserializer_new, m_serializer = BinSerializer_new,
      tx_msg = BinMessage_new, rx_msg = BinMessage_new\<rparr>"

lemma ready_peer_simps [simp]:
  "m_streamer (ready_peer ms) = ready_streamer" "tx_msg_buffer (ready_peer ms) = ms" "rx_msg_buffer (ready_peer ms) = []"
  "tx_todo (ready_peer ms) = concat (map wire ms)" "tx_state_ok (ready_peer ms) \<longleftrightarrow> (\<forall>m \<in> set ms. msg_ok m)"
  by (simp_all add: ready_peer_def tx_todo_def tx_state_ok_def)

section \<open>Serializer and deserializer\<close>

context byte_link
begin

lemma send_layout:
  assumes "Streamer_inv com_ok s" and "bs_active ser"
  shows "\<exists>b t s'. BinSerializer_send C ser s = Some (b, t, s') \<and> Streamer_inv com_ok s' \<and>
            out_stream outq s' @ bs_todo t = out_stream outq s @ bs_todo ser \<and> in_stream inq s' = in_stream inq s \<and>
            (if b then bs_todo t = [] else bs_active t) \<and>
            (tx_count s < 1024 \<longrightarrow> length (bs_todo t) < length (bs_todo ser))"
proof -
  obtain b t s' where "BinSerializer_send C ser s = Some (b, t, s')"
    "if b then bs_phase t = BTX_IDLE \<and> bs_todo t = [] else bs_active t" "sent s s' (bs_todo ser) (bs_todo t)"
    using send_ok [OF assms] by metis
  then show ?thesis using tx_frame_in_stream [of s s']
    by (intro exI [of _ b] exI [of _ t] exI [of _ s']) (auto simp: sent_def)
qed

lemma receive_next:
  assumes "Streamer_inv com_ok s" and "bd_expects d (in_stream inq s @ later) ms"
  shows "\<exists>b d' s'. BinDeserializer_receive C d s = Some (b, d', s') \<and> Streamer_inv com_ok s' \<and> out_stream outq s' = out_stream outq s \<and>
           (if b then \<exists>ms'. ms = the (bd_pmsg d') # ms' \<and> in_stream inq s' @ later = concat (map wire ms')
            else bd_expects d' (in_stream inq s' @ later) ms)"
proof -
  obtain b d' s' n where r: "BinDeserializer_receive C d s = Some (b, d', s')" "consumed s s' n"
    "b \<Longrightarrow> \<exists>m ms'. ms = m # ms' \<and> bd_pmsg d' = Some m \<and> in_stream inq s' @ later = concat (map wire ms')"
    "\<not> b \<Longrightarrow> bd_expects d' (in_stream inq s' @ later) ms"
    using receive_expects [OF assms] by blast
  then have "Streamer_inv com_ok s'" "out_stream outq s' = out_stream outq s" by (simp_all add: consumed_def rx_frame_out_stream)
  with r show ?thesis by (intro exI [of _ b] exI [of _ d'] exI [of _ s']) auto
qed

lemma receive_whole:
  assumes inv: "Streamer_inv com_ok s" and m: "msg_ok m" and d: "bd_start d"
    and i: "in_stream inq s = wire m @ rest" and l: "length (wire m) \<le> rx_count s"
  shows "\<exists>d' s'. BinDeserializer_receive C d s = Some (True, d', s') \<and> bd_pmsg d' = Some m \<and> Streamer_inv com_ok s' \<and>
           in_stream inq s' = rest \<and> out_stream outq s' = out_stream outq s"
proof -
  have room: "bd_room d 1024" using d by (auto simp: bd_start_def bd_room_def)
  obtain s1 k d1 n s' where r: "com_read C s = Some s1" "received s s1 k"
    "bd_run (d\<lparr>bd_len := of_nat (rx_count s1)\<rparr>) (rx_bytes s1) = (d1, n)" "consumed s s' n"
    "bd_phase d1 \<noteq> BRX_END \<Longrightarrow> bd_ok d1"
    "BinDeserializer_receive C d s =
           Some (bd_phase d1 = BRX_END, if bd_phase d1 = BRX_END then d1\<lparr>bd_phase := BRX_IDLE\<rparr> else d1, s')"
    using receive_ok [OF inv bd_ok_start [OF d] room] by blast
  have "take (rx_count s1) (in_stream inq s) = rx_bytes s1" "rx_count s \<le> rx_count s1" using received_prefix [OF r(2)] .
  then have "rx_bytes s1 = wire m @ take (rx_count s1 - length (wire m)) rest" using i l by simp
  then obtain d2 where "bd_run (d\<lparr>bd_len := of_nat (rx_count s1)\<rparr>) (rx_bytes s1) = (d2, length (wire m))" "bd_phase d2 = BRX_END" "bd_pmsg d2 = Some m"
    using bd_run_wire [OF m, of "d\<lparr>bd_len := of_nat (rx_count s1)\<rparr>"] d by (metis bd_start_len)
  then have "d1 = d2" "n = length (wire m)" "bd_phase d1 = BRX_END" "bd_pmsg d1 = Some m" using r(3) by auto
  with r(4,6) i show ?thesis by (auto simp: consumed_def rx_frame_out_stream)
qed

end

text \<open>C10. \<^verbatim>\<open>Serializer::send\<close> may be called at any time: what it has put into the stream followed by what it still has to
  put is at every moment the layout of the message, it reports the end exactly when nothing is left, and
  it makes progress whenever the transmit buffer has room.\<close>

theorem send_writes_layout:
  assumes "byte_link C com_ok inq outq" and "Streamer_inv com_ok s" and "bs_active ser"
  shows "\<exists>b t s'. BinSerializer_send C ser s = Some (b, t, s') \<and> Streamer_inv com_ok s' \<and>
            out_stream outq s' @ bs_todo t = out_stream outq s @ bs_todo ser \<and> in_stream inq s' = in_stream inq s \<and>
            (if b then bs_todo t = [] else bs_active t) \<and>
            (tx_count s < 1024 \<longrightarrow> length (bs_todo t) < length (bs_todo ser))"
  by (rule byte_link.send_layout [OF assms])

theorem send_writes_layout_witness:
  "\<exists>b t s'. BinSerializer_send ServerCom (BinSerializer_init (Some small_msg) BinSerializer_new) ready_streamer = Some (b, t, s') \<and>
     out_stream (out_content \<circ> srv_sb) s' @ bs_todo t = wire small_msg \<and> length (bs_todo t) < 14"
proof -
  have "bs_active (BinSerializer_init (Some small_msg) BinSerializer_new)"
    "bs_todo (BinSerializer_init (Some small_msg) BinSerializer_new) = wire small_msg"
    using init_active [OF small_msg_ok] by auto
  note a = this
  from send_writes_layout [OF srv_bytes.byte_link_axioms ready_streamer_inv a(1)] a(2) show ?thesis by (auto simp: small_msg_wire)
qed




text \<open>A streamer whose receive buffer holds the layout of the message.\<close>

definition full_streamer :: "(u8, u8 ServerCom) Streamer" where
  "full_streamer = ready_streamer\<lparr>m_rx_buffer := wire small_msg @ replicate 1010 0, m_rx_in := 14\<rparr>"

lemma full_streamer_inv: "Streamer_inv ServerCom_inv full_streamer"
  using ready_streamer_inv by (simp add: full_streamer_def Streamer_inv_def tx_ok_def rx_ok_def ring_ok_def small_msg_wire)
    (simp add: ready_streamer_def server_streamer_def Streamer_new_def)

lemma full_streamer_content: "rx_count full_streamer = 14" "in_stream (in_content \<circ> srv_sb) full_streamer = wire small_msg"
proof -
  show c: "rx_count full_streamer = 14"
    by (simp add: full_streamer_def ready_streamer_def server_streamer_def Streamer_new_def rx_count_def ring_count_def)
  have "rx_bytes full_streamer = ring (wire small_msg @ replicate 1010 0) 0 14"
    using c by (simp add: rx_bytes_def) (simp add: full_streamer_def ready_streamer_def server_streamer_def Streamer_new_def)
  then have "rx_bytes full_streamer = wire small_msg" by (simp add: ring_contiguous small_msg_wire)
  moreover have "in_content (srv_sb (m_com full_streamer)) = []"
    by (simp add: full_streamer_def ready_streamer_def server_streamer_def Streamer_new_def ServerCom_open_impl_def ServerCom_new_def)
  ultimately show "in_stream (in_content \<circ> srv_sb) full_streamer = wire small_msg" by (simp add: in_stream_def)
qed


section \<open>The loops of the peers\<close>

context byte_link
begin

lemma tx_phase_stream:
  assumes "Streamer_inv com_ok (m_streamer p)" and "tx_state_ok p" and "clock_runs clk" and "0 < tout"
  shows "\<exists>p' clk'. tx_phase C tout clk p = Some (p', clk') \<and> clock_runs clk' \<and> Streamer_inv com_ok (m_streamer p') \<and> tx_state_ok p' \<and>
           out_stream outq (m_streamer p') @ tx_todo p' = out_stream outq (m_streamer p) @ tx_todo p \<and>
           in_stream inq (m_streamer p') = in_stream inq (m_streamer p) \<and> rx_msg_buffer p' = rx_msg_buffer p"
proof -
  obtain p' clk' where "tx_phase C tout clk p = Some (p', clk')" "transmitted p p'" "clock_runs clk'"
    using tx_phase_ok [OF assms] .
  then show ?thesis by (auto simp: transmitted_def same_rx_def)
qed

lemma rx_phase_stream:
  assumes "Streamer_inv com_ok (m_streamer p)" and "rx_expects inq p later ms" and "clock_runs clk" and "0 < tout"
  shows "\<exists>p' clk' ms'. rx_phase C tout clk p = Some (p', clk') \<and> clock_runs clk' \<and> Streamer_inv com_ok (m_streamer p') \<and>
           rx_msg_buffer p' @ ms' = rx_msg_buffer p @ ms \<and> rx_expects inq p' later ms' \<and>
           out_stream outq (m_streamer p') = out_stream outq (m_streamer p) \<and> tx_msg_buffer p' = tx_msg_buffer p"
proof -
  obtain p' clk' where r: "rx_phase C tout clk p = Some (p', clk')" "obtained p p' later ms" "clock_runs clk'"
    using rx_phase_ok [OF assms] .
  then obtain ms' where "rx_msg_buffer p' @ ms' = rx_msg_buffer p @ ms" "rx_expects inq p' later ms'" by (auto simp: obtained_def)
  with r show ?thesis by (intro exI [of _ p'] exI [of _ clk'] exI [of _ ms']) (simp add: obtained_def same_tx_def)
qed

end

context bounded_byte_link
begin

lemma tx_phase_drains:
  assumes "Streamer_inv com_ok (m_streamer p)" and "tx_state_ok p" and "clock_runs clk" and "0 < tout"
    and "steady tout (length (tx_todo p)) clk" and "length (out_stream outq (m_streamer p)) + length (tx_todo p) \<le> cap" and "cap \<le> 1024"
    and "Comm_is_open C (m_com (m_streamer p))" and "0 < m_packet_size (m_streamer p)"
  shows "\<exists>p' clk'. tx_phase C tout clk p = Some (p', clk') \<and> tx_msg_buffer p' = [] \<and>
           outq (m_com (m_streamer p')) = out_stream outq (m_streamer p) @ tx_todo p"
proof -
  obtain p' clk' where "tx_phase C tout clk p = Some (p', clk')" "transmitted p p'" "tx_msg_buffer p' = []" "tx_bytes (m_streamer p') = []" "tx_todo p' = []"
    using tx_phase_all [OF assms] by metis
  then show ?thesis by (auto simp: transmitted_def out_stream_def)
qed

lemma rx_phase_drains:
  assumes "Streamer_inv com_ok (m_streamer p)" and "rx_expects inq p [] ms" and "clock_runs clk" and "0 < tout"
    and "steady tout (length (in_stream inq (m_streamer p))) clk"
  shows "\<exists>p' clk'. rx_phase C tout clk p = Some (p', clk') \<and> rx_msg_buffer p' = rx_msg_buffer p @ ms \<and> in_stream inq (m_streamer p') = []"
  using rx_phase_all [OF assms] by metis

end

text \<open>C12. The transmit part of \<^verbatim>\<open>doLoop\<close> ends when the clock runs on; the bytes in the outgoing stream followed by the
  layouts of what is queued are the same before and after it, and it does not touch the receiving side.\<close>

theorem tx_phase_preserves:
  assumes "byte_link C com_ok inq outq" and "Streamer_inv com_ok (m_streamer p)" and "tx_state_ok p" and "clock_runs clk" and "0 < tout"
  shows "\<exists>p' clk'. tx_phase C tout clk p = Some (p', clk') \<and> clock_runs clk' \<and> Streamer_inv com_ok (m_streamer p') \<and> tx_state_ok p' \<and>
           out_stream outq (m_streamer p') @ tx_todo p' = out_stream outq (m_streamer p) @ tx_todo p \<and>
           in_stream inq (m_streamer p') = in_stream inq (m_streamer p) \<and> rx_msg_buffer p' = rx_msg_buffer p"
  by (rule byte_link.tx_phase_stream [OF assms])

theorem tx_phase_preserves_witness:
  "\<exists>p' clk'. tx_phase ServerCom 5 (ticks 1000) (ready_peer [small_msg]) = Some (p', clk') \<and>
     out_stream (out_content \<circ> srv_sb) (m_streamer p') @ tx_todo p' = wire small_msg"
proof -
  have "Streamer_inv ServerCom_inv (m_streamer (ready_peer [small_msg]))" "tx_state_ok (ready_peer [small_msg])" "clock_runs (ticks 1000)" "(0 :: int) < 5"
    by (simp_all add: ready_streamer_inv small_msg_ok ticks_runs)
  from tx_phase_preserves [OF srv_bytes.byte_link_axioms this] show ?thesis by auto
qed

text \<open>C13. The receive part of \<^verbatim>\<open>doLoop\<close> ends when the clock runs on; the messages queued followed by the messages still on
  their way are the same before and after it, and it does not touch the transmitting side.\<close>

theorem rx_phase_preserves:
  assumes "byte_link C com_ok inq outq" and "Streamer_inv com_ok (m_streamer p)" and "rx_expects inq p later ms" and "clock_runs clk" and "0 < tout"
  shows "\<exists>p' clk' ms'. rx_phase C tout clk p = Some (p', clk') \<and> clock_runs clk' \<and> Streamer_inv com_ok (m_streamer p') \<and>
           rx_msg_buffer p' @ ms' = rx_msg_buffer p @ ms \<and> rx_expects inq p' later ms' \<and>
           out_stream outq (m_streamer p') = out_stream outq (m_streamer p) \<and> tx_msg_buffer p' = tx_msg_buffer p"
  by (rule byte_link.rx_phase_stream [OF assms])

theorem rx_phase_preserves_witness:
  "\<exists>p' clk' ms'. rx_phase ServerCom 5 (ticks 1000) (ready_peer []) = Some (p', clk') \<and> rx_msg_buffer p' @ ms' = [small_msg]"
proof -
  have "Streamer_inv ServerCom_inv (m_streamer (ready_peer []))" "rx_expects (in_content \<circ> srv_sb) (ready_peer []) (wire small_msg) [small_msg]"
    "clock_runs (ticks 1000)" "(0 :: int) < 5"
    by (simp_all add: ready_streamer_inv small_msg_ok ticks_runs rx_expects_def) (simp add: ready_peer_def)
  from rx_phase_preserves [OF srv_bytes.byte_link_axioms this] show ?thesis by auto
qed

text \<open>C14. Liveness of the transmit part: over an open link with room for everything that is queued, and with a turn for each
  byte before the time-out, the queue is empty at the end and the link holds the layouts of all of it.\<close>

theorem tx_phase_sends_all:
  assumes "bounded_byte_link C com_ok inq outq cap" and "Streamer_inv com_ok (m_streamer p)" and "tx_state_ok p" and "clock_runs clk" and "0 < tout"
    and "steady tout (length (tx_todo p)) clk" and "length (out_stream outq (m_streamer p)) + length (tx_todo p) \<le> cap" and "cap \<le> 1024"
    and "Comm_is_open C (m_com (m_streamer p))" and "0 < m_packet_size (m_streamer p)"
  shows "\<exists>p' clk'. tx_phase C tout clk p = Some (p', clk') \<and> tx_msg_buffer p' = [] \<and>
           outq (m_com (m_streamer p')) = out_stream outq (m_streamer p) @ tx_todo p"
  by (rule bounded_byte_link.tx_phase_drains [OF assms])

lemma steady_ticks: "int n * 1000 < tout * 1000000 \<Longrightarrow> steady tout n (ticks 1000)"
  by (auto simp: steady_def simp del: snth.simps)

theorem tx_phase_sends_all_witness:
  "\<exists>p' clk'. tx_phase ServerCom 5 (ticks 1000) (ready_peer [small_msg]) = Some (p', clk') \<and> tx_msg_buffer p' = [] \<and>
     out_content (srv_sb (m_com (m_streamer p'))) = wire small_msg"
proof -
  have "Streamer_inv ServerCom_inv (m_streamer (ready_peer [small_msg]))" "tx_state_ok (ready_peer [small_msg])" "clock_runs (ticks 1000)" "(0 :: int) < 5"
    "steady 5 (length (tx_todo (ready_peer [small_msg]))) (ticks 1000)"
    "length (out_stream (out_content \<circ> srv_sb) (m_streamer (ready_peer [small_msg]))) + length (tx_todo (ready_peer [small_msg])) \<le> MAX_BUFFER_SIZE"
    "MAX_BUFFER_SIZE \<le> 1024" "Comm_is_open ServerCom (m_com (m_streamer (ready_peer [small_msg])))" "0 < m_packet_size (m_streamer (ready_peer [small_msg]))"
    by (simp_all add: ready_streamer_inv small_msg_ok ticks_runs small_msg_wire steady_ticks MAX_BUFFER_SIZE_def)
  from tx_phase_sends_all [OF srv_link.bounded_byte_link_axioms this] show ?thesis by auto
qed

text \<open>C15. Liveness of the receive part: when the link holds whole messages and there is a turn for each byte before the
  time-out, all of them are queued at the end and nothing is left in the stream.\<close>

theorem rx_phase_receives_all:
  assumes "bounded_byte_link C com_ok inq outq cap" and "Streamer_inv com_ok (m_streamer p)" and "rx_expects inq p [] ms" and "clock_runs clk" and "0 < tout"
    and "steady tout (length (in_stream inq (m_streamer p))) clk"
  shows "\<exists>p' clk'. rx_phase C tout clk p = Some (p', clk') \<and> rx_msg_buffer p' = rx_msg_buffer p @ ms \<and> in_stream inq (m_streamer p') = []"
  by (rule bounded_byte_link.rx_phase_drains [OF assms])

theorem rx_phase_receives_all_witness:
  "\<exists>p' clk'. rx_phase ServerCom 5 (ticks 1000) (ready_peer []\<lparr>m_streamer := full_streamer\<rparr>) = Some (p', clk') \<and>
     rx_msg_buffer p' = [small_msg]"
proof -
  let ?p = "ready_peer []\<lparr>m_streamer := full_streamer\<rparr>"
  have "Streamer_inv ServerCom_inv (m_streamer ?p)" "rx_expects (in_content \<circ> srv_sb) ?p [] [small_msg]"
    "clock_runs (ticks 1000)" "(0 :: int) < 5" "steady 5 (length (in_stream (in_content \<circ> srv_sb) (m_streamer ?p))) (ticks 1000)"
    by (simp_all add: full_streamer_inv full_streamer_content small_msg_ok small_msg_wire ticks_runs rx_expects_def steady_ticks)
      (simp add: ready_peer_def)
  from rx_phase_receives_all [OF srv_link.bounded_byte_link_axioms this] show ?thesis by auto
qed

end
