(* ===== verification/Byteswap.thy ===== *)
theory Byteswap
  imports Prelude
begin

text \<open>
  The byte order of the arguments (\<^verbatim>\<open>stream\<close> in \<^verbatim>\<open>src/src/bmRPCAnyArg.h\<close>): the swap by shifts, used for
  integers, the swap through a union, used for floating-point values, and the reading and writing of
  scalars in a byte vector. A \<^verbatim>\<open>float\<close> or \<^verbatim>\<open>double\<close> is the word of its representation. \<open>to_swap\<close> and
  \<^verbatim>\<open>LOOP_BACK_TEST\<close> are set, as in \<^verbatim>\<open>src/src/bmRPC.h\<close>.
\<close>

section \<open>The two swaps\<close>

definition sta_byteswap_impl :: "nat \<Rightarrow> 'a::len word \<Rightarrow> 'a word" where
  "sta_byteswap_impl n i =
     foldr (\<lambda>N r. push_bit ((n - 1 - N) * 8) (drop_bit (N * 8) i AND 255) OR r) [0..<n] 0"

definition sta_byteswap :: "'a::len word \<Rightarrow> 'a word" where
  "sta_byteswap i = sta_byteswap_impl (LENGTH('a) div 8) i"

definition dyn_byteswap :: "'a::len word \<Rightarrow> 'a word" where
  "dyn_byteswap value = word_of (rev (bytes_of (LENGTH('a) div 8) value))"

section \<open>Scalars in a byte vector\<close>

definition write_char :: "bytes \<Rightarrow> u8 \<Rightarrow> bytes" where
  "write_char s data = s @ [data]"

definition write_int :: "bytes \<Rightarrow> 'a::len word \<Rightarrow> bytes" where
  "write_int s data = s @ bytes_of (LENGTH('a) div 8) (sta_byteswap data)"

definition write_float :: "bytes \<Rightarrow> 'a::len word \<Rightarrow> bytes" where
  "write_float s data = s @ bytes_of (LENGTH('a) div 8) (dyn_byteswap data)"

text \<open>The object copied from the vector, byte by byte; out of range is undefined.\<close>

definition copy_object :: "bytes \<Rightarrow> 'a::len word option" where
  "copy_object s =
     (if LENGTH('a) div 8 \<le> length s then Some (word_of (take (LENGTH('a) div 8) s)) else None)"

definition read_char :: "bytes \<Rightarrow> u8 option" where
  "read_char s = (case s of [] \<Rightarrow> None | b # _ \<Rightarrow> Some b)"

definition read_int :: "bytes \<Rightarrow> 'a::len word option" where
  "read_int s = do { data \<leftarrow> copy_object s; Some (sta_byteswap data) }"

definition read_float :: "bytes \<Rightarrow> 'a::len word option" where
  "read_float s = do { data \<leftarrow> copy_object s; Some (dyn_byteswap data) }"

section \<open>Properties of the swaps\<close>

lemma nth_bytes_of: "j < n \<Longrightarrow> bytes_of n w ! j = ucast (drop_bit (8 * j) w)"
proof (induction n arbitrary: w j)
  case (Suc n)
  then show ?case by (cases j) (simp_all add: drop_bit_drop_bit add.commute)
qed simp

lemma bit_word_of:
  "bit (word_of bs :: 'a::len word) k \<longleftrightarrow> k < LENGTH('a) \<and> k div 8 < length bs \<and> bit (bs ! (k div 8)) (k mod 8)"
proof (induction bs arbitrary: k)
  case (Cons b bs)
  show ?case
  proof (cases "k < 8")
    case True
    then show ?thesis by (auto simp: bit_simps dest: bit_imp_le_length)
  next
    case False
    then have "k div 8 = Suc ((k - 8) div 8)" "(k - 8) mod 8 = k mod 8" by (simp_all add: le_div_geq le_mod_geq)
    moreover have "\<not> bit b k" using False bit_imp_le_length [of b k] by auto
    ultimately show ?thesis using False by (auto simp: bit_simps Cons)
  qed
qed simp

lemma bit_sta_fold:
  "bit (foldr (\<lambda>N r. f N OR r) Ns (0 :: 'a::len word)) k \<longleftrightarrow> (\<exists>N \<in> set Ns. bit (f N) k)"
  by (induction Ns) (auto simp: bit_simps)

lemma and_255: "w AND 255 = take_bit 8 (w :: 'a::len word)"
  by (simp add: take_bit_eq_mask mask_eq_exp_minus_1)

lemma sta_byteswap_impl_rev:
  assumes "LENGTH('a::len) = 8 * n"
  shows "sta_byteswap_impl n (w :: 'a word) = word_of (rev (bytes_of n w))"
proof (rule bit_word_eqI)
  fix k assume k: "k < LENGTH('a)"
  then have q: "k div 8 < n" using assms by auto
  let ?N = "n - 1 - k div 8"
  have r: "rev (bytes_of n w) ! (k div 8) = ucast (drop_bit (8 * ?N) w)" using q by (simp add: rev_nth nth_bytes_of)
  have "bit (push_bit ((n - 1 - N) * 8) (drop_bit (N * 8) w AND 255)) k \<longleftrightarrow> N = ?N \<and> bit w (N * 8 + k mod 8)"
    if N: "N < n" for N
  proof -
    have *: "(n - 1 - N) * 8 \<le> k \<and> k - (n - 1 - N) * 8 < 8 \<longleftrightarrow> n - 1 - N = k div 8" by auto
    show ?thesis
    proof (cases "n - 1 - N = k div 8")
      case True
      then have "k - (n - 1 - N) * 8 = k mod 8" "(n - 1 - N) * 8 \<le> k" by (simp_all add: minus_div_mult_eq_mod)
      moreover have "N = ?N" using True N q by auto
      moreover have "k mod 8 < LENGTH('a)" using k by (meson le_less_trans mod_less_eq_dividend)
      ultimately show ?thesis using k by (auto simp: bit_simps and_255)
    next
      case False
      with N q have "N \<noteq> ?N" by auto
      with * False show ?thesis by (auto simp: bit_simps and_255)
    qed
  qed
  then have "bit (sta_byteswap_impl n w) k \<longleftrightarrow> bit w (?N * 8 + k mod 8)"
    using q unfolding sta_byteswap_impl_def bit_sta_fold by (auto intro!: bexI [of _ ?N])
  also have "\<dots> \<longleftrightarrow> bit (word_of (rev (bytes_of n w)) :: 'a word) k"
    unfolding bit_word_of r using k q by (auto simp: bit_simps mult.commute add.commute)
  finally show "bit (sta_byteswap_impl n w) k = bit (word_of (rev (bytes_of n w)) :: 'a word) k" .
qed

text \<open>The widths of the types of the language.\<close>

lemma sta_byteswap_eq_dyn_byteswap:
  "LENGTH('a::len) = 8 * n \<Longrightarrow> sta_byteswap (w :: 'a word) = dyn_byteswap w"
  by (simp add: sta_byteswap_def dyn_byteswap_def sta_byteswap_impl_rev)

lemma bytes_of_dyn_byteswap:
  assumes "LENGTH('a::len) = 8 * n"
  shows "bytes_of n (dyn_byteswap (w :: 'a word)) = rev (bytes_of n w)"
proof -
  have "bytes_of (length (rev (bytes_of n w))) (word_of (rev (bytes_of n w)) :: 'a word) = rev (bytes_of n w)"
    using assms by (intro bytes_of_word_of) simp
  then show ?thesis using assms by (simp add: dyn_byteswap_def)
qed

lemma dyn_byteswap_involutive:
  assumes "LENGTH('a::len) = 8 * n"
  shows "dyn_byteswap (dyn_byteswap (w :: 'a word)) = w"
proof -
  have "dyn_byteswap (dyn_byteswap w) = word_of (rev (rev (bytes_of n w)))"
    unfolding dyn_byteswap_def [of "dyn_byteswap w"] using assms by (simp add: bytes_of_dyn_byteswap)
  then show ?thesis using assms by simp
qed

text \<open>Scalars are read back as they were written, whatever surrounds them.\<close>

lemma copy_object_bytes_of:
  "LENGTH('a::len) = 8 * n \<Longrightarrow> copy_object (bytes_of n (w :: 'a word) @ rest) = Some w"
  by (simp add: copy_object_def)

lemma read_float_write_float:
  assumes "LENGTH('a::len) = 8 * n"
  shows "read_float (drop (length s) (write_float s (w :: 'a word)) @ rest) = Some w"
  using assms by (simp add: read_float_def write_float_def copy_object_bytes_of dyn_byteswap_involutive)

lemma read_int_write_int:
  assumes "LENGTH('a::len) = 8 * n"
  shows "read_int (drop (length s) (write_int s (w :: 'a word)) @ rest) = Some w"
  using read_float_write_float [OF assms, of s w rest] assms
  by (simp add: read_int_def write_int_def read_float_def write_float_def sta_byteswap_eq_dyn_byteswap copy_object_bytes_of)

end
