(* ===== verification/AnyArg.thy ===== *)
theory AnyArg
  imports Byteswap Message
begin

text \<open>
  The types of the parameters and the universal argument (\<^verbatim>\<open>src/src/bmRPCAnyArg.h\<close>), for the binary
  protocol with 64-bit types. \<open>cpp_type\<close> lists the types for which the class templates have a specialisation;
  the templates are the functions on it. An object in memory is a typed value, a pointer an
  address, and dereferencing a pointer to an object of another type is undefined.
\<close>

section \<open>Type identifiers\<close>

datatype InArgTypeId =
    In_WRONG | In_BOOL | In_CHAR | In_UCHAR | In_SHORT | In_USHORT | In_INT | In_UINT | In_LONG | In_ULONG
  | In_FLOAT | In_CONST_STRING_REF | In_CONST_BLOB_REF | In_INT_REF | In_LONG_REF | In_FLOAT_REF
  | In_STRING_REF | In_BLOB_REF | In_VOID | In_LONGLONG | In_ULONGLONG | In_LONGLONG_REF | In_DOUBLE
  | In_DOUBLE_REF

datatype OutArgTypeId =
    Out_WRONG | Out_INT_REF | Out_LONG_REF | Out_FLOAT_REF | Out_STRING_REF | Out_BLOB_REF | Out_VOID
  | Out_LONGLONG_REF | Out_DOUBLE_REF

datatype RArgTypeId = R_WRONG | R_INT | R_LONG | R_FLOAT | R_LONGLONG | R_DOUBLE | R_VOID

section \<open>Types\<close>

datatype cpp_type =
    T_bool | T_char | T_uchar | T_short | T_ushort | T_int | T_int_ref | T_uint | T_long | T_long_ref
  | T_ulong | T_float | T_float_ref | T_longlong | T_longlong_ref | T_ulonglong | T_double | T_double_ref
  | T_string_ref | T_const_string_ref | T_string_ptr | T_const_string_ptr
  | T_blob_ref | T_const_blob_ref | T_blob_ptr | T_const_blob_ptr | T_void | T_other

primrec ParamType_name :: "cpp_type \<Rightarrow> bytes" where
  "ParamType_name T_bool = str ''bool''"
| "ParamType_name T_char = str ''char''"
| "ParamType_name T_uchar = str ''uchar''"
| "ParamType_name T_short = str ''short''"
| "ParamType_name T_ushort = str ''ushort''"
| "ParamType_name T_int = str ''int''"
| "ParamType_name T_int_ref = str ''int&''"
| "ParamType_name T_uint = str ''uint''"
| "ParamType_name T_long = str ''long''"
| "ParamType_name T_long_ref = str ''long&''"
| "ParamType_name T_ulong = str ''ulong''"
| "ParamType_name T_float = str ''float''"
| "ParamType_name T_float_ref = str ''float&''"
| "ParamType_name T_longlong = str ''longlong''"
| "ParamType_name T_longlong_ref = str ''longlong&''"
| "ParamType_name T_ulonglong = str ''ulonglong''"
| "ParamType_name T_double = str ''double''"
| "ParamType_name T_double_ref = str ''double&''"
| "ParamType_name T_string_ref = str ''string&''"
| "ParamType_name T_const_string_ref = str ''conststring&''"
| "ParamType_name T_string_ptr = str ''string*''"
| "ParamType_name T_const_string_ptr = str ''conststring*''"
| "ParamType_name T_blob_ref = str ''vector<unsigned char>&''"
| "ParamType_name T_const_blob_ref = str ''constvector<unsigned char>&''"
| "ParamType_name T_blob_ptr = str ''vector<unsigned char>*''"
| "ParamType_name T_const_blob_ptr = str ''constvector<unsigned char>*''"
| "ParamType_name T_void = str ''void''"
| "ParamType_name T_other = []"

fun ParamType_valid :: "cpp_type \<Rightarrow> bool" where
  "ParamType_valid T_void = False"
| "ParamType_valid T_other = False"
| "ParamType_valid _ = True"

primrec ParamType_in_id :: "cpp_type \<Rightarrow> InArgTypeId" where
  "ParamType_in_id T_bool = In_BOOL"
| "ParamType_in_id T_char = In_CHAR"
| "ParamType_in_id T_uchar = In_UCHAR"
| "ParamType_in_id T_short = In_SHORT"
| "ParamType_in_id T_ushort = In_USHORT"
| "ParamType_in_id T_int = In_INT"
| "ParamType_in_id T_int_ref = In_INT_REF"
| "ParamType_in_id T_uint = In_UINT"
| "ParamType_in_id T_long = In_LONG"
| "ParamType_in_id T_long_ref = In_LONG_REF"
| "ParamType_in_id T_ulong = In_ULONG"
| "ParamType_in_id T_float = In_FLOAT"
| "ParamType_in_id T_float_ref = In_FLOAT_REF"
| "ParamType_in_id T_longlong = In_LONGLONG"
| "ParamType_in_id T_longlong_ref = In_LONGLONG_REF"
| "ParamType_in_id T_ulonglong = In_ULONGLONG"
| "ParamType_in_id T_double = In_DOUBLE"
| "ParamType_in_id T_double_ref = In_DOUBLE_REF"
| "ParamType_in_id T_string_ref = In_STRING_REF"
| "ParamType_in_id T_const_string_ref = In_CONST_STRING_REF"
| "ParamType_in_id T_string_ptr = In_STRING_REF"
| "ParamType_in_id T_const_string_ptr = In_CONST_STRING_REF"
| "ParamType_in_id T_blob_ref = In_BLOB_REF"
| "ParamType_in_id T_const_blob_ref = In_CONST_BLOB_REF"
| "ParamType_in_id T_blob_ptr = In_BLOB_REF"
| "ParamType_in_id T_const_blob_ptr = In_CONST_BLOB_REF"
| "ParamType_in_id T_void = In_VOID"
| "ParamType_in_id T_other = In_WRONG"

fun ParamType_out_id :: "cpp_type \<Rightarrow> OutArgTypeId" where
  "ParamType_out_id T_int_ref = Out_INT_REF"
| "ParamType_out_id T_long_ref = Out_LONG_REF"
| "ParamType_out_id T_float_ref = Out_FLOAT_REF"
| "ParamType_out_id T_longlong_ref = Out_LONGLONG_REF"
| "ParamType_out_id T_double_ref = Out_DOUBLE_REF"
| "ParamType_out_id T_string_ref = Out_STRING_REF"
| "ParamType_out_id T_string_ptr = Out_STRING_REF"
| "ParamType_out_id T_blob_ref = Out_BLOB_REF"
| "ParamType_out_id T_blob_ptr = Out_BLOB_REF"
| "ParamType_out_id T_void = Out_VOID"
| "ParamType_out_id _ = Out_WRONG"

fun ParamType_r_id :: "cpp_type \<Rightarrow> RArgTypeId" where
  "ParamType_r_id T_int = R_INT"
| "ParamType_r_id T_long = R_LONG"
| "ParamType_r_id T_float = R_FLOAT"
| "ParamType_r_id T_longlong = R_LONGLONG"
| "ParamType_r_id T_double = R_DOUBLE"
| "ParamType_r_id T_void = R_VOID"
| "ParamType_r_id _ = R_WRONG"

definition ReturnType_valid :: "cpp_type \<Rightarrow> bool" where
  "ReturnType_valid R \<longleftrightarrow> R \<in> {T_int, T_long, T_float, T_longlong, T_double, T_void}"

section \<open>Objects, memory and the universal argument\<close>

datatype obj =
    O_bool u8 | O_char u8 | O_uchar u8 | O_short u16 | O_ushort u16 | O_int u32 | O_uint u32
  | O_long u64 | O_ulong u64 | O_float u32 | O_longlong u64 | O_ulonglong u64 | O_double u64
  | O_string bytes | O_blob bytes

text \<open>The types without qualifiers, references and pointers; \<^verbatim>\<open>remove_all<T>::type\<close>.\<close>

datatype base =
    B_bool | B_char | B_uchar | B_short | B_ushort | B_int | B_uint | B_long | B_ulong | B_float
  | B_longlong | B_ulonglong | B_double | B_string | B_blob

primrec obj_base :: "obj \<Rightarrow> base" where
  "obj_base (O_bool _) = B_bool" | "obj_base (O_char _) = B_char" | "obj_base (O_uchar _) = B_uchar"
| "obj_base (O_short _) = B_short" | "obj_base (O_ushort _) = B_ushort" | "obj_base (O_int _) = B_int"
| "obj_base (O_uint _) = B_uint" | "obj_base (O_long _) = B_long" | "obj_base (O_ulong _) = B_ulong"
| "obj_base (O_float _) = B_float" | "obj_base (O_longlong _) = B_longlong"
| "obj_base (O_ulonglong _) = B_ulonglong" | "obj_base (O_double _) = B_double"
| "obj_base (O_string _) = B_string" | "obj_base (O_blob _) = B_blob"

primrec remove_all :: "cpp_type \<Rightarrow> base option" where
  "remove_all T_bool = Some B_bool" | "remove_all T_char = Some B_char" | "remove_all T_uchar = Some B_uchar"
| "remove_all T_short = Some B_short" | "remove_all T_ushort = Some B_ushort"
| "remove_all T_int = Some B_int" | "remove_all T_int_ref = Some B_int" | "remove_all T_uint = Some B_uint"
| "remove_all T_long = Some B_long" | "remove_all T_long_ref = Some B_long" | "remove_all T_ulong = Some B_ulong"
| "remove_all T_float = Some B_float" | "remove_all T_float_ref = Some B_float"
| "remove_all T_longlong = Some B_longlong" | "remove_all T_longlong_ref = Some B_longlong"
| "remove_all T_ulonglong = Some B_ulonglong"
| "remove_all T_double = Some B_double" | "remove_all T_double_ref = Some B_double"
| "remove_all T_string_ref = Some B_string" | "remove_all T_const_string_ref = Some B_string"
| "remove_all T_string_ptr = Some B_string" | "remove_all T_const_string_ptr = Some B_string"
| "remove_all T_blob_ref = Some B_blob" | "remove_all T_const_blob_ref = Some B_blob"
| "remove_all T_blob_ptr = Some B_blob" | "remove_all T_const_blob_ptr = Some B_blob"
| "remove_all T_void = None" | "remove_all T_other = None"

type_synonym addr = nat
type_synonym mem = "addr \<rightharpoonup> obj"

text \<open>
  The union of 8 bytes: an object copied into its first bytes, the others zero, or a pointer. \<^verbatim>\<open>AnyArg()\<close>
  is the null pointer.
\<close>

datatype AnyArg = Val u64 | Ptr addr

definition AnyArg_null :: AnyArg where
  "AnyArg_null = Val 0"

definition AnyArg_of :: "'a::len word \<Rightarrow> AnyArg" where
  "AnyArg_of value = Val (ucast value)"

fun val_bits :: "AnyArg \<Rightarrow> 'a::len word option" where
  "val_bits (Val w) = Some (ucast w)"
| "val_bits (Ptr a) = None"

fun val_ptr :: "AnyArg \<Rightarrow> addr option" where
  "val_ptr (Ptr a) = Some a"
| "val_ptr (Val w) = None"

text \<open>The string or the blob that \<^verbatim>\<open>val.p\<close> points to.\<close>

definition deref_string :: "AnyArg \<Rightarrow> mem \<Rightarrow> bytes option" where
  "deref_string v h =
     do { a \<leftarrow> val_ptr v; ob \<leftarrow> h a; (case ob of O_string x \<Rightarrow> Some x | _ \<Rightarrow> None) }"

definition deref_blob :: "AnyArg \<Rightarrow> mem \<Rightarrow> bytes option" where
  "deref_blob v h =
     do { a \<leftarrow> val_ptr v; ob \<leftarrow> h a; (case ob of O_blob x \<Rightarrow> Some x | _ \<Rightarrow> None) }"

text \<open>\<^verbatim>\<open>getAs<T>\<close>: the object that the argument of type \<^verbatim>\<open>T\<close> denotes, in memory for strings and blobs.\<close>

primrec getAs :: "cpp_type \<Rightarrow> AnyArg \<Rightarrow> mem \<Rightarrow> obj option" where
  "getAs T_bool v h = map_option O_bool (val_bits v)"
| "getAs T_char v h = map_option O_char (val_bits v)"
| "getAs T_uchar v h = map_option O_uchar (val_bits v)"
| "getAs T_short v h = map_option O_short (val_bits v)"
| "getAs T_ushort v h = map_option O_ushort (val_bits v)"
| "getAs T_int v h = map_option O_int (val_bits v)"
| "getAs T_int_ref v h = map_option O_int (val_bits v)"
| "getAs T_uint v h = map_option O_uint (val_bits v)"
| "getAs T_long v h = map_option O_long (val_bits v)"
| "getAs T_long_ref v h = map_option O_long (val_bits v)"
| "getAs T_ulong v h = map_option O_ulong (val_bits v)"
| "getAs T_float v h = map_option O_float (val_bits v)"
| "getAs T_float_ref v h = map_option O_float (val_bits v)"
| "getAs T_longlong v h = map_option O_longlong (val_bits v)"
| "getAs T_longlong_ref v h = map_option O_longlong (val_bits v)"
| "getAs T_ulonglong v h = map_option O_ulonglong (val_bits v)"
| "getAs T_double v h = map_option O_double (val_bits v)"
| "getAs T_double_ref v h = map_option O_double (val_bits v)"
| "getAs T_string_ref v h = map_option O_string (deref_string v h)"
| "getAs T_const_string_ref v h = map_option O_string (deref_string v h)"
| "getAs T_string_ptr v h = map_option O_string (deref_string v h)"
| "getAs T_const_string_ptr v h = map_option O_string (deref_string v h)"
| "getAs T_blob_ref v h = map_option O_blob (deref_blob v h)"
| "getAs T_const_blob_ref v h = map_option O_blob (deref_blob v h)"
| "getAs T_blob_ptr v h = map_option O_blob (deref_blob v h)"
| "getAs T_const_blob_ptr v h = map_option O_blob (deref_blob v h)"
| "getAs T_void v h = None"
| "getAs T_other v h = None"

section \<open>Strings and blobs in a byte vector\<close>

text \<open>
  The length goes into a 16-bit \<^verbatim>\<open>SIZE_T\<close>, which is written before as many bytes; the same code serves
  both kinds of container.
\<close>

definition write_container :: "bytes \<Rightarrow> bytes \<Rightarrow> bytes" where
  "write_container s data =
     (let n = of_nat (length data) :: u16 in write_int s n @ take (unat n) data)"

definition read_container :: "bytes \<Rightarrow> bytes option" where
  "read_container s =
     do {
       n \<leftarrow> read_int s;
       let s = drop 2 s;
       if unat (n :: u16) \<le> length s then Some (take (unat n) s) else None
     }"

section \<open>Round trips\<close>

lemma drop_write_int: "drop (length s) (write_int s w) = bytes_of (LENGTH('a) div 8) (sta_byteswap (w :: 'a::len word))"
  by (simp add: write_int_def)

lemma read_int_u16 [codec_simps]: "read_int (bytes_of 2 (sta_byteswap w) @ rest) = Some (w :: u16)"
  using read_int_write_int [where 'a = 16 and n = 2, of "[]" w rest] by (simp add: write_int_def)

lemma read_int_u32 [codec_simps]: "read_int (bytes_of 4 (sta_byteswap w) @ rest) = Some (w :: u32)"
  using read_int_write_int [where 'a = 32 and n = 4, of "[]" w rest] by (simp add: write_int_def)

lemma read_int_u64 [codec_simps]: "read_int (bytes_of 8 (sta_byteswap w) @ rest) = Some (w :: u64)"
  using read_int_write_int [where 'a = 64 and n = 8, of "[]" w rest] by (simp add: write_int_def)

lemma read_float_u32 [codec_simps]: "read_float (bytes_of 4 (dyn_byteswap w) @ rest) = Some (w :: u32)"
  using read_float_write_float [where 'a = 32 and n = 4, of "[]" w rest] by (simp add: write_float_def)

lemma read_float_u64 [codec_simps]: "read_float (bytes_of 8 (dyn_byteswap w) @ rest) = Some (w :: u64)"
  using read_float_write_float [where 'a = 64 and n = 8, of "[]" w rest] by (simp add: write_float_def)

lemma write_container_append: "write_container s x = s @ write_container [] x"
  by (simp add: write_container_def write_int_def Let_def)

lemma length_write_container:
  "length x < 65536 \<Longrightarrow> length (write_container [] x) = 2 + length x"
  by (simp add: write_container_def write_int_def unat_of_nat take_bit_nat_eq_self)

lemma read_container_write:
  assumes "length x < 65536"
  shows "read_container (write_container [] x @ rest) = Some x"
  using assms by (simp add: read_container_def write_container_def write_int_def read_int_u16 unat_of_nat take_bit_nat_eq_self)

end
