(* ===== verification/Marshaller.thy ===== *)
theory Marshaller
  imports AnyArg
begin

text \<open>
  The marshalling of arguments and results for the binary protocol (\<^verbatim>\<open>src/src/bmRPCMarshaller.h\<close>), server
  side and client side. \<open>malloc\<close> gives the address that \<^verbatim>\<open>new\<close> returns; the locale \<open>allocator\<close> has what
  is relied on, that it is unused. The remote function is a parameter, a function from the objects that
  its parameters denote to its result and the objects they denote when it returns.
\<close>

section \<open>Server side\<close>

text \<open>One turn of the loop of \<^verbatim>\<open>deserialize_in_args\<close> at position \<open>ix\<close>.\<close>

definition sub_vector :: "bytes \<Rightarrow> nat \<Rightarrow> nat \<Rightarrow> bytes option" where
  "sub_vector data ix n = (if ix + n \<le> length data then Some (take n (drop ix data)) else None)"

definition deserialize_in_arg :: "(mem \<Rightarrow> addr) \<Rightarrow> InArgTypeId \<Rightarrow> bytes \<Rightarrow> nat \<Rightarrow> mem \<Rightarrow> (AnyArg \<times> nat \<times> mem) option" where
  "deserialize_in_arg malloc f data ix h =
     (let s = drop ix data;
          rd_char = do { c \<leftarrow> read_char s; Some (AnyArg_of c, ix + 1, h) };
          rd_short = do { w \<leftarrow> read_int s; Some (AnyArg_of (w :: u16), ix + 2, h) };
          rd_int = do { w \<leftarrow> read_int s; Some (AnyArg_of (w :: u32), ix + 4, h) };
          rd_long = do { w \<leftarrow> read_int s; Some (AnyArg_of (w :: u64), ix + 8, h) };
          rd_float = do { w \<leftarrow> read_float s; Some (AnyArg_of (w :: u32), ix + 4, h) };
          rd_double = do { w \<leftarrow> read_float s; Some (AnyArg_of (w :: u64), ix + 8, h) };
          rd_new = (\<lambda>mk. do {
             n \<leftarrow> read_int s;
             x \<leftarrow> sub_vector data (ix + 2) (unat (n :: u16));
             let a = malloc h;
             Some (Ptr a, ix + 2 + unat n, h(a \<mapsto> mk x)) })
      in case f of
           In_BOOL \<Rightarrow> rd_char | In_UCHAR \<Rightarrow> rd_char | In_CHAR \<Rightarrow> rd_char
         | In_USHORT \<Rightarrow> rd_short | In_SHORT \<Rightarrow> rd_short
         | In_INT \<Rightarrow> rd_int | In_UINT \<Rightarrow> rd_int | In_INT_REF \<Rightarrow> rd_int
         | In_LONG \<Rightarrow> rd_long | In_ULONG \<Rightarrow> rd_long | In_LONG_REF \<Rightarrow> rd_long
         | In_FLOAT \<Rightarrow> rd_float | In_FLOAT_REF \<Rightarrow> rd_float
         | In_CONST_STRING_REF \<Rightarrow> rd_new O_string | In_STRING_REF \<Rightarrow> rd_new O_string
         | In_CONST_BLOB_REF \<Rightarrow> rd_new O_blob | In_BLOB_REF \<Rightarrow> rd_new O_blob
         | In_LONGLONG \<Rightarrow> rd_long | In_ULONGLONG \<Rightarrow> rd_long | In_LONGLONG_REF \<Rightarrow> rd_long
         | In_DOUBLE \<Rightarrow> rd_double | In_DOUBLE_REF \<Rightarrow> rd_double
         | In_WRONG \<Rightarrow> Some (AnyArg_null, ix, h) | In_VOID \<Rightarrow> Some (AnyArg_null, ix, h))"

fun deserialize_in_args_from :: "(mem \<Rightarrow> addr) \<Rightarrow> InArgTypeId list \<Rightarrow> bytes \<Rightarrow> nat \<Rightarrow> mem \<Rightarrow> (AnyArg list \<times> mem) option" where
  "deserialize_in_args_from malloc [] data ix h = Some ([], h)"
| "deserialize_in_args_from malloc (f # fs) data ix h =
     do {
       (v, ix, h) \<leftarrow> deserialize_in_arg malloc f data ix h;
       (vec, h) \<leftarrow> deserialize_in_args_from malloc fs data ix h;
       Some (v # vec, h)
     }"

definition deserialize_in_args :: "(mem \<Rightarrow> addr) \<Rightarrow> InArgTypeId list \<Rightarrow> bytes \<Rightarrow> mem \<Rightarrow> (AnyArg list \<times> mem) option" where
  "deserialize_in_args malloc format data h = deserialize_in_args_from malloc format data 0 h"

text \<open>
  The functions that write are templates over the stream, a vector of bytes or a string stream; here they are
  functions of \<^verbatim>\<open>stream::write\<close>, which \<open>wr\<close> stands for: \<open>wr s x\<close> is the stream \<open>s\<close> after the object \<open>x\<close>.
  \<^verbatim>\<open>AnyArg::write<T>\<close> is called for the types of results only, where it writes what \<^verbatim>\<open>getAs<T>\<close> denotes.
\<close>

type_synonym writer = "bytes \<Rightarrow> obj \<Rightarrow> bytes"

definition AnyArg_write :: "writer \<Rightarrow> cpp_type \<Rightarrow> AnyArg \<Rightarrow> mem \<Rightarrow> bytes \<Rightarrow> bytes option" where
  "AnyArg_write wr T v h s = map_option (wr s) (getAs T v h)"

definition serialize_r :: "writer \<Rightarrow> RArgTypeId \<Rightarrow> AnyArg \<Rightarrow> mem \<Rightarrow> bytes \<Rightarrow> bytes option" where
  "serialize_r wr format arg h buffer =
     (case format of
        R_INT \<Rightarrow> AnyArg_write wr T_int arg h buffer
      | R_LONG \<Rightarrow> AnyArg_write wr T_long arg h buffer
      | R_FLOAT \<Rightarrow> AnyArg_write wr T_float arg h buffer
      | R_LONGLONG \<Rightarrow> AnyArg_write wr T_longlong arg h buffer
      | R_DOUBLE \<Rightarrow> AnyArg_write wr T_double arg h buffer
      | R_VOID \<Rightarrow> Some buffer
      | R_WRONG \<Rightarrow> Some buffer)"

text \<open>\<^verbatim>\<open>delete\<close> of a string or a blob.\<close>

definition delete_string :: "AnyArg \<Rightarrow> mem \<Rightarrow> mem option" where
  "delete_string v h = do { a \<leftarrow> val_ptr v; _ \<leftarrow> deref_string v h; Some (h(a := None)) }"

definition delete_blob :: "AnyArg \<Rightarrow> mem \<Rightarrow> mem option" where
  "delete_blob v h = do { a \<leftarrow> val_ptr v; _ \<leftarrow> deref_blob v h; Some (h(a := None)) }"

definition serialize_out_arg :: "writer \<Rightarrow> InArgTypeId \<Rightarrow> AnyArg \<Rightarrow> mem \<Rightarrow> bytes \<Rightarrow> (mem \<times> bytes) option" where
  "serialize_out_arg wr f v h buffer =
     (case f of
        In_CONST_STRING_REF \<Rightarrow> do { h \<leftarrow> delete_string v h; Some (h, buffer) }
      | In_CONST_BLOB_REF \<Rightarrow> do { h \<leftarrow> delete_blob v h; Some (h, buffer) }
      | In_INT_REF \<Rightarrow> do { buffer \<leftarrow> AnyArg_write wr T_int v h buffer; Some (h, buffer) }
      | In_LONG_REF \<Rightarrow> do { buffer \<leftarrow> AnyArg_write wr T_long v h buffer; Some (h, buffer) }
      | In_FLOAT_REF \<Rightarrow> do { buffer \<leftarrow> AnyArg_write wr T_float v h buffer; Some (h, buffer) }
      | In_STRING_REF \<Rightarrow>
          do { buffer \<leftarrow> AnyArg_write wr T_string_ptr v h buffer; h \<leftarrow> delete_string v h; Some (h, buffer) }
      | In_BLOB_REF \<Rightarrow>
          do { buffer \<leftarrow> AnyArg_write wr T_blob_ptr v h buffer; h \<leftarrow> delete_blob v h; Some (h, buffer) }
      | In_DOUBLE_REF \<Rightarrow> do { buffer \<leftarrow> AnyArg_write wr T_double v h buffer; Some (h, buffer) }
      | In_LONGLONG_REF \<Rightarrow> do { buffer \<leftarrow> AnyArg_write wr T_longlong v h buffer; Some (h, buffer) }
      | _ \<Rightarrow> Some (h, buffer))"

text \<open>The two vectors have the same length; a missing element is undefined.\<close>

fun serialize_out_args :: "writer \<Rightarrow> InArgTypeId list \<Rightarrow> AnyArg list \<Rightarrow> mem \<Rightarrow> bytes \<Rightarrow> (mem \<times> bytes) option" where
  "serialize_out_args wr [] arr h buffer = Some (h, buffer)"
| "serialize_out_args wr (f # fs) (v # arr) h buffer =
     do {
       (h, buffer) \<leftarrow> serialize_out_arg wr f v h buffer;
       serialize_out_args wr fs arr h buffer
     }"
| "serialize_out_args wr (f # fs) [] h buffer = None"

section \<open>The call\<close>

text \<open>What a reference or a pointer parameter lets the function change: the union or the object pointed to.\<close>

definition put_bits :: "'a::len word \<Rightarrow> AnyArg \<Rightarrow> AnyArg option" where
  "put_bits w v =
     (case v of
        Val old \<Rightarrow> Some (Val (push_bit LENGTH('a) (drop_bit LENGTH('a) old) OR ucast w))
      | Ptr _ \<Rightarrow> None)"

definition put_obj :: "obj \<Rightarrow> AnyArg \<Rightarrow> mem \<Rightarrow> mem option" where
  "put_obj ob v h = do { a \<leftarrow> val_ptr v; Some (h(a \<mapsto> ob)) }"

definition assign_param :: "cpp_type \<Rightarrow> obj \<Rightarrow> AnyArg \<Rightarrow> mem \<Rightarrow> (AnyArg \<times> mem) option" where
  "assign_param t ob v h =
     (if t \<in> {T_int_ref, T_long_ref, T_float_ref, T_longlong_ref, T_double_ref}
      then do {
        v \<leftarrow> (case ob of
                O_int w \<Rightarrow> put_bits w v | O_long w \<Rightarrow> put_bits w v | O_float w \<Rightarrow> put_bits w v
              | O_longlong w \<Rightarrow> put_bits w v | O_double w \<Rightarrow> put_bits w v | _ \<Rightarrow> None);
        Some (v, h)
      }
      else if t \<in> {T_string_ref, T_string_ptr, T_blob_ref, T_blob_ptr}
      then do { h \<leftarrow> put_obj ob v h; Some (v, h) }
      else Some (v, h))"

fun get_params :: "cpp_type list \<Rightarrow> AnyArg list \<Rightarrow> mem \<Rightarrow> obj list option" where
  "get_params [] vs h = Some []"
| "get_params (t # ts) (v # vs) h =
     do { x \<leftarrow> getAs t v h; xs \<leftarrow> get_params ts vs h; Some (x # xs) }"
| "get_params (t # ts) [] h = None"

fun assign_params :: "cpp_type list \<Rightarrow> obj list \<Rightarrow> AnyArg list \<Rightarrow> mem \<Rightarrow> (AnyArg list \<times> mem) option" where
  "assign_params (t # ts) (x # xs) (v # vs) h =
     do { (v, h) \<leftarrow> assign_param t x v h; (vs, h) \<leftarrow> assign_params ts xs vs h; Some (v # vs, h) }"
| "assign_params ts xs vs h = Some (vs, h)"

type_synonym remote = "obj list \<Rightarrow> obj option \<times> obj list"

definition callWithArgs :: "remote \<Rightarrow> cpp_type list \<Rightarrow> AnyArg list \<Rightarrow> mem \<Rightarrow> (obj option \<times> AnyArg list \<times> mem) option" where
  "callWithArgs func ts vArgs h =
     do {
       xs \<leftarrow> get_params ts vArgs h;
       let (r, ys) = func xs;
       (vArgs, h) \<leftarrow> assign_params ts ys vArgs h;
       Some (r, vArgs, h)
     }"

section \<open>Client side\<close>

definition r_size :: "RArgTypeId \<Rightarrow> nat" where
  "r_size format =
     (case format of R_INT \<Rightarrow> 4 | R_LONG \<Rightarrow> 8 | R_FLOAT \<Rightarrow> 4 | R_LONGLONG \<Rightarrow> 8 | R_DOUBLE \<Rightarrow> 8 | _ \<Rightarrow> 0)"

definition unmarshall_out_args :: "RArgTypeId \<Rightarrow> bytes \<Rightarrow> (bytes \<times> bytes) option" where
  "unmarshall_out_args format data =
     (if format = R_VOID then Some ([], data)
      else (let sz = r_size format
            in if sz > 0
               then (if sz \<le> length data then Some (take sz data, drop sz data) else None)
               else Some ([], [])))"

record ReturnValue =
  rv_valid :: bool
  rv_type :: RArgTypeId
  rv_value :: AnyArg

definition ReturnValue_new :: ReturnValue where
  "ReturnValue_new = \<lparr>rv_valid = False, rv_type = R_WRONG, rv_value = AnyArg_null\<rparr>"

definition deserialize_r :: "RArgTypeId \<Rightarrow> bytes \<Rightarrow> ReturnValue option" where
  "deserialize_r format data =
     (let ok = (\<lambda>v. \<lparr>rv_valid = True, rv_type = format, rv_value = v\<rparr>)
      in case format of
           R_INT \<Rightarrow> map_option (\<lambda>w. ok (AnyArg_of (w :: u32))) (read_int data)
         | R_LONG \<Rightarrow> map_option (\<lambda>w. ok (AnyArg_of (w :: u64))) (read_int data)
         | R_FLOAT \<Rightarrow> map_option (\<lambda>w. ok (AnyArg_of (w :: u32))) (read_float data)
         | R_LONGLONG \<Rightarrow> map_option (\<lambda>w. ok (AnyArg_of (w :: u64))) (read_int data)
         | R_DOUBLE \<Rightarrow> map_option (\<lambda>w. ok (AnyArg_of (w :: u64))) (read_float data)
         | _ \<Rightarrow> Some \<lparr>rv_valid = False, rv_type = format, rv_value = AnyArg_null\<rparr>)"

text \<open>\<^verbatim>\<open>*p = x\<close> where \<^verbatim>\<open>p\<close> is an address cast to a pointer to the type of \<open>x\<close>.\<close>

definition assign_at :: "mem \<Rightarrow> addr \<Rightarrow> obj \<Rightarrow> mem option" where
  "assign_at m a x = do { old \<leftarrow> m a; if obj_base old = obj_base x then Some (m(a \<mapsto> x)) else None }"

definition deserialize_out_arg :: "OutArgTypeId \<Rightarrow> bytes \<Rightarrow> nat \<Rightarrow> (nat \<times> obj) option option" where
  "deserialize_out_arg f data ix =
     (let s = drop ix data
      in case f of
           Out_INT_REF \<Rightarrow> map_option (\<lambda>w. Some (ix + 4, O_int w)) (read_int s)
         | Out_LONG_REF \<Rightarrow> map_option (\<lambda>w. Some (ix + 8, O_long w)) (read_int s)
         | Out_FLOAT_REF \<Rightarrow> map_option (\<lambda>w. Some (ix + 4, O_float w)) (read_float s)
         | Out_STRING_REF \<Rightarrow> map_option (\<lambda>x. Some (ix + (2 + length x), O_string x)) (read_container s)
         | Out_BLOB_REF \<Rightarrow> map_option (\<lambda>x. Some (ix + (2 + length x), O_blob x)) (read_container s)
         | Out_LONGLONG_REF \<Rightarrow> map_option (\<lambda>w. Some (ix + 8, O_longlong w)) (read_int s)
         | Out_DOUBLE_REF \<Rightarrow> map_option (\<lambda>w. Some (ix + 8, O_double w)) (read_float s)
         | _ \<Rightarrow> Some None)"

fun deserialize_out_args_from :: "OutArgTypeId list \<Rightarrow> bytes \<Rightarrow> nat \<Rightarrow> addr list \<Rightarrow> mem \<Rightarrow> mem option" where
  "deserialize_out_args_from [] data ix addresses m = Some m"
| "deserialize_out_args_from (f # fs) data ix addresses m =
     do {
       r \<leftarrow> deserialize_out_arg f data ix;
       (case r of
          None \<Rightarrow> deserialize_out_args_from fs data ix (tl addresses) m
        | Some (ix, x) \<Rightarrow>
            (case addresses of
               [] \<Rightarrow> None
             | a # addresses \<Rightarrow> do { m \<leftarrow> assign_at m a x; deserialize_out_args_from fs data ix addresses m }))
     }"

definition deserialize_out_args :: "OutArgTypeId list \<Rightarrow> bytes \<Rightarrow> addr list \<Rightarrow> mem \<Rightarrow> mem option" where
  "deserialize_out_args format data addresses m = deserialize_out_args_from format data 0 addresses m"

section \<open>Codification of a signature\<close>

definition string_composer :: "bytes list \<Rightarrow> bytes option" where
  "string_composer strings =
     (case strings of [] \<Rightarrow> None | x # xs \<Rightarrow> Some (foldl (\<lambda>acc y. acc @ str '' '' @ y) x xs))"

definition stringify :: "cpp_type list \<Rightarrow> bytes option" where
  "stringify Args = string_composer (map ParamType_name Args)"

definition codify_in_args :: "cpp_type list \<Rightarrow> InArgTypeId list" where
  "codify_in_args Args = filter (\<lambda>f. f \<noteq> In_WRONG) (map ParamType_in_id Args)"

definition codify_out_args :: "cpp_type list \<Rightarrow> OutArgTypeId list" where
  "codify_out_args Args = filter (\<lambda>f. f \<noteq> Out_WRONG) (map ParamType_out_id Args)"

definition ParamTraits_valid :: "cpp_type \<Rightarrow> cpp_type list \<Rightarrow> bool" where
  "ParamTraits_valid R Args \<longleftrightarrow> ReturnType_valid R \<and> list_all ParamType_valid Args"

section \<open>Arguments of a call\<close>

text \<open>
  An actual argument, after the checks of the compiler: a value for a parameter by value, an object in
  the caller's memory for a reference, a pointer for a pointer.
\<close>

datatype actual = By_value obj | Lvalue addr | Pointer addr

definition write_obj :: "bytes \<Rightarrow> obj \<Rightarrow> bytes" where
  "write_obj s ob =
     (case ob of
        O_bool w \<Rightarrow> write_char s w | O_char w \<Rightarrow> write_char s w
      | O_uchar w \<Rightarrow> write_int s w | O_short w \<Rightarrow> write_int s w | O_ushort w \<Rightarrow> write_int s w
      | O_int w \<Rightarrow> write_int s w | O_uint w \<Rightarrow> write_int s w
      | O_long w \<Rightarrow> write_int s w | O_ulong w \<Rightarrow> write_int s w
      | O_float w \<Rightarrow> write_float s w
      | O_longlong w \<Rightarrow> write_int s w | O_ulonglong w \<Rightarrow> write_int s w
      | O_double w \<Rightarrow> write_float s w
      | O_string x \<Rightarrow> write_container s x | O_blob x \<Rightarrow> write_container s x)"

definition has_type :: "cpp_type \<Rightarrow> obj \<Rightarrow> bool" where
  "has_type t ob \<longleftrightarrow> remove_all t = Some (obj_base ob)"

definition is_reference :: "cpp_type \<Rightarrow> bool" where
  "is_reference t \<longleftrightarrow> t \<in> {T_int_ref, T_long_ref, T_float_ref, T_longlong_ref, T_double_ref,
     T_string_ref, T_const_string_ref, T_blob_ref, T_const_blob_ref}"

definition is_pointer :: "cpp_type \<Rightarrow> bool" where
  "is_pointer t \<longleftrightarrow> t \<in> {T_string_ptr, T_const_string_ptr, T_blob_ptr, T_const_blob_ptr}"

text \<open>
  \<^verbatim>\<open>is_const_v<remove_reference_t<ParamTrait>>\<close>: of a reference to \<^verbatim>\<open>const\<close> it holds; of a pointer to \<^verbatim>\<open>const\<close>
  it does not, since the pointer itself is not \<^verbatim>\<open>const\<close>.
\<close>

definition is_const_noref :: "cpp_type \<Rightarrow> bool" where
  "is_const_noref t \<longleftrightarrow> t \<in> {T_const_string_ref, T_const_blob_ref}"

definition serialize_arg :: "writer \<Rightarrow> cpp_type \<Rightarrow> actual \<Rightarrow> mem \<Rightarrow> addr list \<Rightarrow> bytes \<Rightarrow> (addr list \<times> bytes) option" where
  "serialize_arg wr t first m v s =
     do {
       ob \<leftarrow> (case first of By_value x \<Rightarrow> Some x | Lvalue a \<Rightarrow> m a | Pointer a \<Rightarrow> m a);
       let s = wr s ob;
       v \<leftarrow> (if is_reference t \<and> \<not> is_const_noref t
             then (case first of Lvalue a \<Rightarrow> Some (v @ [a]) | _ \<Rightarrow> None)
             else if is_pointer t \<and> \<not> is_const_noref t
             then (case first of Pointer a \<Rightarrow> Some (v @ [a]) | _ \<Rightarrow> None)
             else Some v);
       Some (v, s)
     }"

fun serialize_impl :: "writer \<Rightarrow> cpp_type list \<Rightarrow> actual list \<Rightarrow> mem \<Rightarrow> addr list \<Rightarrow> bytes \<Rightarrow> (addr list \<times> bytes) option" where
  "serialize_impl wr (t # ts) (first # rest) m v s =
     do { (v, s) \<leftarrow> serialize_arg wr t first m v s; serialize_impl wr ts rest m v s }"
| "serialize_impl wr ts args m v s = Some (v, s)"

definition serialize_args :: "writer \<Rightarrow> cpp_type list \<Rightarrow> actual list \<Rightarrow> mem \<Rightarrow> addr list \<Rightarrow> bytes \<Rightarrow> (addr list \<times> bytes) option" where
  "serialize_args wr Args args m v s = serialize_impl wr Args args m v s"

section \<open>Round trip of the arguments\<close>

lemma write_obj_append: "write_obj s ob = s @ write_obj [] ob"
  by (cases ob) (simp_all add: write_obj_def write_char_def write_int_def write_float_def write_container_append [of s])

definition obj_small :: "obj \<Rightarrow> bool" where
  "obj_small ob \<longleftrightarrow> (case ob of O_string x \<Rightarrow> length x < 65536 | O_blob x \<Rightarrow> length x < 65536 | _ \<Rightarrow> True)"

definition is_container :: "cpp_type \<Rightarrow> bool" where
  "is_container t \<longleftrightarrow> remove_all t = Some B_string \<or> remove_all t = Some B_blob"

text \<open>What one turn of the loop makes of an encoded object.\<close>

lemma sub_vector_container:
  "length x < 65536 \<Longrightarrow> sub_vector (pre @ write_container [] x @ rest) (Suc (Suc (length pre))) (length x) = Some x"
  by (simp add: sub_vector_def write_container_def write_int_def unat_of_nat take_bit_nat_eq_self)

lemma read_int_container:
  "length x < 65536 \<Longrightarrow> read_int (write_container [] x @ rest) = Some (of_nat (length x) :: u16)"
  by (simp add: write_container_def write_int_def read_int_u16 Let_def)

lemma sta_byteswap_u8 [simp]: "sta_byteswap w = (w :: u8)"
  using sta_byteswap_eq_dyn_byteswap [where 'a = 8 and n = 1, of w] by (simp add: dyn_byteswap_def ucast_id)

lemma ucast_u64: "LENGTH('a::len) \<le> 64 \<Longrightarrow> ucast (ucast (w :: 'a word) :: u64) = w"
  by (rule bit_word_eqI) (auto simp: bit_simps)

lemma deserialize_in_arg_scalar:
  assumes "has_type t ob" and "\<not> is_container t"
  shows "\<exists>w. deserialize_in_arg malloc (ParamType_in_id t) (pre @ write_obj [] ob @ rest) (length pre) h =
           Some (Val w, length pre + length (write_obj [] ob), h) \<and> getAs t (Val w) h' = Some ob"
  using assms
  by (cases t; cases ob)
    (simp_all add: has_type_def is_container_def deserialize_in_arg_def write_obj_def write_char_def write_int_def write_float_def
      codec_simps AnyArg_of_def read_char_def ucast_u64)

lemma deserialize_in_arg_container:
  assumes "has_type t ob" and "is_container t" and "obj_small ob"
  shows "deserialize_in_arg malloc (ParamType_in_id t) (pre @ write_obj [] ob @ rest) (length pre) h =
           Some (Ptr (malloc h), length pre + length (write_obj [] ob), h(malloc h \<mapsto> ob))"
  using assms
  by (cases t; cases ob)
    (simp_all add: has_type_def is_container_def obj_small_def deserialize_in_arg_def write_obj_def
      read_int_container sub_vector_container length_write_container unat_of_nat take_bit_nat_eq_self Let_def)

text \<open>The bytes of a list of arguments, and the objects in the arguments of the server.\<close>

definition encode :: "obj list \<Rightarrow> bytes" where
  "encode xs = concat (map (write_obj []) xs)"

lemma encode_Nil [simp]: "encode [] = []"
  by (simp add: encode_def)

definition args_ok :: "cpp_type list \<Rightarrow> obj list \<Rightarrow> bool" where
  "args_ok ts xs \<longleftrightarrow> list_all2 (\<lambda>t x. has_type t x \<and> obj_small x) ts xs"

text \<open>
  \<open>owns ts vs h0 h\<close>: the memory \<open>h\<close> is \<open>h0\<close> and, apart from it, one object for each string or blob among the
  arguments.
\<close>

fun owns :: "cpp_type list \<Rightarrow> AnyArg list \<Rightarrow> mem \<Rightarrow> mem \<Rightarrow> bool" where
  "owns [] [] h0 h \<longleftrightarrow> h = h0"
| "owns (t # ts) (Val w # vs) h0 h \<longleftrightarrow> \<not> is_container t \<and> owns ts vs h0 h"
| "owns (t # ts) (Ptr a # vs) h0 h \<longleftrightarrow> is_container t \<and> a \<notin> dom h0 \<and> (\<exists>x. h a = Some x \<and> has_type t x) \<and>
     owns ts vs h0 (h(a := None))"
| "owns _ _ _ _ \<longleftrightarrow> False"

lemma args_ok_typed: "args_ok ts xs \<Longrightarrow> list_all2 has_type ts xs"
  by (auto simp: args_ok_def elim: list_all2_mono)

lemma owns_extend:
  "owns ts vs (h0(a \<mapsto> x)) h \<Longrightarrow> a \<notin> dom h0 \<Longrightarrow> h a = Some x \<and> owns ts vs h0 (h(a := None))"
proof (induction ts vs "h0(a \<mapsto> x)" h rule: owns.induct)
  case (3 t ts b vs h)
  then show ?case by (auto simp: fun_upd_twist)
qed auto

lemma getAs_string: "remove_all t = Some B_string \<Longrightarrow> getAs t v h = map_option O_string (deref_string v h)"
  by (cases t) simp_all

lemma getAs_blob: "remove_all t = Some B_blob \<Longrightarrow> getAs t v h = map_option O_blob (deref_blob v h)"
  by (cases t) simp_all

lemma getAs_scalar: "\<not> is_container t \<Longrightarrow> getAs t v h' = getAs t v h"
  by (cases t) (simp_all add: is_container_def)

lemma has_type_container:
  assumes "has_type t x" and "is_container t"
  obtains y where "x = O_string y" and "remove_all t = Some B_string" | y where "x = O_blob y" and "remove_all t = Some B_blob"
  using assms by (cases x) (auto simp: has_type_def is_container_def)

lemma getAs_Ptr: "has_type t x \<Longrightarrow> is_container t \<Longrightarrow> h a = Some x \<Longrightarrow> getAs t (Ptr a) h = Some x"
  by (erule (1) has_type_container) (simp_all add: getAs_string getAs_blob deref_string_def deref_blob_def)

lemma getAs_mono: "getAs t v h = Some x \<Longrightarrow> h \<subseteq>\<^sub>m h' \<Longrightarrow> getAs t v h' = Some x"
proof (cases "is_container t")
  case True
  assume *: "getAs t v h = Some x" "h \<subseteq>\<^sub>m h'"
  have m: "h' a = Some y" if "h a = Some y" for a y using that *(2) by (force simp: map_le_def)
  show ?thesis using True * unfolding is_container_def
    by (auto simp: getAs_string getAs_blob deref_string_def deref_blob_def elim!: bind_SomeE dest!: m)
qed (metis getAs_scalar)

lemma get_params_mono: "get_params ts vs h = Some xs \<Longrightarrow> h \<subseteq>\<^sub>m h' \<Longrightarrow> get_params ts vs h' = Some xs"
proof (induction ts vs h arbitrary: xs rule: get_params.induct)
  case (2 t ts v vs h)
  then obtain y ys where "getAs t v h = Some y" "get_params ts vs h = Some ys" "xs = y # ys" by (auto elim!: bind_SomeE)
  with 2 show ?case by (simp add: getAs_mono [of t v h y h'])
qed simp_all

locale allocator =
  fixes malloc :: "mem \<Rightarrow> addr"
  assumes fresh: "finite (dom h) \<Longrightarrow> malloc h \<notin> dom h"
begin

lemma deserialize_in_args_from_ok:
  assumes "args_ok ts xs" and "finite (dom h)"
  shows "\<exists>vs h'. deserialize_in_args_from malloc (map ParamType_in_id ts) (pre @ encode xs @ rest) (length pre) h = Some (vs, h') \<and>
           get_params ts vs h' = Some xs \<and> owns ts vs h h' \<and> h \<subseteq>\<^sub>m h' \<and> finite (dom h')"
  using assms
proof (induction ts xs arbitrary: pre h rule: list_induct2')
  case (4 t ts x xs)
  then have tx: "has_type t x" "obj_small x" and rest: "args_ok ts xs" by (simp_all add: args_ok_def)
  let ?D = "pre @ encode (x # xs) @ rest" and ?pre = "pre @ write_obj [] x"
  have D: "?D = pre @ write_obj [] x @ encode xs @ rest" "?D = ?pre @ encode xs @ rest" by (simp_all add: encode_def)
  show ?case
  proof (cases "is_container t")
    case False
    obtain w where w: "deserialize_in_arg malloc (ParamType_in_id t) ?D (length pre) h = Some (Val w, length ?pre, h)"
      "\<And>h'. getAs t (Val w) h' = Some x"
      using deserialize_in_arg_scalar [OF tx(1) False, of malloc pre "encode xs @ rest" h h] getAs_scalar [OF False, of _ _ h]
      unfolding D(1) length_append by metis
    with 4(1) [OF rest 4(3), of ?pre] False show ?thesis unfolding D(2) by auto
  next
    case True
    have i: "deserialize_in_arg malloc (ParamType_in_id t) ?D (length pre) h = Some (Ptr (malloc h), length ?pre, h(malloc h \<mapsto> x))"
      using deserialize_in_arg_container [OF tx(1) True tx(2)] unfolding D(1) by simp
    have f: "malloc h \<notin> dom h" using fresh [OF 4(3)] .
    have "finite (dom (h(malloc h \<mapsto> x)))" using 4(3) by simp
    from 4(1) [OF rest this, of ?pre] obtain vs h' where v:
      "deserialize_in_args_from malloc (map ParamType_in_id ts) ?D (length ?pre) (h(malloc h \<mapsto> x)) = Some (vs, h')"
      "get_params ts vs h' = Some xs" "owns ts vs (h(malloc h \<mapsto> x)) h'" "h(malloc h \<mapsto> x) \<subseteq>\<^sub>m h'" "finite (dom h')"
      unfolding D(2) by blast
    have o: "h' (malloc h) = Some x" "owns ts vs h (h'(malloc h := None))" using owns_extend [OF v(3) f] by auto
    have "h \<subseteq>\<^sub>m h(malloc h \<mapsto> x)" using f by (auto simp: map_le_def)
    then have "h \<subseteq>\<^sub>m h'" using v(4) by (rule map_le_trans)
    with i v(1,2,5) o True f tx getAs_Ptr [OF tx(1) True, of h'] show ?thesis by auto
  qed
qed (auto simp: args_ok_def)

lemma deserialize_in_args_ok:
  assumes "args_ok ts xs" and "finite (dom h)"
  obtains vs h' where "deserialize_in_args malloc (map ParamType_in_id ts) (encode xs) h = Some (vs, h')"
    and "get_params ts vs h' = Some xs" and "owns ts vs h h'" and "finite (dom h')"
  using deserialize_in_args_from_ok [OF assms, of "[]" "[]"] that by (auto simp: deserialize_in_args_def)

end

definition next_address :: "mem \<Rightarrow> addr" where
  "next_address h = Suc (Max (insert 0 (dom h)))"

interpretation heap: allocator next_address
proof
  fix h :: mem assume "finite (dom h)"
  then have "\<And>a. a \<in> dom h \<Longrightarrow> a \<le> Max (insert 0 (dom h))" by simp
  then show "next_address h \<notin> dom h" unfolding next_address_def by (metis Suc_n_not_le_n)
qed

section \<open>Round trip of the results\<close>

text \<open>The objects that travel back: those of the parameters that are neither by value nor constant.\<close>

definition is_out :: "cpp_type \<Rightarrow> bool" where
  "is_out t \<longleftrightarrow> ParamType_out_id t \<noteq> Out_WRONG \<and> t \<noteq> T_void"

fun outs :: "cpp_type list \<Rightarrow> obj list \<Rightarrow> obj list" where
  "outs (t # ts) (y # ys) = (if is_out t then y # outs ts ys else outs ts ys)"
| "outs _ _ = []"

lemma val_bits_put_bits: "put_bits (w :: 'a::len word) (Val old) = Some v \<Longrightarrow> LENGTH('a) \<le> 64 \<Longrightarrow> val_bits v = Some w"
  by (auto simp: put_bits_def intro!: bit_word_eqI) (auto simp: bit_simps)

lemma put_bits_Val: "\<exists>v. put_bits w (Val old) = Some (Val v)"
  by (simp add: put_bits_def)

lemma out_scalar_ref:
  assumes "LENGTH('a::len) \<le> 64"
  obtains v where "put_bits (w :: 'a word) (Val old) = Some (Val v)" and "val_bits (Val v) = Some w"
  using put_bits_Val [of w old] val_bits_put_bits [OF _ assms] by metis

lemma scalar_out_cases:
  assumes "is_out t" and "\<not> is_container t" and "has_type t y"
  obtains w where "t = T_int_ref" and "y = O_int w" | w where "t = T_long_ref" and "y = O_long w"
    | w where "t = T_float_ref" and "y = O_float w" | w where "t = T_longlong_ref" and "y = O_longlong w"
    | w where "t = T_double_ref" and "y = O_double w"
proof -
  have "t \<in> {T_int_ref, T_long_ref, T_float_ref, T_longlong_ref, T_double_ref}"
    using assms(1,2) by (cases t) (simp_all add: is_out_def is_container_def)
  with assms(3) that show thesis by (cases y) (auto simp: has_type_def)
qed

lemma put_bits_Ptr: "put_bits w v = Some v' \<Longrightarrow> v' \<noteq> Ptr a"
  by (auto simp: put_bits_def split: AnyArg.splits)

lemma assign_param_frame:
  assumes "assign_param t y v h = Some (v', h')" and "v \<noteq> Ptr a"
  shows "v' \<noteq> Ptr a \<and> assign_param t y v (h(a := z)) = Some (v', h'(a := z)) \<and> h' a = h a"
proof (cases "t \<in> {T_int_ref, T_long_ref, T_float_ref, T_longlong_ref, T_double_ref}")
  case True
  let ?b = "case y of O_int w \<Rightarrow> put_bits w v | O_long w \<Rightarrow> put_bits w v | O_float w \<Rightarrow> put_bits w v
              | O_longlong w \<Rightarrow> put_bits w v | O_double w \<Rightarrow> put_bits w v | _ \<Rightarrow> None"
  have "?b = Some v'" "h' = h" using True assms(1) unfolding assign_param_def by (auto elim!: bind_SomeE)
  moreover from this have "v' \<noteq> Ptr a" by (cases y) (auto dest: put_bits_Ptr)
  ultimately show ?thesis using True unfolding assign_param_def by simp
next
  case False
  show ?thesis
  proof (cases "t \<in> {T_string_ref, T_string_ptr, T_blob_ref, T_blob_ptr}")
    case True
    then show ?thesis using assms unfolding assign_param_def by (cases v) (auto simp: put_obj_def fun_upd_twist)
  next
    case F: False
    then show ?thesis using False assms unfolding assign_param_def by simp
  qed
qed

lemma assign_params_frame:
  assumes "assign_params ts ys vs h = Some (vs', h')" and "Ptr a \<notin> set vs"
  shows "Ptr a \<notin> set vs'" and "assign_params ts ys vs (h(a := z)) = Some (vs', h'(a := z))" and "h' a = h a"
proof -
  have "Ptr a \<notin> set vs' \<and> assign_params ts ys vs (h(a := z)) = Some (vs', h'(a := z)) \<and> h' a = h a"
    using assms
  proof (induction ts arbitrary: ys vs h vs' h')
    case (Cons t ts)
    show ?case
    proof (cases "ys = [] \<or> vs = []")
      case True
      with Cons.prems show ?thesis by (cases ys; cases vs) simp_all
    next
      case False
      then obtain y ys1 v vs1 where l: "ys = y # ys1" "vs = v # vs1" by (cases ys; cases vs) auto
      then obtain v2 h2 vs2 where a: "assign_param t y v h = Some (v2, h2)" "assign_params ts ys1 vs1 h2 = Some (vs2, h')" "vs' = v2 # vs2"
        using Cons.prems(1) by (auto elim!: bind_SomeE)
      have "v \<noteq> Ptr a" "Ptr a \<notin> set vs1" using Cons.prems(2) l by auto
      with assign_param_frame [OF a(1), of a z] Cons.IH [OF a(2)] a(3) l show ?thesis by (auto simp: fun_upd_def)
    qed
  qed simp
  then show "Ptr a \<notin> set vs'" "assign_params ts ys vs (h(a := z)) = Some (vs', h'(a := z))" "h' a = h a" by auto
qed

lemma owns_refers: "owns ts vs h0 h \<Longrightarrow> Ptr a \<in> set vs \<Longrightarrow> h a \<noteq> None"
  by (induction ts vs h0 h rule: owns.induct) (auto split: if_splits)

text \<open>What the templates rely on: writing appends to the stream, whatever is in it.\<close>

locale appending =
  fixes wr :: writer
  assumes append: "wr s x = s @ wr [] x"
begin

lemma out_scalar:
  assumes "has_type t y" and "\<not> is_container t"
  shows "\<exists>v. assign_param t y (Val old) h = Some (Val v, h) \<and>
           (\<forall>h' buf. serialize_out_arg wr (ParamType_in_id t) (Val v) h' buf = Some (h', if is_out t then wr buf y else buf))"
proof (cases "is_out t")
  case False
  with assms show ?thesis
    by (cases t) (simp_all add: assign_param_def serialize_out_arg_def is_out_def is_container_def has_type_def)
next
  case True
  have 32: "\<exists>v. put_bits w (Val old) = Some (Val v) \<and> ucast v = w" for w :: u32
    using out_scalar_ref [of w old] by fastforce
  have 64: "\<exists>v. put_bits w (Val old) = Some (Val v) \<and> ucast v = w" for w :: u64
    using out_scalar_ref [of w old] by fastforce
  note d = assign_param_def serialize_out_arg_def AnyArg_write_def
  from True assms(2,1) show ?thesis
  proof (cases rule: scalar_out_cases)
    case (1 w) then show ?thesis using True 32 [of w] by (auto simp: d)
  next
    case (2 w) then show ?thesis using True 64 [of w] by (auto simp: d)
  next
    case (3 w) then show ?thesis using True 32 [of w] by (auto simp: d)
  next
    case (4 w) then show ?thesis using True 64 [of w] by (auto simp: d)
  next
    case (5 w) then show ?thesis using True 64 [of w] by (auto simp: d)
  qed
qed

lemma out_container:
  assumes "has_type t y" and "is_container t" and "h a = Some x" and "has_type t x"
  shows "\<exists>z. assign_param t y (Ptr a) h = Some (Ptr a, h(a \<mapsto> z)) \<and> has_type t z \<and>
           (\<forall>h' buf. h' a = Some z \<longrightarrow>
              serialize_out_arg wr (ParamType_in_id t) (Ptr a) h' buf = Some (h'(a := None), if is_out t then wr buf y else buf))"
proof -
  have x: "h(a \<mapsto> x) = h" using assms(3) by (simp add: fun_upd_idem)
  note d = assign_param_def put_obj_def serialize_out_arg_def delete_string_def delete_blob_def deref_string_def deref_blob_def AnyArg_write_def is_out_def
  let ?z = "if is_out t then y else x"
  have "assign_param t y (Ptr a) h = Some (Ptr a, h(a \<mapsto> ?z))"
    using assms(2) x by (cases t) (simp_all add: d is_container_def)
  moreover have "serialize_out_arg wr (ParamType_in_id t) (Ptr a) h' buf = Some (h'(a := None), if is_out t then wr buf y else buf)"
    if "h' a = Some ?z" for h' buf
    using has_type_container [OF assms(1,2)]
  proof cases
    case (1 z)
    moreover obtain z' where "x = O_string z'" using has_type_container [OF assms(4,2)] 1 by auto
    ultimately show ?thesis using that by (cases t) (simp_all add: d)
  next
    case (2 z)
    moreover obtain z' where "x = O_blob z'" using has_type_container [OF assms(4,2)] 2 by auto
    ultimately show ?thesis using that by (cases t) (simp_all add: d)
  qed
  ultimately show ?thesis using assms(1,4) by (intro exI [of _ ?z]) auto
qed

text \<open>
  After the call the arguments are serialised and what they own is freed: the memory is again what it
  was before the arguments were created.
\<close>

lemma serialize_out_args_ok:
  assumes "owns ts vs h0 h" and "list_all2 has_type ts ys"
  shows "\<exists>vs' h'. assign_params ts ys vs h = Some (vs', h') \<and>
           (\<forall>buf. serialize_out_args wr (map ParamType_in_id ts) vs' h' buf = Some (h0, buf @ concat (map (wr []) (outs ts ys))))"
  using assms
proof (induction ts vs h0 h arbitrary: ys rule: owns.induct)
  case (2 t ts w vs h0 h)
  then obtain y ys' where y: "ys = y # ys'" "has_type t y" "list_all2 has_type ts ys'" by (auto simp: list_all2_Cons1)
  obtain v where v: "assign_param t y (Val w) h = Some (Val v, h)"
    "\<And>h' buf. serialize_out_arg wr (ParamType_in_id t) (Val v) h' buf = Some (h', if is_out t then wr buf y else buf)"
    using out_scalar [OF y(2), of w h] 2(2) by auto
  have "owns ts vs h0 h" using 2(2) by simp
  from 2(1) [OF this y(3)] obtain vs' h' where i: "assign_params ts ys' vs h = Some (vs', h')"
    "\<And>buf. serialize_out_args wr (map ParamType_in_id ts) vs' h' buf = Some (h0, buf @ concat (map (wr []) (outs ts ys')))" by blast
  have j: "serialize_out_args wr (map ParamType_in_id ts) vs' h' (wr buf y) = Some (h0, buf @ wr [] y @ concat (map (wr []) (outs ts ys')))" for buf
    unfolding append [of buf y] i(2) by simp
  show ?case using v i(1) y(1) by (cases "is_out t") (simp_all add: j, simp add: i(2))
next
  case (3 t ts a vs h0 h)
  then obtain y ys' where y: "ys = y # ys'" "has_type t y" "list_all2 has_type ts ys'" by (auto simp: list_all2_Cons1)
  from 3(2) obtain x where x: "is_container t" "h a = Some x" "has_type t x" "owns ts vs h0 (h(a := None))" by auto
  obtain z where z: "assign_param t y (Ptr a) h = Some (Ptr a, h(a \<mapsto> z))"
    "\<And>h' buf. h' a = Some z \<Longrightarrow>
       serialize_out_arg wr (ParamType_in_id t) (Ptr a) h' buf = Some (h'(a := None), if is_out t then wr buf y else buf)"
    using out_container [where h = h and a = a, OF y(2) x(1-3)] by blast
  from 3(1) [OF x(4) y(3)] obtain vs' h' where i: "assign_params ts ys' vs (h(a := None)) = Some (vs', h')"
    "\<And>buf. serialize_out_args wr (map ParamType_in_id ts) vs' h' buf = Some (h0, buf @ concat (map (wr []) (outs ts ys')))" by blast
  have "Ptr a \<notin> set vs" using owns_refers [OF x(4), of a] by auto
  from assign_params_frame(2) [OF i(1) this, of "Some z"] assign_params_frame(3) [OF i(1) this] have k:
    "assign_params ts ys' vs (h(a \<mapsto> z)) = Some (vs', h'(a \<mapsto> z))" "h'(a := None) = h'" by (simp_all add: fun_upd_idem)
  have j: "serialize_out_args wr (map ParamType_in_id ts) vs' h' (wr buf y) = Some (h0, buf @ wr [] y @ concat (map (wr []) (outs ts ys')))" for buf
    unfolding append [of buf y] i(2) by simp
  show ?case using z k y(1) by (cases "is_out t") (simp_all add: j, simp add: i(2))
qed auto

end

text \<open>The client writes the objects back to the addresses it has kept.\<close>

lemma codify_valid:
  assumes "list_all ParamType_valid ts"
  shows "codify_in_args ts = map ParamType_in_id ts" and "codify_out_args ts = map ParamType_out_id (filter is_out ts)"
proof -
  have "ParamType_in_id t \<noteq> In_WRONG \<and> (ParamType_out_id t \<noteq> Out_WRONG \<longleftrightarrow> is_out t)" if "ParamType_valid t" for t
    using that by (cases t) (simp_all add: is_out_def)
  with assms show "codify_in_args ts = map ParamType_in_id ts" "codify_out_args ts = map ParamType_out_id (filter is_out ts)"
    by (induction ts) (simp_all add: codify_in_args_def codify_out_args_def)
qed

lemma deserialize_out_arg_ok:
  assumes "is_out t" and "has_type t y" and "obj_small y"
  shows "deserialize_out_arg (ParamType_out_id t) (pre @ write_obj [] y @ rest) (length pre) =
           Some (Some (length pre + length (write_obj [] y), y))"
proof -
  note d = deserialize_out_arg_def write_obj_def write_int_def write_float_def codec_simps
  show ?thesis
  proof (cases "is_container t")
    case False
    with assms(1) show ?thesis using assms(2) by (cases rule: scalar_out_cases [consumes 3]) (simp_all add: d)
  next
    case True
    with assms(2) show ?thesis
    proof (cases rule: has_type_container)
      case (1 x)
      with assms show ?thesis
        by (cases t) (simp_all add: d is_out_def obj_small_def read_container_write length_write_container)
    next
      case (2 x)
      with assms show ?thesis
        by (cases t) (simp_all add: d is_out_def obj_small_def read_container_write length_write_container)
    qed
  qed
qed

lemma deserialize_out_args_from_ok:
  assumes "args_ok ts ys" and "list_all2 (\<lambda>a y. \<exists>x. m a = Some x \<and> obj_base x = obj_base y) addrs (outs ts ys)"
  shows "deserialize_out_args_from (map ParamType_out_id (filter is_out ts)) (pre @ encode (outs ts ys) @ rest) (length pre) addrs m =
           Some (m(addrs [\<mapsto>] outs ts ys))"
  using assms
proof (induction ts ys arbitrary: pre addrs m rule: list_induct2')
  case (4 t ts y ys)
  then have ty: "has_type t y" "obj_small y" and ok: "args_ok ts ys" by (simp_all add: args_ok_def)
  show ?case
  proof (cases "is_out t")
    case False
    with 4(1) [OF ok] 4(3) show ?thesis by simp
  next
    case True
    then obtain a as x where a: "addrs = a # as" "m a = Some x" "obj_base x = obj_base y"
      "list_all2 (\<lambda>a y. \<exists>x. m a = Some x \<and> obj_base x = obj_base y) as (outs ts ys)"
      using 4(3) by (auto simp: list_all2_Cons2)
    define m1 where "m1 = m(a \<mapsto> y)"
    have "list_all2 (\<lambda>a y. \<exists>x. m1 a = Some x \<and> obj_base x = obj_base y) as (outs ts ys)"
      using a(2-4) by (auto simp: m1_def elim!: list_all2_mono)
    from 4(1) [OF ok this, of "pre @ write_obj [] y"] True a deserialize_out_arg_ok [OF True ty]
    show ?thesis by (simp add: encode_def assign_at_def flip: m1_def)
  qed
qed (simp_all add: args_ok_def)

lemma deserialize_out_args_ok:
  assumes "args_ok ts ys" and "list_all2 (\<lambda>a y. \<exists>x. m a = Some x \<and> obj_base x = obj_base y) addrs (outs ts ys)"
  shows "deserialize_out_args (map ParamType_out_id (filter is_out ts)) (encode (outs ts ys)) addrs m = Some (m(addrs [\<mapsto>] outs ts ys))"
  using deserialize_out_args_from_ok [OF assms, of "[]" "[]"] by (simp add: deserialize_out_args_def)

text \<open>
  The actual arguments of a call: of the right kind for each parameter, and denoting the objects \<open>xs\<close>.
\<close>

definition actual_ok :: "cpp_type \<Rightarrow> actual \<Rightarrow> obj \<Rightarrow> mem \<Rightarrow> bool" where
  "actual_ok t a x m \<longleftrightarrow> has_type t x \<and> obj_small x \<and>
     (case a of
        By_value y \<Rightarrow> y = x \<and> \<not> is_reference t \<and> \<not> is_pointer t
      | Lvalue p \<Rightarrow> is_reference t \<and> m p = Some x
      | Pointer p \<Rightarrow> is_pointer t \<and> m p = Some x)"

fun actuals_ok :: "cpp_type list \<Rightarrow> actual list \<Rightarrow> obj list \<Rightarrow> mem \<Rightarrow> bool" where
  "actuals_ok [] [] [] m \<longleftrightarrow> True"
| "actuals_ok (t # ts) (a # as) (x # xs) m \<longleftrightarrow> actual_ok t a x m \<and> actuals_ok ts as xs m"
| "actuals_ok _ _ _ _ \<longleftrightarrow> False"

text \<open>
  The types of actual arguments without \<^verbatim>\<open>const\<close> and references, \<^verbatim>\<open>remove_cvref<Args>::type\<close>, and those that \<^verbatim>\<open>asyncRPC\<close> supports; a
  pointer to \<^verbatim>\<open>const\<close> stays one.
\<close>

datatype arg_type = A_object base | A_pointer base | A_const_pointer base | A_void

fun ArgType_valid :: "arg_type \<Rightarrow> bool" where
  "ArgType_valid (A_object b) = True"
| "ArgType_valid (A_pointer b) = (b \<in> {B_int, B_long, B_longlong, B_float, B_double, B_string, B_blob})"
| "ArgType_valid (A_const_pointer b) = False"
| "ArgType_valid A_void = True"

definition actual_type :: "actual \<Rightarrow> obj \<Rightarrow> arg_type" where
  "actual_type a x = (case a of Pointer p \<Rightarrow> A_pointer (obj_base x) | _ \<Rightarrow> A_object (obj_base x))"

text \<open>The arguments of the right kinds pass the check of their types.\<close>

lemma actuals_supported: "actuals_ok ts as xs m \<Longrightarrow> list_all2 (\<lambda>a x. ArgType_valid (actual_type a x)) as xs"
proof (induction ts as xs m rule: actuals_ok.induct)
  case (2 t ts a as x xs m)
  then have "is_pointer t \<and> remove_all t = Some (obj_base x)" if "a = Pointer p" for p
    using that by (simp add: actual_ok_def has_type_def)
  then have "obj_base x = B_string \<or> obj_base x = B_blob" if "a = Pointer p" for p
    using that by (auto simp: is_pointer_def)
  with 2 show ?case by (auto simp: actual_type_def split: actual.splits)
qed simp_all

primrec actual_addr :: "actual \<Rightarrow> addr" where
  "actual_addr (By_value y) = 0"
| "actual_addr (Lvalue p) = p"
| "actual_addr (Pointer p) = p"

text \<open>The parameters whose address the client keeps.\<close>

definition keeps :: "cpp_type \<Rightarrow> bool" where
  "keeps t \<longleftrightarrow> (is_reference t \<or> is_pointer t) \<and> \<not> is_const_noref t"

definition kept :: "cpp_type list \<Rightarrow> actual list \<Rightarrow> addr list" where
  "kept ts as = map (\<lambda>p. actual_addr (snd p)) (filter (\<lambda>p. keeps (fst p)) (zip ts as))"

context appending
begin

lemma serialize_arg_ok:
  "actual_ok t a x m \<Longrightarrow>
   serialize_arg wr t a m v s = Some (v @ (if keeps t then [actual_addr a] else []), s @ wr [] x)"
  by (cases a) (auto simp: actual_ok_def serialize_arg_def keeps_def is_reference_def is_pointer_def is_const_noref_def append [of s])

lemma serialize_args_ok:
  "actuals_ok ts as xs m \<Longrightarrow> serialize_args wr ts as m v s = Some (v @ kept ts as, s @ concat (map (wr []) xs))"
  unfolding serialize_args_def
proof (induction ts as xs m arbitrary: v s rule: actuals_ok.induct)
  case (2 t ts a as x xs m)
  then show ?case by (simp add: serialize_arg_ok [of t a x m] kept_def)
qed (simp_all add: kept_def)

end

interpretation binary: appending write_obj
  by unfold_locales (rule write_obj_append)

lemmas serialize_args_ok = binary.serialize_args_ok [folded encode_def]
lemmas serialize_out_args_ok = binary.serialize_out_args_ok [folded encode_def]

lemma actuals_args_ok: "actuals_ok ts as xs m \<Longrightarrow> args_ok ts xs"
  by (induction ts as xs m rule: actuals_ok.induct) (auto simp: args_ok_def actual_ok_def)

text \<open>
  Without pointers to \<^verbatim>\<open>const\<close> the addresses kept are those of the parameters that travel back.
\<close>

definition no_const_ptr :: "cpp_type list \<Rightarrow> bool" where
  "no_const_ptr ts \<longleftrightarrow> T_const_string_ptr \<notin> set ts \<and> T_const_blob_ptr \<notin> set ts"

lemma keeps_is_out: "ParamType_valid t \<Longrightarrow> t \<noteq> T_const_string_ptr \<Longrightarrow> t \<noteq> T_const_blob_ptr \<Longrightarrow> keeps t \<longleftrightarrow> is_out t"
  by (cases t) (simp_all add: keeps_def is_out_def is_reference_def is_pointer_def is_const_noref_def)

lemma kept_typed:
  assumes "actuals_ok ts as xs m" and "list_all2 has_type ts ys" and "list_all ParamType_valid ts" and "no_const_ptr ts"
  shows "list_all2 (\<lambda>a y. \<exists>x. m a = Some x \<and> obj_base x = obj_base y) (kept ts as) (outs ts ys)"
  using assms
proof (induction ts as xs m arbitrary: ys rule: actuals_ok.induct)
  case (2 t ts a as x xs m)
  then obtain y ys' where y: "ys = y # ys'" "has_type t y" "list_all2 has_type ts ys'" by (auto simp: list_all2_Cons1)
  have k: "keeps t \<longleftrightarrow> is_out t" using 2(4,5) by (intro keeps_is_out) (auto simp: no_const_ptr_def)
  have "m (actual_addr a) = Some x \<and> obj_base x = obj_base y" if "keeps t"
    using 2(2) y(2) that by (cases a) (auto simp: actual_ok_def keeps_def has_type_def)
  with 2 y k show ?case by (auto simp: kept_def no_const_ptr_def)
qed (auto simp: kept_def)

section \<open>The return value\<close>

definition result_ok :: "cpp_type \<Rightarrow> obj option \<Rightarrow> bool" where
  "result_ok R r \<longleftrightarrow> ReturnType_valid R \<and> (R \<noteq> T_void \<longrightarrow> (\<exists>x. r = Some x \<and> has_type R x))"

definition encode_result :: "cpp_type \<Rightarrow> obj option \<Rightarrow> bytes" where
  "encode_result R r = (if R = T_void then [] else (case r of None \<Rightarrow> [] | Some x \<Rightarrow> write_obj [] x))"

lemma result_cases:
  assumes "result_ok R r" and "R \<noteq> T_void"
  obtains w where "R = T_int" and "r = Some (O_int w)" | w where "R = T_long" and "r = Some (O_long w)"
    | w where "R = T_float" and "r = Some (O_float w)" | w where "R = T_longlong" and "r = Some (O_longlong w)"
    | w where "R = T_double" and "r = Some (O_double w)"
proof -
  obtain x where x: "r = Some x" "has_type R x" "R \<in> {T_int, T_long, T_float, T_longlong, T_double}"
    using assms by (auto simp: result_ok_def ReturnType_valid_def)
  then show thesis using that by (cases x) (auto simp: has_type_def)
qed

lemma deserialize_r_ok:
  assumes "result_ok R r" and "R \<noteq> T_void"
  obtains x v where "r = Some x" and "deserialize_r (ParamType_r_id R) (encode_result R r) = Some \<lparr>rv_valid = True, rv_type = ParamType_r_id R, rv_value = v\<rparr>"
    and "\<And>h. getAs R v h = Some x" and "length (encode_result R r) = r_size (ParamType_r_id R)"
proof -
  note d = deserialize_r_def encode_result_def write_obj_def write_int_def write_float_def AnyArg_of_def ucast_u64 r_size_def
    read_int_u32 [where rest = "[]", simplified] read_int_u64 [where rest = "[]", simplified]
    read_float_u32 [where rest = "[]", simplified] read_float_u64 [where rest = "[]", simplified]
  from assms show thesis
  proof (cases rule: result_cases)
    case (1 w) then show thesis by (intro that [of "O_int w" "AnyArg_of w"]) (simp_all add: d)
  next
    case (2 w) then show thesis by (intro that [of "O_long w" "AnyArg_of w"]) (simp_all add: d)
  next
    case (3 w) then show thesis by (intro that [of "O_float w" "AnyArg_of w"]) (simp_all add: d)
  next
    case (4 w) then show thesis by (intro that [of "O_longlong w" "AnyArg_of w"]) (simp_all add: d)
  next
    case (5 w) then show thesis by (intro that [of "O_double w" "AnyArg_of w"]) (simp_all add: d)
  qed
qed

end
