(* ===== verification/Codec_Properties.thy ===== *)
theory Codec_Properties
  imports Marshaller
begin

text \<open>
  The properties of the encoding of values: byte order, strings and blobs, the identifier of a text message, and
  the round trips of arguments and results between the client and the server.
\<close>

section \<open>Scalars and containers\<close>

text \<open>C25. The swap by shifts and the swap through a union agree on every width of the language; they reverse the
  bytes of an object and are their own inverse.\<close>

theorem byteswaps_agree:
  "sta_byteswap (a :: u16) = dyn_byteswap a \<and> sta_byteswap (b :: u32) = dyn_byteswap b \<and> sta_byteswap (c :: u64) = dyn_byteswap c \<and>
   bytes_of 2 (sta_byteswap a) = rev (bytes_of 2 a) \<and> bytes_of 4 (sta_byteswap b) = rev (bytes_of 4 b) \<and>
   bytes_of 8 (sta_byteswap c) = rev (bytes_of 8 c) \<and>
   sta_byteswap (sta_byteswap a) = a \<and> dyn_byteswap (dyn_byteswap b) = b \<and> sta_byteswap (sta_byteswap c) = c"
  by (simp add: sta_byteswap_eq_dyn_byteswap [where n = 2] sta_byteswap_eq_dyn_byteswap [where n = 4] sta_byteswap_eq_dyn_byteswap [where n = 8]
      bytes_of_dyn_byteswap dyn_byteswap_involutive [where n = 2] dyn_byteswap_involutive [where n = 4] dyn_byteswap_involutive [where n = 8])

text \<open>C26. A string or blob is read back from where it was written, whatever surrounds it, cut to its length modulo the
  range of the 16-bit length: whole when it has less than 65536 bytes.\<close>

theorem container_round_trip:
  "read_container (drop (length s) (write_container s x) @ rest) = Some (take (length x mod 65536) x)"
  by (simp add: write_container_append [of s x] read_container_def)
    (simp add: write_container_def write_int_def read_int_u16 unat_of_nat take_bit_eq_mod Let_def)

text \<open>The identifier of a text message, written in decimal digits, is read back.\<close>

theorem text_id_round_trip: "TextMessage_getId (TextMessage_setId i m) old = i"
  by (rule TextMessage_id_roundtrip)

section \<open>Arguments and results\<close>

context allocator
begin

lemma in_args_trip:
  assumes "actuals_ok Args as xs m" and "list_all ParamType_valid Args" and "finite (dom h)"
  shows "\<exists>addrs data vs h'. serialize_args write_obj Args as m [] [] = Some (addrs, data) \<and>
           deserialize_in_args malloc (codify_in_args Args) data h = Some (vs, h') \<and>
           get_params Args vs h' = Some xs \<and> owns Args vs h h'"
proof -
  obtain vs h' where "deserialize_in_args malloc (map ParamType_in_id Args) (encode xs) h = Some (vs, h')"
    "get_params Args vs h' = Some xs" "owns Args vs h h'"
    using deserialize_in_args_ok [OF actuals_args_ok [OF assms(1)] assms(3)] by metis
  then show ?thesis using serialize_args_ok [OF assms(1), of "[]" "[]"] codify_valid(1) [OF assms(2)] by auto
qed

end

text \<open>C20. The arguments of a call arrive: what the client writes for them the server reads back as the same
  objects, for every signature, and the server's memory grows by exactly the objects that the arguments own.\<close>

theorem in_args_round_trip:
  assumes "allocator malloc" and "actuals_ok Args as xs m" and "list_all ParamType_valid Args" and "finite (dom h)"
  shows "\<exists>addrs data vs h'. serialize_args write_obj Args as m [] [] = Some (addrs, data) \<and>
           deserialize_in_args malloc (codify_in_args Args) data h = Some (vs, h') \<and>
           get_params Args vs h' = Some xs \<and> owns Args vs h h'"
  by (rule allocator.in_args_trip [OF assms])

theorem in_args_round_trip_witness:
  "\<exists>addrs data vs h'. serialize_args write_obj [T_int_ref, T_const_string_ref, T_double] [Lvalue 1, Lvalue 2, By_value (O_double 5)]
        [1 \<mapsto> O_int 7, 2 \<mapsto> O_string (str ''abc'')] [] [] = Some (addrs, data) \<and>
      deserialize_in_args next_address (codify_in_args [T_int_ref, T_const_string_ref, T_double]) data Map.empty = Some (vs, h') \<and>
      get_params [T_int_ref, T_const_string_ref, T_double] vs h' = Some [O_int 7, O_string (str ''abc''), O_double 5]"
proof -
  let ?Args = "[T_int_ref, T_const_string_ref, T_double]" and ?as = "[Lvalue 1, Lvalue 2, By_value (O_double 5)]"
  let ?xs = "[O_int 7, O_string (str ''abc''), O_double 5]"
  let ?m = "[1 \<mapsto> O_int 7, 2 \<mapsto> O_string (str ''abc'')]"
  have a: "actuals_ok ?Args ?as ?xs ?m"
    by (simp add: actual_ok_def has_type_def obj_small_def is_reference_def is_pointer_def str_def)
  have v: "list_all ParamType_valid ?Args" by simp
  show ?thesis using in_args_round_trip [OF heap.allocator_axioms a v, of Map.empty] by auto
qed

text \<open>C21. The results come back: after the call the server serialises the objects of the reference and pointer parameters and
  frees all that the arguments own, so that its memory is what it was before the request; the client
  stores each object at the address of its parameter.\<close>

theorem out_args_round_trip:
  assumes "owns Args vs h0 h" and "list_all ParamType_valid Args" and "args_ok Args ys"
    and "list_all2 (\<lambda>a y. \<exists>x. m a = Some x \<and> obj_base x = obj_base y) addrs (outs Args ys)"
  shows "\<exists>vs' h' data. assign_params Args ys vs h = Some (vs', h') \<and>
           serialize_out_args write_obj (codify_in_args Args) vs' h' [] = Some (h0, data) \<and>
           deserialize_out_args (codify_out_args Args) data addrs m = Some (m(addrs [\<mapsto>] outs Args ys))"
proof -
  have "list_all2 has_type Args ys" using assms(3) by (rule args_ok_typed)
  from serialize_out_args_ok [OF assms(1) this] obtain vs' h' where
    "assign_params Args ys vs h = Some (vs', h')"
    "\<And>buf. serialize_out_args write_obj (map ParamType_in_id Args) vs' h' buf = Some (h0, buf @ encode (outs Args ys))" by blast
  then show ?thesis using codify_valid [OF assms(2)] deserialize_out_args_ok [OF assms(3,4)]
    by (intro exI [of _ vs'] exI [of _ h'] exI [of _ "encode (outs Args ys)"]) simp
qed

theorem out_args_round_trip_witness:
  "\<exists>vs' h' data. assign_params [T_int_ref, T_string_ref] [O_int 9, O_string (str ''ok'')] [Val 7, Ptr 1] [1 \<mapsto> O_string []] = Some (vs', h') \<and>
     serialize_out_args write_obj (codify_in_args [T_int_ref, T_string_ref]) vs' h' [] = Some (Map.empty, data) \<and>
     deserialize_out_args (codify_out_args [T_int_ref, T_string_ref]) data [3, 4] [3 \<mapsto> O_int 0, 4 \<mapsto> O_string []] =
       Some [3 \<mapsto> O_int 9, 4 \<mapsto> O_string (str ''ok'')]"
proof -
  let ?Args = "[T_int_ref, T_string_ref]" and ?ys = "[O_int 9, O_string (str ''ok'')]"
  have "owns ?Args [Val 7, Ptr 1] Map.empty [1 \<mapsto> O_string []]" by (simp add: is_container_def has_type_def)
  moreover have "list_all ParamType_valid ?Args" by simp
  moreover have "args_ok ?Args ?ys" by (simp add: args_ok_def has_type_def obj_small_def str_def)
  moreover have "list_all2 (\<lambda>a y. \<exists>x. [3 \<mapsto> O_int 0, 4 \<mapsto> O_string []] a = Some x \<and> obj_base x = obj_base y) [3, 4 :: nat] (outs ?Args ?ys)"
    by (simp add: is_out_def)
  ultimately show ?thesis using out_args_round_trip [of ?Args "[Val 7, Ptr 1]" Map.empty "[1 \<mapsto> O_string []]" ?ys "[3 \<mapsto> O_int 0, 4 \<mapsto> O_string []]" "[3, 4]"]
    by (simp add: is_out_def fun_upd_twist)
qed

text \<open>C39. A pointer to \<^verbatim>\<open>const\<close> does not travel back, but its address is kept among those of the results: with another result
  after it the client stores that result at the address of the constant object, of another type.\<close>

theorem const_pointer_shifts_results:
  assumes "m a = Some (O_string x)" and "m b = Some (O_int w)"
  shows "\<exists>data. serialize_args write_obj [T_const_string_ptr, T_int_ref] [Pointer a, Lvalue b] m [] [] = Some ([a, b], data) \<and>
           codify_out_args [T_const_string_ptr, T_int_ref] = [Out_INT_REF] \<and>
           deserialize_out_args [Out_INT_REF] (write_int [] y) [a, b] m = None"
  using assms
  by (simp add: serialize_args_def serialize_arg_def is_reference_def is_pointer_def is_const_noref_def codify_out_args_def
      deserialize_out_args_def deserialize_out_arg_def assign_at_def read_int_def copy_object_def write_int_def)

theorem const_pointer_shifts_results_witness:
  "deserialize_out_args [Out_INT_REF] (write_int [] (3 :: u32)) [1, 2] [1 \<mapsto> O_string [], 2 \<mapsto> O_int 0] = None"
  using const_pointer_shifts_results [of "[1 \<mapsto> O_string [], 2 \<mapsto> O_int 0]" 1 "[]" 2 0 "3 :: u32"] by simp

end
