(* ===== verification/Registry.thy ===== *)
theory Registry
  imports Prelude
begin

text \<open>
  The registry of remote functions (\<^verbatim>\<open>src/src/bmRPCRegistry.h\<close>): a hash map from names to pointers and a
  list that owns the elements. A pointer is \<open>None\<close> for null, otherwise the identity of a list node;
  identities are not used again, so that a pointer to an erased node is recognised. The name of an
  element, \<^verbatim>\<open>getName()\<close>, is a parameter.

  \<open>registered\<close> is the abstract view, the map from names to elements. The locale \<open>name_table\<close> is the contract
  that the server and the client rely on; the registry is an interpretation of it.
\<close>

section \<open>State and operations\<close>

type_synonym node = nat

record 'a FunctionsRegistry =
  functions_map :: "bytes \<rightharpoonup> node option"
  functions_list :: "(node \<times> 'a) list"
  next_node :: node

definition FunctionsRegistry_new :: "'a FunctionsRegistry" where
  "FunctionsRegistry_new = \<lparr>functions_map = Map.empty, functions_list = [], next_node = 0\<rparr>"

text \<open>Dereferencing a pointer, and writing through it.\<close>

definition deref :: "'a FunctionsRegistry \<Rightarrow> node option \<Rightarrow> 'a option" where
  "deref r p = do { q \<leftarrow> p; map_of (functions_list r) q }"

definition assign :: "'a FunctionsRegistry \<Rightarrow> node option \<Rightarrow> 'a \<Rightarrow> 'a FunctionsRegistry option" where
  "assign r p x =
     do {
       q \<leftarrow> p;
       _ \<leftarrow> map_of (functions_list r) q;
       Some (r\<lparr>functions_list := map (\<lambda>(a, y). (a, if a = q then x else y)) (functions_list r)\<rparr>)
     }"

text \<open>\<^verbatim>\<open>&(*got->second)\<close> dereferences the pointer of the entry.\<close>

definition Registry_insert :: "('a \<Rightarrow> bytes) \<Rightarrow> 'a \<Rightarrow> 'a FunctionsRegistry \<Rightarrow> (node option \<times> 'a FunctionsRegistry) option" where
  "Registry_insert getName rpc r =
     (case functions_map r (getName rpc) of
        Some None \<Rightarrow> None
      | Some (Some q) \<Rightarrow> Some (Some q, r)
      | None \<Rightarrow>
          (let q = next_node r
           in Some (Some q,
                    r\<lparr>functions_list := (q, rpc) # functions_list r,
                      functions_map := (functions_map r)(getName rpc \<mapsto> Some q),
                      next_node := Suc q\<rparr>)))"

text \<open>The loop that erases the first node with the name.\<close>

fun erase_named :: "('a \<Rightarrow> bytes) \<Rightarrow> bytes \<Rightarrow> (node \<times> 'a) list \<Rightarrow> (node \<times> 'a) list" where
  "erase_named getName name [] = []"
| "erase_named getName name ((a, x) # l) =
     (if getName x = name then l else (a, x) # erase_named getName name l)"

definition Registry_remove :: "('a \<Rightarrow> bytes) \<Rightarrow> node option \<Rightarrow> 'a FunctionsRegistry \<Rightarrow> 'a FunctionsRegistry option" where
  "Registry_remove getName rpc r =
     (if rpc \<noteq> None
      then do {
        x \<leftarrow> deref r rpc;
        let name = getName x;
        Some (r\<lparr>functions_map := (functions_map r)(name := None),
                functions_list := erase_named getName name (functions_list r)\<rparr>)
      }
      else Some r)"

definition Registry_find :: "bytes \<Rightarrow> 'a FunctionsRegistry \<Rightarrow> node option" where
  "Registry_find name r = (case functions_map r name of Some p \<Rightarrow> p | None \<Rightarrow> None)"

text \<open>\<^verbatim>\<open>functions_map[name]\<close> adds a null pointer for a name that is not there.\<close>

definition Registry_get :: "bytes \<Rightarrow> 'a FunctionsRegistry \<Rightarrow> node option \<times> 'a FunctionsRegistry" where
  "Registry_get name r =
     (case functions_map r name of
        Some p \<Rightarrow> (p, r)
      | None \<Rightarrow> (None, r\<lparr>functions_map := (functions_map r)(name \<mapsto> None)\<rparr>))"

definition Registry_empty :: "'a FunctionsRegistry \<Rightarrow> bool" where
  "Registry_empty r \<longleftrightarrow> functions_map r = Map.empty"

section \<open>Invariant and abstract view\<close>

definition nodes :: "'a FunctionsRegistry \<Rightarrow> node \<rightharpoonup> 'a" where
  "nodes r = map_of (functions_list r)"

definition registered :: "'a FunctionsRegistry \<Rightarrow> bytes \<rightharpoonup> 'a" where
  "registered r name = (case functions_map r name of Some (Some q) \<Rightarrow> nodes r q | _ \<Rightarrow> None)"

definition registry_ok :: "('a \<Rightarrow> bytes) \<Rightarrow> 'a FunctionsRegistry \<Rightarrow> bool" where
  "registry_ok getName r \<longleftrightarrow> distinct (map fst (functions_list r)) \<and>
     (\<forall>a x. nodes r a = Some x \<longrightarrow> a < next_node r \<and> functions_map r (getName x) = Some (Some a)) \<and>
     (\<forall>name q. functions_map r name = Some (Some q) \<longrightarrow> (\<exists>x. nodes r q = Some x \<and> getName x = name))"

lemma registry_okI:
  assumes "distinct (map fst (functions_list r))"
    and "\<And>a x. nodes r a = Some x \<Longrightarrow> a < next_node r \<and> functions_map r (getName x) = Some (Some a)"
    and "\<And>name q. functions_map r name = Some (Some q) \<Longrightarrow> \<exists>x. nodes r q = Some x \<and> getName x = name"
  shows "registry_ok getName r"
  using assms unfolding registry_ok_def by blast

lemma registry_okD:
  assumes "registry_ok getName r"
  shows "distinct (map fst (functions_list r))"
    and "nodes r a = Some x \<Longrightarrow> a < next_node r" and "nodes r a = Some x \<Longrightarrow> functions_map r (getName x) = Some (Some a)"
    and "functions_map r name = Some (Some q) \<Longrightarrow> \<exists>x. nodes r q = Some x \<and> getName x = name"
  using assms unfolding registry_ok_def by blast+

lemma registry_ok_new: "registry_ok getName FunctionsRegistry_new"
  by (rule registry_okI) (simp_all add: FunctionsRegistry_new_def nodes_def)

lemma deref_nodes: "deref r (Some q) = nodes r q" and deref_None [simp]: "deref r None = None"
  by (simp_all add: deref_def nodes_def)

lemma registered_find: "registered r name = deref r (Registry_find name r)"
  by (simp add: registered_def Registry_find_def deref_nodes split: option.split)

lemma registered_name: "registry_ok getName r \<Longrightarrow> registered r name = Some x \<Longrightarrow> getName x = name"
  by (auto simp: registered_def split: option.splits dest: registry_okD(4))

lemma registered_node: "registry_ok getName r \<Longrightarrow> nodes r q = Some x \<Longrightarrow> registered r (getName x) = Some x"
  by (simp add: registered_def registry_okD(3))

lemma nodes_set: "registry_ok getName r \<Longrightarrow> (a, x) \<in> set (functions_list r) \<longleftrightarrow> nodes r a = Some x"
  by (simp add: nodes_def registry_okD(1))

lemma erase_named_filter:
  "(\<And>a x b y. (a, x) \<in> set l \<Longrightarrow> (b, y) \<in> set l \<Longrightarrow> getName x = name \<Longrightarrow> getName y = name \<Longrightarrow> a = b) \<Longrightarrow>
   distinct (map fst l) \<Longrightarrow> erase_named getName name l = filter (\<lambda>p. getName (snd p) \<noteq> name) l"
proof (induction l)
  case (Cons p l)
  obtain a x where p: "p = (a, x)" by (cases p)
  show ?case
  proof (cases "getName x = name")
    case True
    have "getName (snd z) \<noteq> name" if "z \<in> set l" for z
      using Cons.prems(1) [of a x "fst z" "snd z"] Cons.prems(2) that True p by force
    then have "filter (\<lambda>p. getName (snd p) \<noteq> name) l = l" by (simp add: filter_id_conv)
    with True p show ?thesis by simp
  next
    case False
    have "erase_named getName name l = filter (\<lambda>p. getName (snd p) \<noteq> name) l"
      by (rule Cons.IH) (use Cons.prems in \<open>auto intro: Cons.prems(1)\<close>)
    with False p show ?thesis by simp
  qed
qed simp

lemma erase_named_ok:
  assumes ok: "registry_ok getName r"
  shows "erase_named getName name (functions_list r) = filter (\<lambda>p. getName (snd p) \<noteq> name) (functions_list r)"
proof (rule erase_named_filter)
  show "distinct (map fst (functions_list r))" using ok by (rule registry_okD)
  fix a x b y
  assume "(a, x) \<in> set (functions_list r)" "(b, y) \<in> set (functions_list r)" "getName x = name" "getName y = name"
  then have "functions_map r name = Some (Some a)" "functions_map r name = Some (Some b)"
    using registry_okD(3) [OF ok, of a x] registry_okD(3) [OF ok, of b y] by (simp_all add: nodes_set [OF ok])
  then show "a = b" by simp
qed

section \<open>The operations\<close>

lemma insert_new:
  assumes ok: "registry_ok getName r" and new: "functions_map r (getName rpc) = None"
  shows "\<exists>q r'. Registry_insert getName rpc r = Some (Some q, r') \<and> registry_ok getName r' \<and>
           registered r' = (registered r)(getName rpc \<mapsto> rpc) \<and> deref r' (Some q) = Some rpc"
proof -
  let ?q = "next_node r"
  let ?r = "r\<lparr>functions_list := (?q, rpc) # functions_list r, functions_map := (functions_map r)(getName rpc \<mapsto> Some ?q),
              next_node := Suc ?q\<rparr>"
  have nq: "nodes r ?q = None" using registry_okD(2) [OF ok, of ?q] by (cases "nodes r ?q") auto
  have n: "nodes ?r = (nodes r)(?q \<mapsto> rpc)" by (simp add: nodes_def)
  have ok': "registry_ok getName ?r"
  proof (rule registry_okI, goal_cases)
    case 1
    have "?q \<notin> fst ` set (functions_list r)" using nq unfolding nodes_def map_of_eq_None_iff .
    then show ?case using registry_okD(1) [OF ok] by simp
  next
    case (2 a x)
    then show ?case using registry_okD(2,3) [OF ok, of a x] new by (auto simp: n split: if_splits)
  next
    case (3 name q)
    then show ?case using registry_okD(4) [OF ok, of name q] nq by (auto simp: n split: if_splits)
  qed
  have "registered ?r name = ((registered r)(getName rpc \<mapsto> rpc)) name" for name
  proof (cases "\<exists>q. functions_map r name = Some (Some q)")
    case True
    then obtain q y where "functions_map r name = Some (Some q)" "nodes r q = Some y" using registry_okD(4) [OF ok] by blast
    moreover from this nq have "q \<noteq> ?q" by auto
    ultimately show ?thesis by (simp add: registered_def n)
  next
    case False
    then show ?thesis by (auto simp: registered_def n split: option.split)
  qed
  with ok' new show ?thesis
    by (intro exI [of _ ?q] exI [of _ ?r]) (simp add: Registry_insert_def Let_def deref_nodes n fun_eq_iff)
qed

lemma insert_old:
  "functions_map r (getName rpc) = Some (Some q) \<Longrightarrow> Registry_insert getName rpc r = Some (Some q, r)"
  by (simp add: Registry_insert_def)

lemma remove_ok:
  assumes ok: "registry_ok getName r" and q: "deref r (Some q) = Some x"
  shows "\<exists>r'. Registry_remove getName (Some q) r = Some r' \<and> registry_ok getName r' \<and>
           registered r' = (registered r)(getName x := None) \<and> deref r' (Some q) = None"
proof -
  let ?l = "filter (\<lambda>p. getName (snd p) \<noteq> getName x) (functions_list r)"
  let ?r = "r\<lparr>functions_map := (functions_map r)(getName x := None), functions_list := ?l\<rparr>"
  note d = registry_okD(1) [OF ok]
  have d': "distinct (map fst ?l)" using d by (rule distinct_map_filter)
  have m: "nodes ?r a = Some y \<longleftrightarrow> nodes r a = Some y \<and> getName y \<noteq> getName x" for a y
    using map_of_eq_Some_iff [OF d] map_of_eq_Some_iff [OF d'] by (simp add: nodes_def)
  have ok': "registry_ok getName ?r"
  proof (rule registry_okI, goal_cases)
    case 1
    then show ?case using d' by simp
  next
    case (2 a y)
    then show ?case using registry_okD(2,3) [OF ok, of a y] unfolding m by simp
  next
    case (3 name b)
    then show ?case using registry_okD(4) [OF ok, of name b] unfolding m by (auto split: if_splits)
  qed
  have "registered ?r name = ((registered r)(getName x := None)) name" for name
  proof (cases "functions_map r name = None \<or> functions_map r name = Some None \<or> name = getName x")
    case False
    then obtain b y where b: "functions_map r name = Some (Some b)" "nodes r b = Some y" "getName y = name"
      using registry_okD(4) [OF ok, of name] by auto
    with False m [of b y] show ?thesis by (simp add: registered_def)
  qed (auto simp: registered_def)
  moreover have "nodes ?r q = None"
  proof (rule ccontr)
    assume "nodes ?r q \<noteq> None"
    then obtain y where "nodes ?r q = Some y" by blast
    with m [of q y] q show False by (simp add: deref_nodes)
  qed
  ultimately show ?thesis using q ok'
    by (intro exI [of _ ?r]) (simp add: Registry_remove_def erase_named_ok [OF ok] deref_nodes fun_eq_iff Let_def)
qed

lemma get_ok:
  assumes ok: "registry_ok getName r" and g: "Registry_get name r = (p, r')"
  shows "registry_ok getName r'" and "registered r' = registered r" and "deref r' p = registered r name"
    and "functions_list r' = functions_list r" and "p = Registry_find name r"
proof -
  have n: "nodes r' = nodes r" "functions_list r' = functions_list r" "next_node r' = next_node r"
      "functions_map r' = (if functions_map r name = None then (functions_map r)(name \<mapsto> None) else functions_map r)"
    using g by (auto simp: Registry_get_def nodes_def split: option.splits)
  show "registry_ok getName r'"
  proof (rule registry_okI, goal_cases)
    case 1
    then show ?case using registry_okD(1) [OF ok] by (simp add: n)
  next
    case (2 a x)
    then show ?case using registry_okD(2,3) [OF ok, of a x] by (auto simp: n)
  next
    case (3 nm b)
    then show ?case using registry_okD(4) [OF ok, of nm b] by (auto simp: n split: if_splits)
  qed
  show "registered r' = registered r" by (rule ext) (simp add: registered_def n split: option.split)
  show p: "p = Registry_find name r" using g by (simp add: Registry_get_def Registry_find_def split: option.splits)
  show "deref r' p = registered r name" by (simp add: registered_find p deref_def n)
  show "functions_list r' = functions_list r" by (rule n)
qed

lemma assign_ok:
  assumes ok: "registry_ok getName r" and q: "deref r p = Some y" and nm: "getName x = getName y"
  shows "\<exists>r'. assign r p x = Some r' \<and> registry_ok getName r' \<and> registered r' = (registered r)(getName x \<mapsto> x) \<and>
           functions_map r' = functions_map r"
proof -
  obtain a where a: "p = Some a" "nodes r a = Some y" using q by (cases p) (auto simp: deref_nodes)
  let ?f = "\<lambda>(b, z). (b, if b = a then x else z)"
  let ?r = "r\<lparr>functions_list := map ?f (functions_list r)\<rparr>"
  have f: "map fst (map ?f (functions_list r)) = map fst (functions_list r)" by (auto simp: case_prod_unfold)
  have "map_of (map ?f l) b = map_option (\<lambda>z. if b = a then x else z) (map_of l b)" for l b
    by (induction l) auto
  then have n: "nodes ?r = (nodes r)(a \<mapsto> x)" using a(2) by (auto simp: nodes_def fun_eq_iff option.map_ident)
  have fm: "functions_map r (getName y) = Some (Some a)" using registry_okD(3) [OF ok a(2)] .
  have ok': "registry_ok getName ?r"
  proof (rule registry_okI, goal_cases)
    case 1
    then show ?case using registry_okD(1) [OF ok] by (simp add: f del: map_map)
  next
    case (2 b z)
    then show ?case using registry_okD(2,3) [OF ok, of b z] registry_okD(2) [OF ok a(2)] fm nm by (auto simp: n split: if_splits)
  next
    case (3 name b)
    then show ?case using registry_okD(4) [OF ok, of name b] a(2) nm by (auto simp: n)
  qed
  have "registered ?r name = ((registered r)(getName x \<mapsto> x)) name" for name
  proof (cases "\<exists>q. functions_map r name = Some (Some q)")
    case True
    then obtain q z where "functions_map r name = Some (Some q)" "nodes r q = Some z" "getName z = name"
      using registry_okD(4) [OF ok] by blast
    moreover from this a(2) fm nm have "q = a \<longleftrightarrow> name = getName x" by auto
    ultimately show ?thesis by (auto simp: registered_def n)
  next
    case False
    with fm nm show ?thesis by (auto simp: registered_def n split: option.split)
  qed
  with ok' a show ?thesis by (intro exI [of _ ?r]) (simp add: assign_def fun_eq_iff nodes_def)
qed

section \<open>Contract\<close>

text \<open>What the server and the client rely on: a table that is a map from the names to the elements.\<close>

locale name_table =
  fixes name_of :: "'a \<Rightarrow> bytes"
    and ok :: "'r \<Rightarrow> bool"
    and view :: "'r \<Rightarrow> bytes \<rightharpoonup> 'a"
    and get :: "bytes \<Rightarrow> 'r \<Rightarrow> 'p \<times> 'r"
    and load :: "'r \<Rightarrow> 'p \<Rightarrow> 'a option"
    and store :: "'r \<Rightarrow> 'p \<Rightarrow> 'a \<Rightarrow> 'r option"
  assumes get_law: "ok r \<Longrightarrow> get name r = (p, r') \<Longrightarrow> ok r' \<and> view r' = view r \<and> load r' p = view r name"
    and store_law: "ok r \<Longrightarrow> load r p = Some y \<Longrightarrow> name_of x = name_of y \<Longrightarrow>
      \<exists>r'. store r p x = Some r' \<and> ok r' \<and> view r' = (view r)(name_of x \<mapsto> x)"
    and name_law: "ok r \<Longrightarrow> view r name = Some x \<Longrightarrow> name_of x = name"
begin

text \<open>Looking an element up and writing it back under its name.\<close>

lemma update_element:
  assumes r: "ok r" and v: "view r name = Some x" and n: "name_of y = name" and g: "get name r = (p, r1)"
  obtains r2 where "load r1 p = Some x" and "store r1 p y = Some r2" and "ok r2" and "view r2 = (view r)(name \<mapsto> y)"
proof -
  have 1: "ok r1" "view r1 = view r" "load r1 p = Some x" using get_law [OF r g] v by auto
  moreover have "name_of y = name_of x" using name_law [OF r v] n by simp
  ultimately show thesis using store_law [OF 1(1,3), of y] n that by auto
qed

lemma unknown_element:
  assumes "ok r" and "view r name = None" and "get name r = (p, r1)"
  shows "ok r1" and "view r1 = view r" and "load r1 p = None"
  using get_law [OF assms(1,3)] assms(2) by auto

end

interpretation registry: name_table getName "registry_ok getName" registered Registry_get deref assign
  for getName :: "'a \<Rightarrow> bytes"
proof (unfold_locales, goal_cases)
  case (1 r name p r')
  then show ?case using get_ok [OF 1] by simp
next
  case (2 r p y x)
  then show ?case using assign_ok [OF 2] by blast
next
  case (3 r name x)
  then show ?case by (rule registered_name)
qed

end
