(* ===== verification/Server.thy ===== *)
theory Server
  imports Peer Marshaller Registry
begin

text \<open>
  The server side: \<^verbatim>\<open>Skeleton\<close> (\<^verbatim>\<open>src/src/bmRPCStub.h\<close>) and \<^verbatim>\<open>RpcServer\<close> (\<^verbatim>\<open>src/src/bmRPCServer.h\<close>). The
  closure that \<^verbatim>\<open>connect\<close> stores in a skeleton is the function with its signature; \<open>f_lambda\<close> is its body. The
  memory of the process, where the arguments of a call live, is a field.
\<close>

section \<open>Skeleton\<close>

record Skeleton =
  sk_id :: bytes
  sk_in_args_format :: "InArgTypeId list"
  sk_out_args_format :: "OutArgTypeId list"
  sk_r_format :: RArgTypeId
  sk_in_args :: bytes
  sk_out_args :: bytes
  sk_invocation_id :: u16
  sk_func :: "(cpp_type \<times> cpp_type list \<times> remote) option"

definition Skeleton_new :: Skeleton where
  "Skeleton_new =
     \<lparr>sk_id = [], sk_in_args_format = [], sk_out_args_format = [], sk_r_format = R_VOID, sk_in_args = [],
      sk_out_args = [], sk_invocation_id = 0, sk_func = None\<rparr>"

text \<open>\<^verbatim>\<open>AnyArg(returned_value)\<close>.\<close>

definition AnyArg_result :: "obj \<Rightarrow> AnyArg option" where
  "AnyArg_result r =
     (case r of
        O_int w \<Rightarrow> Some (AnyArg_of w) | O_long w \<Rightarrow> Some (AnyArg_of w) | O_float w \<Rightarrow> Some (AnyArg_of w)
      | O_longlong w \<Rightarrow> Some (AnyArg_of w) | O_double w \<Rightarrow> Some (AnyArg_of w) | _ \<Rightarrow> None)"

definition f_lambda :: "(mem \<Rightarrow> addr) \<Rightarrow> cpp_type \<Rightarrow> cpp_type list \<Rightarrow> remote \<Rightarrow> Skeleton \<Rightarrow> mem \<Rightarrow> (Skeleton \<times> mem) option" where
  "f_lambda malloc R Args func_address p_rpc h =
     do {
       (vec, h) \<leftarrow> deserialize_in_args malloc (sk_in_args_format p_rpc) (sk_in_args p_rpc) h;
       (r, vec, h) \<leftarrow> callWithArgs func_address Args vec h;
       if R = T_void
       then do {
         (h, out) \<leftarrow> serialize_out_args write_obj (sk_in_args_format p_rpc) vec h [];
         Some (p_rpc\<lparr>sk_out_args := out\<rparr>, h)
       }
       else do {
         returned_value \<leftarrow> r;
         val \<leftarrow> AnyArg_result returned_value;
         ss \<leftarrow> serialize_r write_obj (sk_r_format p_rpc) val h [];
         (h, ss) \<leftarrow> serialize_out_args write_obj (sk_in_args_format p_rpc) vec h ss;
         Some (p_rpc\<lparr>sk_out_args := ss\<rparr>, h)
       }
     }"

definition Skeleton_dispatch :: "(mem \<Rightarrow> addr) \<Rightarrow> Skeleton \<Rightarrow> mem \<Rightarrow> (Skeleton \<times> mem) option" where
  "Skeleton_dispatch malloc sk h =
     do { (R, Args, func) \<leftarrow> sk_func sk; f_lambda malloc R Args func sk h }"

definition unmarshall_args_in :: "bytes \<Rightarrow> bytes" where
  "unmarshall_args_in data = data"

definition Skeleton_unmarshall :: "BinMessage \<Rightarrow> Skeleton \<Rightarrow> Skeleton" where
  "Skeleton_unmarshall msg sk =
     sk\<lparr>sk_id := bm_name msg, sk_in_args := unmarshall_args_in (bm_value msg), sk_invocation_id := bm_id msg\<rparr>"

definition Skeleton_marshall :: "Skeleton \<Rightarrow> BinMessage" where
  "Skeleton_marshall sk =
     (let msg = BinMessage_new;
          msg = BinMessage_setName (sk_id sk) msg;
          msg = BinMessage_setValue (sk_out_args sk) msg;
          msg = BinMessage_setId (sk_invocation_id sk) msg
      in msg)"

section \<open>Server\<close>

record 'c RpcServer = "'c Peer" +
  srv_registry :: "Skeleton FunctionsRegistry"
  srv_mem :: mem

definition SERVER_LOOP_TOUT_MS :: int where
  "SERVER_LOOP_TOUT_MS = 5"

definition RpcServer_new :: "(u8, 'c) comm \<Rightarrow> 'c \<Rightarrow> bytes \<Rightarrow> bytes \<Rightarrow> mem \<Rightarrow> 'c RpcServer" where
  "RpcServer_new C com tx rx h =
     \<lparr>tx_msg_buffer = [], rx_msg_buffer = [], m_init_deserializer = False, m_init_serializer = False,
      m_streamer = Streamer_new C com tx rx, m_deserializer = BinDeserializer_new, m_serializer = BinSerializer_new,
      tx_msg = BinMessage_new, rx_msg = BinMessage_new, srv_registry = FunctionsRegistry_new, srv_mem = h\<rparr>"

definition RpcServer_connect :: "bytes \<Rightarrow> cpp_type \<Rightarrow> cpp_type list \<Rightarrow> remote \<Rightarrow> 'c RpcServer \<Rightarrow> (node option \<times> 'c RpcServer) option" where
  "RpcServer_connect func_name R Args func_address p =
     do {
       sargs \<leftarrow> stringify Args;
       let rpc = Skeleton_new\<lparr>
         sk_func := Some (R, Args, func_address),
         sk_in_args_format := codify_in_args Args,
         sk_out_args_format := codify_out_args Args,
         sk_r_format := ParamType_r_id R,
         sk_id := ParamType_name R @ str '' '' @ func_name @ str '' '' @ sargs\<rparr>;
       (p_rpc, reg) \<leftarrow> Registry_insert sk_id rpc (srv_registry p);
       Some (p_rpc, p\<lparr>srv_registry := reg\<rparr>)
     }"

definition RpcServer_disconnect :: "node option \<Rightarrow> 'c RpcServer \<Rightarrow> 'c RpcServer option" where
  "RpcServer_disconnect rpc p =
     do { reg \<leftarrow> Registry_remove sk_id rpc (srv_registry p); Some (p\<lparr>srv_registry := reg\<rparr>) }"

text \<open>One turn of the dispatch loop, for the message at the front of the queue.\<close>

definition serve_msg :: "(mem \<Rightarrow> addr) \<Rightarrow> BinMessage \<Rightarrow> 'c RpcServer \<Rightarrow> 'c RpcServer option" where
  "serve_msg malloc msg p =
     (let (rpc, reg) = Registry_get (bm_name msg) (srv_registry p)
      in if rpc \<noteq> None
         then do {
           sk \<leftarrow> deref reg rpc;
           (sk, h) \<leftarrow> Skeleton_dispatch malloc (Skeleton_unmarshall msg sk) (srv_mem p);
           reg \<leftarrow> assign reg rpc sk;
           let msg = Skeleton_marshall sk;
           Some (p\<lparr>srv_registry := reg, srv_mem := h, tx_msg_buffer := tx_msg_buffer p @ [msg]\<rparr>)
         }
         else Some (p\<lparr>srv_registry := reg\<rparr>))"

text \<open>The loop takes the messages from the queue until it is empty.\<close>

fun serve_msgs :: "(mem \<Rightarrow> addr) \<Rightarrow> BinMessage list \<Rightarrow> 'c RpcServer \<Rightarrow> 'c RpcServer option" where
  "serve_msgs malloc [] p = Some p"
| "serve_msgs malloc (msg # msgs) p =
     do { p \<leftarrow> serve_msg malloc msg p; serve_msgs malloc msgs (p\<lparr>rx_msg_buffer := msgs\<rparr>) }"

definition RpcServer_doLoop :: "(u8, 'c) comm \<Rightarrow> (mem \<Rightarrow> addr) \<Rightarrow> int stream \<Rightarrow> 'c RpcServer \<Rightarrow> ('c RpcServer \<times> int stream) option" where
  "RpcServer_doLoop C malloc clk p =
     do {
       (p, clk) \<leftarrow> rx_phase C SERVER_LOOP_TOUT_MS clk p;
       p \<leftarrow> serve_msgs malloc (rx_msg_buffer p) p;
       tx_phase C SERVER_LOOP_TOUT_MS clk p
     }"

section \<open>A call\<close>

lemma AnyArg_result_ok:
  assumes "result_ok R r" and "R \<noteq> T_void"
  shows "\<exists>x v. r = Some x \<and> AnyArg_result x = Some v \<and> serialize_r wr (ParamType_r_id R) v h buf = Some (wr buf x)"
proof -
  note d = AnyArg_result_def serialize_r_def AnyArg_write_def AnyArg_of_def ucast_u64
  from assms show ?thesis by (cases rule: result_cases) (simp_all add: d)
qed

text \<open>A skeleton as \<^verbatim>\<open>connect\<close> makes it.\<close>

definition skeleton_ok :: "cpp_type \<Rightarrow> cpp_type list \<Rightarrow> remote \<Rightarrow> Skeleton \<Rightarrow> bool" where
  "skeleton_ok R Args func sk \<longleftrightarrow> sk_func sk = Some (R, Args, func) \<and> sk_in_args_format sk = codify_in_args Args \<and>
     sk_r_format sk = ParamType_r_id R \<and> ParamTraits_valid R Args"

text \<open>The remote function, on arguments of its types, returns values of its types.\<close>

definition remote_typed :: "cpp_type \<Rightarrow> cpp_type list \<Rightarrow> remote \<Rightarrow> obj list \<Rightarrow> bool" where
  "remote_typed R Args func xs \<longleftrightarrow> result_ok R (fst (func xs)) \<and> list_all2 has_type Args (snd (func xs))"

context allocator
begin

lemma f_lambda_ok:
  assumes sk: "skeleton_ok R Args func sk" and xs: "args_ok Args xs" "sk_in_args sk = encode xs"
    and f: "remote_typed R Args func xs" and h: "finite (dom h)"
  shows "f_lambda malloc R Args func sk h =
           Some (sk\<lparr>sk_out_args := encode_result R (fst (func xs)) @ encode (outs Args (snd (func xs)))\<rparr>, h)"
proof -
  obtain r ys where fx: "func xs = (r, ys)" by (cases "func xs")
  have fmt: "sk_in_args_format sk = map ParamType_in_id Args"
    using sk codify_valid by (simp add: skeleton_ok_def ParamTraits_valid_def)
  obtain vs h1 where 1: "deserialize_in_args malloc (map ParamType_in_id Args) (encode xs) h = Some (vs, h1)"
    "get_params Args vs h1 = Some xs" "owns Args vs h h1"
    using deserialize_in_args_ok [OF xs(1) h] by metis
  have "list_all2 has_type Args ys" using f fx by (simp add: remote_typed_def)
  from serialize_out_args_ok [OF 1(3) this] obtain vs2 h2 where 2: "assign_params Args ys vs h1 = Some (vs2, h2)"
    "\<And>buf. serialize_out_args write_obj (map ParamType_in_id Args) vs2 h2 buf = Some (h, buf @ encode (outs Args ys))" by blast
  have c: "callWithArgs func Args vs h1 = Some (r, vs2, h2)" using 1(2) 2(1) fx by (simp add: callWithArgs_def)
  have r: "result_ok R r" using f fx by (simp add: remote_typed_def)
  show ?thesis
  proof (cases "R = T_void")
    case True
    then show ?thesis using fmt xs(2) 1(1) c 2(2) fx by (simp add: f_lambda_def encode_result_def)
  next
    case False
    obtain x v where "r = Some x" "AnyArg_result x = Some v" "serialize_r write_obj (ParamType_r_id R) v h2 [] = Some (encode_result R r)"
      using AnyArg_result_ok [OF r False, of write_obj h2 "[]"] False by (auto simp: encode_result_def)
    with False show ?thesis using fmt xs(2) 1(1) c 2(2) fx sk by (simp add: f_lambda_def skeleton_ok_def)
  qed
qed

text \<open>The server's answer to a request: the result and the reference arguments, under the same name and number.\<close>

lemma serve_msg_ok:
  assumes ok: "registry_ok sk_id (srv_registry p)" and reg: "registered (srv_registry p) (bm_name msg) = Some sk"
    and sk: "skeleton_ok R Args func sk" and xs: "args_ok Args xs" "bm_value msg = encode xs"
    and f: "remote_typed R Args func xs" and h: "finite (dom (srv_mem p))"
  obtains p' sk' where "serve_msg malloc msg p = Some p'"
    and "tx_msg_buffer p' = tx_msg_buffer p @ [\<lparr>bm_name = bm_name msg, bm_id = bm_id msg,
           bm_value = encode_result R (fst (func xs)) @ encode (outs Args (snd (func xs)))\<rparr>]"
    and "srv_mem p' = srv_mem p" and "registry_ok sk_id (srv_registry p')"
    and "registered (srv_registry p') = (registered (srv_registry p))(bm_name msg \<mapsto> sk')" and "skeleton_ok R Args func sk'"
    and "p' = p\<lparr>srv_registry := srv_registry p', tx_msg_buffer := tx_msg_buffer p'\<rparr>"
proof -
  obtain q r1 where g: "Registry_get (bm_name msg) (srv_registry p) = (q, r1)" by (cases "Registry_get (bm_name msg) (srv_registry p)")
  let ?sk = "Skeleton_unmarshall msg sk"
  let ?sk' = "?sk\<lparr>sk_out_args := encode_result R (fst (func xs)) @ encode (outs Args (snd (func xs)))\<rparr>"
  have sk': "skeleton_ok R Args func ?sk" "sk_in_args ?sk = encode xs"
    using sk xs(2) by (simp_all add: skeleton_ok_def Skeleton_unmarshall_def unmarshall_args_in_def)
  obtain r2 where r: "deref r1 q = Some sk" "assign r1 q ?sk' = Some r2" "registry_ok sk_id r2"
      "registered r2 = (registered (srv_registry p))(bm_name msg \<mapsto> ?sk')"
    by (rule registry.update_element [OF ok reg _ g, of ?sk']) (auto simp: Skeleton_unmarshall_def)
  have "Skeleton_dispatch malloc ?sk (srv_mem p) = Some (?sk', srv_mem p)"
    using f_lambda_ok [OF sk'(1) xs(1) sk'(2) f h] sk'(1) by (simp add: Skeleton_dispatch_def skeleton_ok_def)
  moreover have "q \<noteq> None" using r(1) by (cases q) auto
  moreover have "Skeleton_marshall ?sk' = \<lparr>bm_name = bm_name msg, bm_id = bm_id msg,
           bm_value = encode_result R (fst (func xs)) @ encode (outs Args (snd (func xs)))\<rparr>"
    by (simp add: Skeleton_marshall_def Skeleton_unmarshall_def BinMessage_new_def BinMessage_setName_def BinMessage_setValue_def BinMessage_setId_def)
  ultimately show thesis using g r sk'
    by (intro that [of "p\<lparr>srv_registry := r2, srv_mem := srv_mem p, tx_msg_buffer := tx_msg_buffer p @ [Skeleton_marshall ?sk']\<rparr>" ?sk'])
      (simp_all add: serve_msg_def skeleton_ok_def)
qed

end

text \<open>A request for a name that is not registered is dropped.\<close>

lemma serve_msg_unknown:
  assumes ok: "registry_ok sk_id (srv_registry p)" and none: "registered (srv_registry p) (bm_name msg) = None"
  obtains r where "serve_msg malloc msg p = Some (p\<lparr>srv_registry := r\<rparr>)" and "registry_ok sk_id r"
    and "registered r = registered (srv_registry p)"
proof -
  obtain q r1 where g: "Registry_get (bm_name msg) (srv_registry p) = (q, r1)" by (cases "Registry_get (bm_name msg) (srv_registry p)")
  note u = registry.unknown_element [OF ok none g]
  have "q = Registry_find (bm_name msg) (srv_registry p)" using get_ok(5) [OF ok g] .
  moreover have "Registry_find (bm_name msg) (srv_registry p) = None"
    using none ok registry_okD(4) [OF ok, of "bm_name msg"]
    by (auto simp: registered_def Registry_find_def split: option.splits)
  ultimately show thesis using g u by (intro that [of r1]) (simp_all add: serve_msg_def)
qed

end
