(* ===== verification/Client.thy ===== *)
theory Client
  imports Peer Marshaller Registry
begin

text \<open>
  The client side: \<^verbatim>\<open>Stub\<close> and \<^verbatim>\<open>RpcHandle\<close> (\<^verbatim>\<open>src/src/bmRPCStub.h\<close>) and \<^verbatim>\<open>RpcClient\<close>
  (\<^verbatim>\<open>src/src/bmRPCClient.h\<close>). A callback is a number, and the calls of the callbacks with their return values are
  recorded in order; the memory of the process, with the variables passed by reference, is a field.
\<close>

section \<open>Stub\<close>

record invokation_data =
  inv_id :: u16
  inv_callback :: "nat option"
  inv_out_args_addresses :: "addr list"

record Stub =
  st_id :: bytes
  st_in_args_format :: "InArgTypeId list"
  st_out_args_format :: "OutArgTypeId list"
  st_r_format :: RArgTypeId
  st_in_args :: bytes
  st_out_args :: bytes
  st_r_arg :: bytes
  st_invokation_id :: u16
  st_invokations :: u16
  st_n_handles :: int
  st_invokation_list :: "invokation_data list"

definition Stub_new :: Stub where
  "Stub_new =
     \<lparr>st_id = [], st_in_args_format = [], st_out_args_format = [], st_r_format = R_WRONG, st_in_args = [],
      st_out_args = [], st_r_arg = [], st_invokation_id = 0, st_invokations = 0, st_n_handles = 0,
      st_invokation_list = []\<rparr>"

definition Stub_marshall :: "Stub \<Rightarrow> BinMessage" where
  "Stub_marshall st =
     (let msg = BinMessage_new;
          msg = BinMessage_setName (st_id st) msg;
          msg = BinMessage_setValue (st_in_args st) msg;
          msg = BinMessage_setId (st_invokation_id st) msg
      in msg)"

text \<open>The search for the pending invocation, and the removal of the element that was found.\<close>

fun find_invokation :: "u16 \<Rightarrow> invokation_data list \<Rightarrow> (invokation_data \<times> invokation_data list) option" where
  "find_invokation i [] = None"
| "find_invokation i (d # ds) =
     (if inv_id d = i then Some (d, ds)
      else do { (e, es) \<leftarrow> find_invokation i ds; Some (e, d # es) })"

type_synonym callbacks = "(nat \<times> ReturnValue) list"

definition unmarshall_and_dispatch :: "BinMessage \<Rightarrow> Stub \<Rightarrow> mem \<Rightarrow> (Stub \<times> mem \<times> callbacks) option" where
  "unmarshall_and_dispatch msg st m =
     do {
       let st = st\<lparr>st_id := bm_name msg\<rparr>;
       (r_arg, out_args) \<leftarrow> unmarshall_out_args (st_r_format st) (bm_value msg);
       let st = st\<lparr>st_r_arg := r_arg, st_out_args := out_args, st_invokation_id := bm_id msg\<rparr>;
       (pdata, others) \<leftarrow> find_invokation (st_invokation_id st) (st_invokation_list st);
       r \<leftarrow> (if st_r_format st \<noteq> R_VOID then deserialize_r (st_r_format st) (st_r_arg st) else Some ReturnValue_new);
       m \<leftarrow> deserialize_out_args (st_out_args_format st) (st_out_args st) (inv_out_args_addresses pdata) m;
       let calls = (case inv_callback pdata of None \<Rightarrow> [] | Some cb \<Rightarrow> [(cb, r)]);
       Some (st\<lparr>st_invokation_list := others\<rparr>, m, calls)
     }"

section \<open>Client\<close>

record 'c RpcClient = "'c Peer" +
  cln_registry :: "Stub FunctionsRegistry"
  cln_mem :: mem
  cln_calls :: callbacks

definition CLIENT_LOOP_TOUT_MS :: int where
  "CLIENT_LOOP_TOUT_MS = 5"

definition MAX_CLIENT_MSG_BUFFER_SIZE :: nat where
  "MAX_CLIENT_MSG_BUFFER_SIZE = 512"

definition RpcClient_new :: "(u8, 'c) comm \<Rightarrow> 'c \<Rightarrow> bytes \<Rightarrow> bytes \<Rightarrow> mem \<Rightarrow> 'c RpcClient" where
  "RpcClient_new C com tx rx m =
     \<lparr>tx_msg_buffer = [], rx_msg_buffer = [], m_init_deserializer = False, m_init_serializer = False,
      m_streamer = Streamer_new C com tx rx, m_deserializer = BinDeserializer_new, m_serializer = BinSerializer_new,
      tx_msg = BinMessage_new, rx_msg = BinMessage_new, cln_registry = FunctionsRegistry_new, cln_mem = m, cln_calls = []\<rparr>"

text \<open>A handle is the pointer to its stub.\<close>

type_synonym RpcHandle = "node option"

definition RpcClient_connect :: "bytes \<Rightarrow> cpp_type \<Rightarrow> cpp_type list \<Rightarrow> 'c RpcClient \<Rightarrow> (RpcHandle \<times> 'c RpcClient) option" where
  "RpcClient_connect name R Args p =
     (case Registry_find name (cln_registry p) of
        None \<Rightarrow> do {
          sargs \<leftarrow> stringify Args;
          let rpc = Stub_new\<lparr>
            st_r_format := ParamType_r_id R,
            st_in_args_format := codify_in_args Args,
            st_out_args_format := codify_out_args Args,
            st_id := ParamType_name R @ str '' '' @ name @ str '' '' @ sargs,
            st_n_handles := 1\<rparr>;
          (p_rpc, reg) \<leftarrow> Registry_insert st_id rpc (cln_registry p);
          Some (p_rpc, p\<lparr>cln_registry := reg\<rparr>)
        }
      | Some q \<Rightarrow> do {
          st \<leftarrow> deref (cln_registry p) (Some q);
          reg \<leftarrow> assign (cln_registry p) (Some q) (st\<lparr>st_n_handles := st_n_handles st + 1\<rparr>);
          Some (Some q, p\<lparr>cln_registry := reg\<rparr>)
        })"

definition RpcClient_disconnect :: "RpcHandle \<Rightarrow> 'c RpcClient \<Rightarrow> (RpcHandle \<times> 'c RpcClient) option" where
  "RpcClient_disconnect handle p =
     (if handle \<noteq> None
      then do {
        st \<leftarrow> deref (cln_registry p) handle;
        let st = st\<lparr>st_n_handles := st_n_handles st - 1\<rparr>;
        reg \<leftarrow> assign (cln_registry p) handle st;
        reg \<leftarrow> (if st_n_handles st \<le> 0 then Registry_remove st_id handle reg else Some reg);
        Some (None, p\<lparr>cln_registry := reg\<rparr>)
      }
      else Some (handle, p))"

definition tx_msg_full :: "('c, 'z) Peer_scheme \<Rightarrow> bool" where
  "tx_msg_full p \<longleftrightarrow> length (tx_msg_buffer p) > MAX_CLIENT_MSG_BUFFER_SIZE"

definition asyncRPC :: "cpp_type list \<Rightarrow> RpcHandle \<Rightarrow> nat option \<Rightarrow> actual list \<Rightarrow> 'c RpcClient \<Rightarrow> (bool \<times> 'c RpcClient) option" where
  "asyncRPC Args handle callback args p =
     (if handle \<noteq> None \<and> \<not> tx_msg_full p
      then do {
        rpc \<leftarrow> deref (cln_registry p) handle;
        let rpc = rpc\<lparr>st_invokations := st_invokations rpc + 1\<rparr>;
        let rpc = rpc\<lparr>st_invokation_id := st_invokations rpc\<rparr>;
        let rpc = rpc\<lparr>st_in_args := []\<rparr>;
        (addresses, in_args) \<leftarrow> serialize_args write_obj Args args (cln_mem p) [] (st_in_args rpc);
        let rpc = rpc\<lparr>st_in_args := in_args\<rparr>;
        let data = \<lparr>inv_id = st_invokation_id rpc, inv_callback = callback, inv_out_args_addresses = addresses\<rparr>;
        let rpc = rpc\<lparr>st_invokation_list := st_invokation_list rpc @ [data]\<rparr>;
        reg \<leftarrow> assign (cln_registry p) handle rpc;
        let msg = Stub_marshall rpc;
        Some (True, p\<lparr>cln_registry := reg, tx_msg_buffer := tx_msg_buffer p @ [msg]\<rparr>)
      }
      else Some (False, p))"

text \<open>One turn of the loop over the received messages; the pointer is not compared with null.\<close>

definition deliver_msg :: "BinMessage \<Rightarrow> 'c RpcClient \<Rightarrow> 'c RpcClient option" where
  "deliver_msg msg p =
     (let (rpc, reg) = Registry_get (bm_name msg) (cln_registry p)
      in do {
        st \<leftarrow> deref reg rpc;
        (st, m, calls) \<leftarrow> unmarshall_and_dispatch msg st (cln_mem p);
        reg \<leftarrow> assign reg rpc st;
        Some (p\<lparr>cln_registry := reg, cln_mem := m, cln_calls := cln_calls p @ calls\<rparr>)
      })"

fun deliver_msgs :: "BinMessage list \<Rightarrow> 'c RpcClient \<Rightarrow> 'c RpcClient option" where
  "deliver_msgs [] p = Some p"
| "deliver_msgs (msg # msgs) p =
     do { p \<leftarrow> deliver_msg msg p; deliver_msgs msgs (p\<lparr>rx_msg_buffer := msgs\<rparr>) }"

definition RpcClient_doLoop :: "(u8, 'c) comm \<Rightarrow> int stream \<Rightarrow> 'c RpcClient \<Rightarrow> ('c RpcClient \<times> int stream) option" where
  "RpcClient_doLoop C clk p =
     do {
       (p, clk) \<leftarrow> tx_phase C CLIENT_LOOP_TOUT_MS clk p;
       (p, clk) \<leftarrow> rx_phase C CLIENT_LOOP_TOUT_MS clk p;
       p \<leftarrow> deliver_msgs (rx_msg_buffer p) p;
       Some (p, clk)
     }"

section \<open>A call\<close>

text \<open>A stub as \<^verbatim>\<open>connect\<close> makes it.\<close>

definition stub_ok :: "cpp_type \<Rightarrow> cpp_type list \<Rightarrow> Stub \<Rightarrow> bool" where
  "stub_ok R Args st \<longleftrightarrow> st_out_args_format st = codify_out_args Args \<and> st_r_format st = ParamType_r_id R \<and>
     ParamTraits_valid R Args"

text \<open>The request that a call queues, and what it remembers of the call.\<close>

lemma asyncRPC_ok:
  assumes ok: "registry_ok st_id (cln_registry p)" and st: "deref (cln_registry p) (Some q) = Some st"
    and full: "\<not> tx_msg_full p" and as: "actuals_ok Args as xs (cln_mem p)"
  obtains p' st' where "asyncRPC Args (Some q) cb as p = Some (True, p')"
    and "tx_msg_buffer p' = tx_msg_buffer p @ [\<lparr>bm_name = st_id st, bm_id = st_invokations st + 1, bm_value = encode xs\<rparr>]"
    and "registry_ok st_id (cln_registry p')" and "registered (cln_registry p') = (registered (cln_registry p))(st_id st \<mapsto> st')"
    and "st' = st\<lparr>st_invokations := st_invokations st + 1, st_invokation_id := st_invokations st + 1, st_in_args := encode xs,
           st_invokation_list := st_invokation_list st @
             [\<lparr>inv_id = st_invokations st + 1, inv_callback = cb, inv_out_args_addresses = kept Args as\<rparr>]\<rparr>"
    and "p' = p\<lparr>cln_registry := cln_registry p', tx_msg_buffer := tx_msg_buffer p'\<rparr>"
proof -
  let ?i = "st_invokations st + 1"
  let ?st = "st\<lparr>st_invokations := ?i, st_invokation_id := ?i, st_in_args := encode xs,
           st_invokation_list := st_invokation_list st @ [\<lparr>inv_id = ?i, inv_callback = cb, inv_out_args_addresses = kept Args as\<rparr>]\<rparr>"
  obtain r' where r: "assign (cln_registry p) (Some q) ?st = Some r'" "registry_ok st_id r'"
    "registered r' = (registered (cln_registry p))(st_id st \<mapsto> ?st)"
    using assign_ok [OF ok st, of ?st] by auto
  have m: "Stub_marshall ?st = \<lparr>bm_name = st_id st, bm_id = ?i, bm_value = encode xs\<rparr>"
    by (simp add: Stub_marshall_def BinMessage_new_def BinMessage_setName_def BinMessage_setValue_def BinMessage_setId_def)
  have "asyncRPC Args (Some q) cb as p =
      Some (True, p\<lparr>cln_registry := r', tx_msg_buffer := tx_msg_buffer p @ [Stub_marshall ?st]\<rparr>)"
    using full st r(1) serialize_args_ok [OF as, of "[]" "[]"] by (simp add: asyncRPC_def Let_def)
  then show thesis using r m by (intro that [of "p\<lparr>cln_registry := r', tx_msg_buffer := tx_msg_buffer p @ [Stub_marshall ?st]\<rparr>" ?st]) simp_all
qed

lemma asyncRPC_full:
  "tx_msg_full p \<Longrightarrow> asyncRPC Args handle cb as p = Some (False, p)"
  by (simp add: asyncRPC_def)

text \<open>The answer to a pending call: the results are stored where the caller asked, and its callback runs once.\<close>

lemma find_invokation_split:
  "find_invokation i ds = Some (d, es) \<Longrightarrow> \<exists>xs ys. ds = xs @ d # ys \<and> es = xs @ ys \<and> inv_id d = i \<and> (\<forall>x \<in> set xs. inv_id x \<noteq> i)"
proof (induction ds arbitrary: es)
  case (Cons x ds)
  show ?case
  proof (cases "inv_id x = i")
    case True
    with Cons.prems show ?thesis by (intro exI [of _ "[]"] exI [of _ ds]) auto
  next
    case False
    then obtain fs where "find_invokation i ds = Some (d, fs)" "es = x # fs" using Cons.prems by (auto elim!: bind_SomeE)
    with Cons.IH False obtain xs ys where "ds = xs @ d # ys" "fs = xs @ ys" "inv_id d = i" "\<forall>z \<in> set xs. inv_id z \<noteq> i" by blast
    with False \<open>es = x # fs\<close> show ?thesis by (intro exI [of _ "x # xs"] exI [of _ ys]) auto
  qed
qed simp

lemma find_invokation_first:
  "\<forall>x \<in> set xs. inv_id x \<noteq> inv_id d \<Longrightarrow> find_invokation (inv_id d) (xs @ d # ys) = Some (d, xs @ ys)"
  by (induction xs) auto

definition return_value :: "cpp_type \<Rightarrow> obj option \<Rightarrow> ReturnValue \<Rightarrow> bool" where
  "return_value R r rv \<longleftrightarrow>
     (if R = T_void then rv = ReturnValue_new
      else rv_valid rv \<and> rv_type rv = ParamType_r_id R \<and> (\<forall>h. getAs R (rv_value rv) h = r))"

lemma unmarshall_result_ok:
  assumes "result_ok R r"
  obtains rv ra where "unmarshall_out_args (ParamType_r_id R) (encode_result R r @ rest) = Some (ra, rest)"
    and "(if ParamType_r_id R \<noteq> R_VOID then deserialize_r (ParamType_r_id R) ra else Some ReturnValue_new) = Some rv"
    and "return_value R r rv"
proof (cases "R = T_void")
  case True
  then show thesis by (intro that [of "[]" ReturnValue_new]) (simp_all add: unmarshall_out_args_def encode_result_def return_value_def)
next
  case False
  then have n: "ParamType_r_id R \<noteq> R_VOID" "r_size (ParamType_r_id R) > 0"
    using assms by (auto simp: result_ok_def ReturnType_valid_def r_size_def)
  obtain x v where "r = Some x" and d: "deserialize_r (ParamType_r_id R) (encode_result R r) = Some \<lparr>rv_valid = True, rv_type = ParamType_r_id R, rv_value = v\<rparr>"
    and "\<And>h. getAs R v h = Some x" and l: "length (encode_result R r) = r_size (ParamType_r_id R)"
    using deserialize_r_ok [OF assms False] by metis
  with n False show thesis
    by (intro that [of "encode_result R r" "\<lparr>rv_valid = True, rv_type = ParamType_r_id R, rv_value = v\<rparr>"])
      (simp_all add: unmarshall_out_args_def return_value_def flip: l)
qed

lemma deliver_msg_ok:
  assumes ok: "registry_ok st_id (cln_registry p)" and reg: "registered (cln_registry p) (bm_name msg) = Some st"
    and st: "stub_ok R Args st" and pend: "find_invokation (bm_id msg) (st_invokation_list st) = Some (d, others)"
    and v: "bm_value msg = encode_result R r @ encode (outs Args ys)" and r: "result_ok R r" and ys: "args_ok Args ys"
    and ad: "list_all2 (\<lambda>a y. \<exists>x. cln_mem p a = Some x \<and> obj_base x = obj_base y) (inv_out_args_addresses d) (outs Args ys)"
  obtains p' st' rv where "deliver_msg msg p = Some p'"
    and "cln_mem p' = (cln_mem p)(inv_out_args_addresses d [\<mapsto>] outs Args ys)"
    and "return_value R r rv" and "cln_calls p' = cln_calls p @ (case inv_callback d of None \<Rightarrow> [] | Some cb \<Rightarrow> [(cb, rv)])"
    and "registry_ok st_id (cln_registry p')" and "registered (cln_registry p') = (registered (cln_registry p))(bm_name msg \<mapsto> st')"
    and "stub_ok R Args st'" and "st_invokation_list st' = others" and "st_invokations st' = st_invokations st"
    and "p' = p\<lparr>cln_registry := cln_registry p', cln_mem := cln_mem p', cln_calls := cln_calls p'\<rparr>"
proof -
  obtain q r1 where g: "Registry_get (bm_name msg) (cln_registry p) = (q, r1)" by (cases "Registry_get (bm_name msg) (cln_registry p)")
  obtain rv ra where u: "unmarshall_out_args (ParamType_r_id R) (bm_value msg) = Some (ra, encode (outs Args ys))"
    "(if ParamType_r_id R \<noteq> R_VOID then deserialize_r (ParamType_r_id R) ra else Some ReturnValue_new) = Some rv" "return_value R r rv"
    using unmarshall_result_ok [OF r, of "encode (outs Args ys)"] v by metis
  let ?st = "st\<lparr>st_id := bm_name msg, st_r_arg := ra, st_out_args := encode (outs Args ys), st_invokation_id := bm_id msg,
                st_invokation_list := others\<rparr>"
  let ?m = "(cln_mem p)(inv_out_args_addresses d [\<mapsto>] outs Args ys)"
  let ?c = "case inv_callback d of None \<Rightarrow> [] | Some cb \<Rightarrow> [(cb, rv)]"
  have fmt: "st_out_args_format st = map ParamType_out_id (filter is_out Args)" "st_r_format st = ParamType_r_id R"
    using st codify_valid(2) by (simp_all add: stub_ok_def ParamTraits_valid_def)
  have "unmarshall_and_dispatch msg st (cln_mem p) = Some (?st, ?m, ?c)"
    using u(1,2) pend deserialize_out_args_ok [OF ys ad] fmt
    by (cases "ParamType_r_id R = R_VOID") (auto simp: unmarshall_and_dispatch_def Let_def)
  moreover obtain r2 where r2: "deref r1 q = Some st" "assign r1 q ?st = Some r2" "registry_ok st_id r2"
      "registered r2 = (registered (cln_registry p))(bm_name msg \<mapsto> ?st)"
    by (rule registry.update_element [OF ok reg _ g, of ?st]) auto
  ultimately have "deliver_msg msg p = Some (p\<lparr>cln_registry := r2, cln_mem := ?m, cln_calls := cln_calls p @ ?c\<rparr>)"
    using g by (simp add: deliver_msg_def)
  then show thesis using r2(3,4) u(3) st
    by (intro that [of "p\<lparr>cln_registry := r2, cln_mem := ?m, cln_calls := cln_calls p @ ?c\<rparr>" rv ?st]) (simp_all add: stub_ok_def)
qed

end
