(* ===== verification/Loopback.thy ===== *)
theory Loopback
  imports Server Client Progress
begin

text \<open>
  The loop-back program (\<^verbatim>\<open>src/src/main.cpp\<close>): a server and a client in one process, joined by a shared buffer that both
  drivers refer to. The reference is modelled by handing the buffer to the peer whose turn it is and taking it back
  at the end of the turn.

  The transport part shows, on messages, that the requests and the replies on their way are two queues. The
  calls part follows each call from \<^verbatim>\<open>asyncRPC\<close> to its callback: \<open>loop_inv\<close> is the invariant, with the calls whose
  reply and the calls whose request is on its way as ghost state.
\<close>

section \<open>The program\<close>

record Loopback =
  lb_sb :: "u8 SharedBuffer"
  lb_client :: "u8 ClientCom RpcClient"
  lb_server :: "u8 ServerCom RpcServer"

definition cln_with :: "u8 SharedBuffer \<Rightarrow> u8 ClientCom RpcClient \<Rightarrow> u8 ClientCom RpcClient" where
  "cln_with sb p = p\<lparr>m_streamer := (m_streamer p)\<lparr>m_com := (m_com (m_streamer p))\<lparr>cln_sb := sb\<rparr>\<rparr>\<rparr>"

definition srv_with :: "u8 SharedBuffer \<Rightarrow> u8 ServerCom RpcServer \<Rightarrow> u8 ServerCom RpcServer" where
  "srv_with sb p = p\<lparr>m_streamer := (m_streamer p)\<lparr>m_com := (m_com (m_streamer p))\<lparr>srv_sb := sb\<rparr>\<rparr>\<rparr>"

abbreviation lb_cln :: "Loopback \<Rightarrow> u8 ClientCom RpcClient" where
  "lb_cln st \<equiv> cln_with (lb_sb st) (lb_client st)"

abbreviation lb_srv :: "Loopback \<Rightarrow> u8 ServerCom RpcServer" where
  "lb_srv st \<equiv> srv_with (lb_sb st) (lb_server st)"

text \<open>The shared buffer, the two drivers and the two peers with the drivers open, and with their loops initialised.\<close>

definition Loopback_created :: "bytes \<Rightarrow> bytes \<Rightarrow> bytes \<Rightarrow> bytes \<Rightarrow> mem \<Rightarrow> mem \<Rightarrow> Loopback" where
  "Loopback_created stx srx ctx crx hs hc =
     (let shared_buffer = SharedBuffer_new;
          server = RpcServer_new ServerCom (ServerCom_new shared_buffer) stx srx hs;
          server = server\<lparr>m_streamer := (m_streamer server)\<lparr>m_com := snd (ServerCom_open_impl (m_com (m_streamer server)))\<rparr>\<rparr>;
          client = RpcClient_new ClientCom (ClientCom_new shared_buffer) ctx crx hc;
          client = client\<lparr>m_streamer := (m_streamer client)\<lparr>m_com := snd (ClientCom_open_impl (m_com (m_streamer client)))\<rparr>\<rparr>
      in \<lparr>lb_sb = shared_buffer, lb_client = client, lb_server = server\<rparr>)"

definition Loopback_new :: "bytes \<Rightarrow> bytes \<Rightarrow> bytes \<Rightarrow> bytes \<Rightarrow> mem \<Rightarrow> mem \<Rightarrow> Loopback" where
  "Loopback_new stx srx ctx crx hs hc =
     (let st = Loopback_created stx srx ctx crx hs hc
      in st\<lparr>lb_client := initLoop (lb_client st), lb_server := initLoop (lb_server st)\<rparr>)"

definition server_turn :: "(mem \<Rightarrow> addr) \<Rightarrow> int stream \<Rightarrow> Loopback \<Rightarrow> (Loopback \<times> int stream) option" where
  "server_turn malloc clk st =
     do {
       (server, clk) \<leftarrow> RpcServer_doLoop ServerCom malloc clk (lb_srv st);
       Some (st\<lparr>lb_server := server, lb_sb := srv_sb (m_com (m_streamer server))\<rparr>, clk)
     }"

definition client_turn :: "int stream \<Rightarrow> Loopback \<Rightarrow> (Loopback \<times> int stream) option" where
  "client_turn clk st =
     do {
       (client, clk) \<leftarrow> RpcClient_doLoop ClientCom clk (lb_cln st);
       Some (st\<lparr>lb_client := client, lb_sb := cln_sb (m_com (m_streamer client))\<rparr>, clk)
     }"

text \<open>The body of the loop of \<^verbatim>\<open>main\<close>, and the loop.\<close>

definition main_turn :: "(mem \<Rightarrow> addr) \<Rightarrow> int stream \<Rightarrow> Loopback \<Rightarrow> (Loopback \<times> int stream) option" where
  "main_turn malloc clk st =
     do { (st, clk) \<leftarrow> server_turn malloc clk st; (st, clk) \<leftarrow> client_turn clk st; Some (st, sleep_for 5 clk) }"

partial_function (option) main_loop :: "(mem \<Rightarrow> addr) \<Rightarrow> TimeOutChrono \<Rightarrow> int stream \<Rightarrow> Loopback \<Rightarrow> (Loopback \<times> int stream) option" where
  "main_loop malloc t clk st =
     (if expired_impl (shd clk) t then Some (st, stl clk)
      else do { (st, clk) \<leftarrow> main_turn malloc (stl clk) st; main_loop malloc t clk st })"

section \<open>Transport\<close>

lemma with_simps [simp]:
  "tx_msg_buffer (cln_with sb c) = tx_msg_buffer c" "rx_msg_buffer (cln_with sb c) = rx_msg_buffer c"
  "cln_registry (cln_with sb c) = cln_registry c" "cln_mem (cln_with sb c) = cln_mem c" "cln_calls (cln_with sb c) = cln_calls c"
  "tx_todo (cln_with sb c) = tx_todo c" "tx_state_ok (cln_with sb c) = tx_state_ok c"
  "tx_bytes (m_streamer (cln_with sb c)) = tx_bytes (m_streamer c)" "rx_bytes (m_streamer (cln_with sb c)) = rx_bytes (m_streamer c)"
  "cln_sb (m_com (m_streamer (cln_with sb c))) = sb" "m_init_deserializer (cln_with sb c) = m_init_deserializer c"
  "m_deserializer (cln_with sb c) = m_deserializer c" "cln_with sb (cln_with sb' c) = cln_with sb c"
  "tx_msg_buffer (srv_with sb s) = tx_msg_buffer s" "rx_msg_buffer (srv_with sb s) = rx_msg_buffer s"
  "srv_registry (srv_with sb s) = srv_registry s" "srv_mem (srv_with sb s) = srv_mem s"
  "tx_todo (srv_with sb s) = tx_todo s" "tx_state_ok (srv_with sb s) = tx_state_ok s"
  "tx_bytes (m_streamer (srv_with sb s)) = tx_bytes (m_streamer s)" "rx_bytes (m_streamer (srv_with sb s)) = rx_bytes (m_streamer s)"
  "srv_sb (m_com (m_streamer (srv_with sb s))) = sb" "m_init_deserializer (srv_with sb s) = m_init_deserializer s"
  "m_deserializer (srv_with sb s) = m_deserializer s" "srv_with sb (srv_with sb' s) = srv_with sb s"
  by (simp_all add: cln_with_def srv_with_def tx_bytes_def rx_bytes_def tx_count_def rx_count_def)

lemma with_same [simp]: "cln_with (cln_sb (m_com (m_streamer c))) c = c" "srv_with (srv_sb (m_com (m_streamer s))) s = s"
  by (simp_all add: cln_with_def srv_with_def)

lemma with_inv:
  "Streamer_inv ClientCom_inv (m_streamer (cln_with sb c)) \<longleftrightarrow> tx_ok (m_streamer c) \<and> rx_ok (m_streamer c) \<and> sb_inv sb"
  "Streamer_inv ServerCom_inv (m_streamer (srv_with sb s)) \<longleftrightarrow> tx_ok (m_streamer s) \<and> rx_ok (m_streamer s) \<and> sb_inv sb"
  by (simp_all add: Streamer_inv_def cln_with_def srv_with_def tx_ok_def rx_ok_def ClientCom_inv_def ServerCom_inv_def)

lemma with_streams:
  "in_stream (out_content \<circ> cln_sb) (m_streamer (cln_with sb c)) = rx_bytes (m_streamer c) @ out_content sb"
  "out_stream (in_content \<circ> cln_sb) (m_streamer (cln_with sb c)) = in_content sb @ tx_bytes (m_streamer c)"
  "in_stream (in_content \<circ> srv_sb) (m_streamer (srv_with sb s)) = rx_bytes (m_streamer s) @ in_content sb"
  "out_stream (out_content \<circ> srv_sb) (m_streamer (srv_with sb s)) = out_content sb @ tx_bytes (m_streamer s)"
  by (simp_all add: in_stream_def out_stream_def)

text \<open>Receiving depends on the bytes to come, wherever they are; a message that is queued to be sent comes last.\<close>

lemma rx_expects_cong:
  "m_init_deserializer p' = m_init_deserializer p \<Longrightarrow> m_deserializer p' = m_deserializer p \<Longrightarrow>
   in_stream inq' (m_streamer p') @ later' = in_stream inq (m_streamer p) @ later \<Longrightarrow>
   rx_expects inq' p' later' ms = rx_expects inq p later ms"
  by (simp add: rx_expects_def)

lemma rx_expects_append:
  assumes "rx_expects inq p later ms" and "\<forall>m \<in> set ms'. msg_ok m"
  shows "rx_expects inq p (later @ concat (map wire ms')) (ms @ ms')"
proof (cases "m_init_deserializer p")
  case True
  with assms have "in_stream inq (m_streamer p) @ later = concat (map wire ms)" "\<forall>m \<in> set ms. msg_ok m" by (auto simp: rx_expects_def)
  then have "in_stream inq (m_streamer p) @ later @ concat (map wire ms') = concat (map wire (ms @ ms'))" by (metis append.assoc concat_append map_append)
  with True assms \<open>\<forall>m \<in> set ms. msg_ok m\<close> show ?thesis by (auto simp: rx_expects_def)
next
  case False
  with assms obtain d0 c where e: "bd_start d0" "bd_run d0 c = (m_deserializer p, length c)" "bd_phase (m_deserializer p) \<noteq> BRX_END"
      "c @ in_stream inq (m_streamer p) @ later = concat (map wire ms)" "\<forall>m \<in> set ms. msg_ok m"
    by (auto simp: rx_expects_def bd_expects_def)
  have "c @ in_stream inq (m_streamer p) @ later @ concat (map wire ms') = concat (map wire (ms @ ms'))"
    using e(4) by (metis append.assoc concat_append map_append)
  with e(1-3,5) False assms(2) show ?thesis unfolding rx_expects_def bd_expects_def by auto
qed

lemma rx_expects_ok: "rx_expects inq p later ms \<Longrightarrow> \<forall>m \<in> set ms. msg_ok m"
  by (auto simp: rx_expects_def bd_expects_def split: if_splits)

lemma tx_push:
  assumes "tx_state_ok p" and "\<forall>m \<in> set ms. msg_ok m" and "tx_msg_buffer p' = tx_msg_buffer p @ ms"
    and "m_init_serializer p' = m_init_serializer p" and "m_serializer p' = m_serializer p"
  shows "tx_todo p' = tx_todo p @ concat (map wire ms)" and "tx_state_ok p'"
  using assms by (auto simp: tx_todo_def tx_state_ok_def)

text \<open>
  The messages on their way: \<open>reqs\<close> to the server, in its receive buffer, the shared buffer, the client's transmit buffer and the
  client's queue together, and \<open>reps\<close> to the client.
\<close>

definition link_inv :: "Loopback \<Rightarrow> BinMessage list \<Rightarrow> BinMessage list \<Rightarrow> bool" where
  "link_inv st reqs reps \<longleftrightarrow>
     Streamer_inv ClientCom_inv (m_streamer (lb_cln st)) \<and> Streamer_inv ServerCom_inv (m_streamer (lb_srv st)) \<and>
     tx_state_ok (lb_client st) \<and> tx_state_ok (lb_server st) \<and>
     rx_expects (in_content \<circ> srv_sb) (lb_srv st) (tx_bytes (m_streamer (lb_client st)) @ tx_todo (lb_client st)) reqs \<and>
     rx_expects (out_content \<circ> cln_sb) (lb_cln st) (tx_bytes (m_streamer (lb_server st)) @ tx_todo (lb_server st)) reps \<and>
     Comm_is_open ClientCom (m_com (m_streamer (lb_cln st))) \<and> Comm_is_open ServerCom (m_com (m_streamer (lb_srv st))) \<and>
     0 < m_packet_size (m_streamer (lb_cln st)) \<and> 0 < m_packet_size (m_streamer (lb_srv st))"

definition set_srv :: "u8 ServerCom RpcServer \<Rightarrow> Loopback \<Rightarrow> Loopback" where
  "set_srv p st = st\<lparr>lb_server := p, lb_sb := srv_sb (m_com (m_streamer p))\<rparr>"

definition set_cln :: "u8 ClientCom RpcClient \<Rightarrow> Loopback \<Rightarrow> Loopback" where
  "set_cln p st = st\<lparr>lb_client := p, lb_sb := cln_sb (m_com (m_streamer p))\<rparr>"

lemma set_simps [simp]:
  "lb_server (set_srv p st) = p" "lb_client (set_srv p st) = lb_client st" "lb_sb (set_srv p st) = srv_sb (m_com (m_streamer p))"
  "lb_client (set_cln q st) = q" "lb_server (set_cln q st) = lb_server st" "lb_sb (set_cln q st) = cln_sb (m_com (m_streamer q))"
  by (simp_all add: set_srv_def set_cln_def)

lemma is_open_with [simp]:
  "Comm_is_open ClientCom (m_com (m_streamer (cln_with sb c))) = Comm_is_open ClientCom (m_com (m_streamer c))"
  "Comm_is_open ServerCom (m_com (m_streamer (srv_with sb s))) = Comm_is_open ServerCom (m_com (m_streamer s))"
  "m_packet_size (m_streamer (cln_with sb c)) = m_packet_size (m_streamer c)"
  "m_packet_size (m_streamer (srv_with sb s)) = m_packet_size (m_streamer s)"
  by (simp_all add: cln_with_def srv_with_def ClientCom_def ServerCom_def ClientCom_is_open_impl_def ServerCom_is_open_impl_def)

text \<open>A peer that has received or transmitted keeps the invariant, seen from the other peer too.\<close>

lemma link_inv_obtained_srv:
  assumes "link_inv st reqs reps" and o: "srv_bytes.obtained (lb_srv st) p (tx_bytes (m_streamer (lb_client st)) @ tx_todo (lb_client st)) reqs"
  shows "\<exists>reqs'. rx_msg_buffer p @ reqs' = rx_msg_buffer (lb_server st) @ reqs \<and> link_inv (set_srv p st) reqs' reps \<and>
           Peer.more p = Peer.more (lb_srv st)"
proof -
  obtain reqs' where r: "rx_msg_buffer p @ reqs' = rx_msg_buffer (lb_server st) @ reqs"
    "rx_expects (in_content \<circ> srv_sb) p (tx_bytes (m_streamer (lb_client st)) @ tx_todo (lb_client st)) reqs'"
    using o by (auto simp: srv_bytes.obtained_def)
  let ?sb = "srv_sb (m_com (m_streamer p))"
  have t: "same_tx (out_content \<circ> srv_sb) (lb_srv st) p" and i: "Streamer_inv ServerCom_inv (m_streamer p)"
    using o by (simp_all add: srv_bytes.obtained_def)
  have todo: "tx_todo p = tx_todo (lb_server st)" "tx_state_ok p = tx_state_ok (lb_server st)" using same_tx_todo [OF t] by simp_all
  have out: "out_content ?sb @ tx_bytes (m_streamer p) = out_content (lb_sb st) @ tx_bytes (m_streamer (lb_server st))"
    using t by (auto simp add: same_tx_def out_stream_def)
  have "rx_expects (out_content \<circ> cln_sb) (cln_with ?sb (lb_client st)) (tx_bytes (m_streamer p) @ tx_todo p) reps =
      rx_expects (out_content \<circ> cln_sb) (lb_cln st) (tx_bytes (m_streamer (lb_server st)) @ tx_todo (lb_server st)) reps"
    by (rule rx_expects_cong) (simp_all add: with_streams todo, metis append.assoc out)
  moreover have "sb_inv ?sb" using i by (simp add: Streamer_inv_def ServerCom_inv_def)
  ultimately have "link_inv (set_srv p st) reqs' reps"
    using assms i r(2) todo by (simp add: link_inv_def with_inv srv_bytes.obtained_def)
  then show ?thesis using r(1) t by (auto simp: same_tx_def)
qed

lemma link_inv_transmitted_srv:
  assumes "link_inv st reqs reps" and o: "srv_bytes.transmitted (lb_srv st) p"
  shows "link_inv (set_srv p st) reqs reps \<and> rx_msg_buffer p = rx_msg_buffer (lb_server st) \<and> Peer.more p = Peer.more (lb_srv st)"
proof -
  let ?sb = "srv_sb (m_com (m_streamer p))"
  have t: "same_rx (in_content \<circ> srv_sb) (lb_srv st) p" and i: "Streamer_inv ServerCom_inv (m_streamer p)" and ok: "tx_state_ok p"
    using o by (simp_all add: srv_bytes.transmitted_def)
  have out: "out_content ?sb @ tx_bytes (m_streamer p) @ tx_todo p = out_content (lb_sb st) @ tx_bytes (m_streamer (lb_server st)) @ tx_todo (lb_server st)"
    using o by (simp add: srv_bytes.transmitted_def out_stream_def)
  have "rx_expects (out_content \<circ> cln_sb) (cln_with ?sb (lb_client st)) (tx_bytes (m_streamer p) @ tx_todo p) reps =
      rx_expects (out_content \<circ> cln_sb) (lb_cln st) (tx_bytes (m_streamer (lb_server st)) @ tx_todo (lb_server st)) reps"
    by (rule rx_expects_cong) (simp_all add: with_streams out)
  moreover have "sb_inv ?sb" using i by (simp add: Streamer_inv_def ServerCom_inv_def)
  ultimately have "link_inv (set_srv p st) reqs reps"
    using assms i ok same_rx_expects [OF t] by (simp add: link_inv_def with_inv srv_bytes.transmitted_def)
  then show ?thesis using t by (simp add: same_rx_def)
qed

lemma link_inv_obtained_cln:
  assumes "link_inv st reqs reps" and o: "cln_bytes.obtained (lb_cln st) p (tx_bytes (m_streamer (lb_server st)) @ tx_todo (lb_server st)) reps"
  shows "\<exists>reps'. rx_msg_buffer p @ reps' = rx_msg_buffer (lb_client st) @ reps \<and> link_inv (set_cln p st) reqs reps' \<and>
           Peer.more p = Peer.more (lb_cln st)"
proof -
  obtain reps' where r: "rx_msg_buffer p @ reps' = rx_msg_buffer (lb_client st) @ reps"
    "rx_expects (out_content \<circ> cln_sb) p (tx_bytes (m_streamer (lb_server st)) @ tx_todo (lb_server st)) reps'"
    using o by (auto simp: cln_bytes.obtained_def)
  let ?sb = "cln_sb (m_com (m_streamer p))"
  have t: "same_tx (in_content \<circ> cln_sb) (lb_cln st) p" and i: "Streamer_inv ClientCom_inv (m_streamer p)"
    using o by (simp_all add: cln_bytes.obtained_def)
  have todo: "tx_todo p = tx_todo (lb_client st)" "tx_state_ok p = tx_state_ok (lb_client st)" using same_tx_todo [OF t] by simp_all
  have out: "in_content ?sb @ tx_bytes (m_streamer p) = in_content (lb_sb st) @ tx_bytes (m_streamer (lb_client st))"
    using t by (auto simp add: same_tx_def out_stream_def)
  have "rx_expects (in_content \<circ> srv_sb) (srv_with ?sb (lb_server st)) (tx_bytes (m_streamer p) @ tx_todo p) reqs =
      rx_expects (in_content \<circ> srv_sb) (lb_srv st) (tx_bytes (m_streamer (lb_client st)) @ tx_todo (lb_client st)) reqs"
    by (rule rx_expects_cong) (simp_all add: with_streams todo, metis append.assoc out)
  moreover have "sb_inv ?sb" using i by (simp add: Streamer_inv_def ClientCom_inv_def)
  ultimately have "link_inv (set_cln p st) reqs reps'"
    using assms i r(2) todo by (simp add: link_inv_def with_inv cln_bytes.obtained_def)
  then show ?thesis using r(1) t by (auto simp: same_tx_def)
qed

lemma link_inv_transmitted_cln:
  assumes "link_inv st reqs reps" and o: "cln_bytes.transmitted (lb_cln st) p"
  shows "link_inv (set_cln p st) reqs reps \<and> rx_msg_buffer p = rx_msg_buffer (lb_client st) \<and> Peer.more p = Peer.more (lb_cln st)"
proof -
  let ?sb = "cln_sb (m_com (m_streamer p))"
  have t: "same_rx (out_content \<circ> cln_sb) (lb_cln st) p" and i: "Streamer_inv ClientCom_inv (m_streamer p)" and ok: "tx_state_ok p"
    using o by (simp_all add: cln_bytes.transmitted_def)
  have out: "in_content ?sb @ tx_bytes (m_streamer p) @ tx_todo p = in_content (lb_sb st) @ tx_bytes (m_streamer (lb_client st)) @ tx_todo (lb_client st)"
    using o by (simp add: cln_bytes.transmitted_def out_stream_def)
  have "rx_expects (in_content \<circ> srv_sb) (srv_with ?sb (lb_server st)) (tx_bytes (m_streamer p) @ tx_todo p) reqs =
      rx_expects (in_content \<circ> srv_sb) (lb_srv st) (tx_bytes (m_streamer (lb_client st)) @ tx_todo (lb_client st)) reqs"
    by (rule rx_expects_cong) (simp_all add: with_streams out)
  moreover have "sb_inv ?sb" using i by (simp add: Streamer_inv_def ClientCom_inv_def)
  ultimately have "link_inv (set_cln p st) reqs reps"
    using assms i ok same_rx_expects [OF t] by (simp add: link_inv_def with_inv cln_bytes.transmitted_def)
  then show ?thesis using t by (simp add: same_rx_def)
qed

text \<open>A message that a peer queues is the last of those on their way.\<close>

lemma link_inv_queue_srv:
  assumes "link_inv st reqs reps" and "\<forall>m \<in> set ms. msg_ok m" and "m_streamer p = m_streamer (lb_server st)"
    and "m_init_deserializer p = m_init_deserializer (lb_server st)" and "m_deserializer p = m_deserializer (lb_server st)"
    and "tx_todo p = tx_todo (lb_server st) @ concat (map wire ms)" and "tx_state_ok p"
  shows "link_inv (st\<lparr>lb_server := p\<rparr>) reqs (reps @ ms)"
proof -
  have s: "m_streamer (srv_with (lb_sb st) p) = m_streamer (lb_srv st)" using assms(3) by (simp add: srv_with_def)
  have "rx_expects (in_content \<circ> srv_sb) (srv_with (lb_sb st) p) later reqs = rx_expects (in_content \<circ> srv_sb) (lb_srv st) later reqs" for later
    using assms(4,5) s by (intro rx_expects_cong) simp_all
  moreover have "rx_expects (out_content \<circ> cln_sb) (lb_cln st) (tx_bytes (m_streamer p) @ tx_todo p) (reps @ ms)"
    using rx_expects_append [OF _ assms(2), of "out_content \<circ> cln_sb" "lb_cln st" "tx_bytes (m_streamer (lb_server st)) @ tx_todo (lb_server st)" reps]
      assms(1,3,6) by (simp add: link_inv_def)
  ultimately show ?thesis using assms(1,7) s by (simp add: link_inv_def assms(3))
qed

lemma link_inv_queue_cln:
  assumes "link_inv st reqs reps" and "\<forall>m \<in> set ms. msg_ok m" and "m_streamer p = m_streamer (lb_client st)"
    and "m_init_deserializer p = m_init_deserializer (lb_client st)" and "m_deserializer p = m_deserializer (lb_client st)"
    and "tx_todo p = tx_todo (lb_client st) @ concat (map wire ms)" and "tx_state_ok p"
  shows "link_inv (st\<lparr>lb_client := p\<rparr>) (reqs @ ms) reps"
proof -
  have s: "m_streamer (cln_with (lb_sb st) p) = m_streamer (lb_cln st)" using assms(3) by (simp add: cln_with_def)
  have "rx_expects (out_content \<circ> cln_sb) (cln_with (lb_sb st) p) later reps = rx_expects (out_content \<circ> cln_sb) (lb_cln st) later reps" for later
    using assms(4,5) s by (intro rx_expects_cong) simp_all
  moreover have "rx_expects (in_content \<circ> srv_sb) (lb_srv st) (tx_bytes (m_streamer p) @ tx_todo p) (reqs @ ms)"
    using rx_expects_append [OF _ assms(2), of "in_content \<circ> srv_sb" "lb_srv st" "tx_bytes (m_streamer (lb_client st)) @ tx_todo (lb_client st)" reqs]
      assms(1,3,6) by (simp add: link_inv_def)
  ultimately show ?thesis using assms(1,7) s by (simp add: link_inv_def assms(3))
qed

section \<open>Calls\<close>

text \<open>The functions by the names under which both sides know them, and a call on its way.\<close>

type_synonym signatures = "bytes \<rightharpoonup> cpp_type \<times> cpp_type list \<times> remote"

record call =
  c_name :: bytes
  c_id :: u16
  c_callback :: "nat option"
  c_addresses :: "addr list"
  c_args :: "obj list"

definition c_result :: "signatures \<Rightarrow> call \<Rightarrow> obj option" where
  "c_result sigs c = (case sigs (c_name c) of None \<Rightarrow> None | Some (R, Args, f) \<Rightarrow> fst (f (c_args c)))"

definition c_outs :: "signatures \<Rightarrow> call \<Rightarrow> obj list" where
  "c_outs sigs c = (case sigs (c_name c) of None \<Rightarrow> [] | Some (R, Args, f) \<Rightarrow> outs Args (snd (f (c_args c))))"

definition request :: "call \<Rightarrow> BinMessage" where
  "request c = \<lparr>bm_name = c_name c, bm_id = c_id c, bm_value = encode (c_args c)\<rparr>"

definition reply :: "signatures \<Rightarrow> call \<Rightarrow> BinMessage" where
  "reply sigs c = \<lparr>bm_name = c_name c, bm_id = c_id c,
     bm_value = (case sigs (c_name c) of None \<Rightarrow> [] | Some (R, Args, f) \<Rightarrow> encode_result R (c_result sigs c)) @ encode (c_outs sigs c)\<rparr>"

definition pending :: "call \<Rightarrow> invokation_data" where
  "pending c = \<lparr>inv_id = c_id c, inv_callback = c_callback c, inv_out_args_addresses = c_addresses c\<rparr>"

text \<open>The call has arguments of the function's types, small enough for their 16-bit lengths; the function returns values of its types.\<close>

definition call_typed :: "signatures \<Rightarrow> call \<Rightarrow> bool" where
  "call_typed sigs c \<longleftrightarrow>
     (\<exists>R Args f. sigs (c_name c) = Some (R, Args, f) \<and> args_ok Args (c_args c) \<and> remote_typed R Args f (c_args c) \<and>
        args_ok Args (snd (f (c_args c)))) \<and> msg_ok (request c) \<and> msg_ok (reply sigs c)"

text \<open>The objects at the addresses of its results are alive and of their types.\<close>

definition call_stored :: "signatures \<Rightarrow> mem \<Rightarrow> call \<Rightarrow> bool" where
  "call_stored sigs m c \<longleftrightarrow> list_all2 (\<lambda>a y. \<exists>x. m a = Some x \<and> obj_base x = obj_base y) (c_addresses c) (c_outs sigs c)"

definition store :: "signatures \<Rightarrow> call \<Rightarrow> mem \<Rightarrow> mem" where
  "store sigs c m = m(c_addresses c [\<mapsto>] c_outs sigs c)"

lemma updates_base:
  assumes "list_all2 (\<lambda>a y. \<exists>x. m a = Some x \<and> obj_base x = obj_base y) as ys" and "m a = Some x"
  shows "\<exists>y. (m(as [\<mapsto>] ys)) a = Some y \<and> obj_base y = obj_base x"
  using assms
proof (induction as arbitrary: ys m x)
  case (Cons b as)
  then obtain y ys' z where y: "ys = y # ys'" "m b = Some z" "obj_base z = obj_base y"
    "list_all2 (\<lambda>a y. \<exists>x. m a = Some x \<and> obj_base x = obj_base y) as ys'" by (auto simp: list_all2_Cons1)
  define m' where "m' = m(b \<mapsto> y)"
  have "list_all2 (\<lambda>a y. \<exists>x. m' a = Some x \<and> obj_base x = obj_base y) as ys'"
    using y(2-4) by (auto simp: m'_def elim!: list_all2_mono)
  moreover obtain x' where "m' a = Some x'" "obj_base x' = obj_base x"
    using Cons.prems(2) y(2,3) by (cases "a = b") (auto simp: m'_def)
  ultimately obtain y' where "(m'(as [\<mapsto>] ys')) a = Some y'" "obj_base y' = obj_base x'" using Cons.IH [of m' ys' x'] by blast
  with \<open>obj_base x' = obj_base x\<close> show ?case by (auto simp: y(1) m'_def)
qed auto

lemma call_stored_store:
  assumes "call_stored sigs m c" and "call_stored sigs m d"
  shows "call_stored sigs (store sigs c m) d"
  using assms(2) updates_base [OF assms(1) [unfolded call_stored_def]] unfolding call_stored_def store_def
  by (fastforce elim!: list_all2_mono)

text \<open>The server has the functions; the client has a stub for each name it uses, with the calls on their way in order.\<close>

definition server_has :: "signatures \<Rightarrow> u8 ServerCom RpcServer \<Rightarrow> bool" where
  "server_has sigs p \<longleftrightarrow> registry_ok sk_id (srv_registry p) \<and> finite (dom (srv_mem p)) \<and>
     (\<forall>name R Args f. sigs name = Some (R, Args, f) \<longrightarrow>
        (\<exists>sk. registered (srv_registry p) name = Some sk \<and> skeleton_ok R Args f sk))"

definition client_has :: "signatures \<Rightarrow> call list \<Rightarrow> u8 ClientCom RpcClient \<Rightarrow> bool" where
  "client_has sigs cs p \<longleftrightarrow> registry_ok st_id (cln_registry p) \<and>
     (\<forall>name st. registered (cln_registry p) name = Some st \<longrightarrow>
        (\<exists>R Args f. sigs name = Some (R, Args, f) \<and> stub_ok R Args st) \<and>
        st_invokation_list st = map pending (filter (\<lambda>c. c_name c = name) cs)) \<and>
     (\<forall>c \<in> set cs. registered (cln_registry p) (c_name c) \<noteq> None \<and> call_typed sigs c \<and> call_stored sigs (cln_mem p) c)"

lemma server_hasD:
  assumes "server_has sigs p" and "sigs name = Some (R, Args, f)"
  obtains sk where "registered (srv_registry p) name = Some sk" and "skeleton_ok R Args f sk"
  using assms unfolding server_has_def by blast

lemma client_hasD:
  assumes "client_has sigs cs p" and "registered (cln_registry p) name = Some st" and "sigs name = Some (R, Args, f)"
  shows "stub_ok R Args st" and "st_invokation_list st = map pending (filter (\<lambda>c. c_name c = name) cs)"
proof -
  have "(\<exists>R Args f. sigs name = Some (R, Args, f) \<and> stub_ok R Args st) \<and>
      st_invokation_list st = map pending (filter (\<lambda>c. c_name c = name) cs)"
    using assms(1,2) unfolding client_has_def by blast
  with assms(3) show "stub_ok R Args st" "st_invokation_list st = map pending (filter (\<lambda>c. c_name c = name) cs)" by auto
qed

context allocator
begin

lemma serve_call:
  assumes has: "server_has sigs p" and c: "call_typed sigs c"
  obtains p' where "serve_msg malloc (request c) p = Some p'" and "server_has sigs p'"
    and "p' = p\<lparr>srv_registry := srv_registry p', tx_msg_buffer := tx_msg_buffer p @ [reply sigs c]\<rparr>"
proof -
  obtain R Args f where s: "sigs (c_name c) = Some (R, Args, f)" "args_ok Args (c_args c)" "remote_typed R Args f (c_args c)"
    using c by (auto simp: call_typed_def)
  obtain sk where sk: "registered (srv_registry p) (c_name c) = Some sk" "skeleton_ok R Args f sk" using server_hasD [OF has s(1)] .
  have ok: "registry_ok sk_id (srv_registry p)" "finite (dom (srv_mem p))" using has by (simp_all add: server_has_def)
  have n: "bm_name (request c) = c_name c" "bm_value (request c) = encode (c_args c)" "bm_id (request c) = c_id c" by (simp_all add: request_def)
  obtain p' sk' where p': "serve_msg malloc (request c) p = Some p'"
    "tx_msg_buffer p' = tx_msg_buffer p @ [\<lparr>bm_name = c_name c, bm_id = c_id c,
       bm_value = encode_result R (fst (f (c_args c))) @ encode (outs Args (snd (f (c_args c))))\<rparr>]"
    "srv_mem p' = srv_mem p" "registry_ok sk_id (srv_registry p')"
    "registered (srv_registry p') = (registered (srv_registry p))(c_name c \<mapsto> sk')" "skeleton_ok R Args f sk'"
    "p' = p\<lparr>srv_registry := srv_registry p', tx_msg_buffer := tx_msg_buffer p'\<rparr>"
    by (rule serve_msg_ok [where msg = "request c", OF ok(1) _ sk(2) s(2) _ s(3) ok(2)]) (use sk(1) n in auto)
  have "tx_msg_buffer p' = tx_msg_buffer p @ [reply sigs c]" using p'(2) s(1) by (simp add: reply_def c_result_def c_outs_def)
  moreover have "server_has sigs p'" using has p'(3-6) s(1) by (auto simp: server_has_def)
  ultimately show thesis using p'(1,7) by (intro that [of p']) simp_all
qed

lemma serve_calls:
  assumes "server_has sigs p" and "\<forall>c \<in> set cs. call_typed sigs c" and "rx_msg_buffer p = map request cs"
  shows "\<exists>p'. serve_msgs malloc (map request cs) p = Some p' \<and> server_has sigs p' \<and>
           p' = p\<lparr>srv_registry := srv_registry p', tx_msg_buffer := tx_msg_buffer p @ map (reply sigs) cs, rx_msg_buffer := []\<rparr>"
  using assms
proof (induction cs arbitrary: p)
  case (Cons c cs)
  obtain q where q: "serve_msg malloc (request c) p = Some q" "server_has sigs q"
    "q = p\<lparr>srv_registry := srv_registry q, tx_msg_buffer := tx_msg_buffer p @ [reply sigs c]\<rparr>"
    using serve_call [OF Cons.prems(1)] Cons.prems(2) by (metis list.set_intros(1))
  let ?q = "q\<lparr>rx_msg_buffer := map request cs\<rparr>"
  have "server_has sigs ?q" using q(2) by (simp add: server_has_def)
  then obtain p' where p': "serve_msgs malloc (map request cs) ?q = Some p'" "server_has sigs p'"
    "p' = ?q\<lparr>srv_registry := srv_registry p', tx_msg_buffer := tx_msg_buffer ?q @ map (reply sigs) cs, rx_msg_buffer := []\<rparr>"
    using Cons.IH [of ?q] Cons.prems(2) by auto
  have "p' = p\<lparr>srv_registry := srv_registry p', tx_msg_buffer := tx_msg_buffer p @ map (reply sigs) (c # cs), rx_msg_buffer := []\<rparr>"
    by (subst p'(3), subst (1 2) q(3)) simp
  with q(1) p'(1,2) show ?case by simp
qed simp

end

text \<open>The reply to the oldest call: its results are stored and its callback runs with the returned value.\<close>

definition answered :: "signatures \<Rightarrow> call \<Rightarrow> ReturnValue \<Rightarrow> bool" where
  "answered sigs c rv \<longleftrightarrow> (\<exists>R Args f. sigs (c_name c) = Some (R, Args, f) \<and> return_value R (fst (f (c_args c))) rv)"

definition c_calls :: "call \<Rightarrow> ReturnValue \<Rightarrow> callbacks" where
  "c_calls c rv = (case c_callback c of None \<Rightarrow> [] | Some cb \<Rightarrow> [(cb, rv)])"

lemma deliver_call:
  assumes has: "client_has sigs (c # cs) p"
  obtains p' rv where "deliver_msg (reply sigs c) p = Some p'" and "client_has sigs cs p'" and "answered sigs c rv"
    and "p' = p\<lparr>cln_registry := cln_registry p', cln_mem := store sigs c (cln_mem p), cln_calls := cln_calls p @ c_calls c rv\<rparr>"
proof -
  have c: "call_typed sigs c" "call_stored sigs (cln_mem p) c" "registered (cln_registry p) (c_name c) \<noteq> None" "registry_ok st_id (cln_registry p)"
    using has by (simp_all add: client_has_def)
  obtain R Args f where s: "sigs (c_name c) = Some (R, Args, f)" "remote_typed R Args f (c_args c)" "args_ok Args (snd (f (c_args c)))"
    using c(1) by (auto simp: call_typed_def)
  obtain st where st: "registered (cln_registry p) (c_name c) = Some st" using c(3) by auto
  have so: "stub_ok R Args st" "st_invokation_list st = pending c # map pending (filter (\<lambda>d. c_name d = c_name c) cs)"
    using client_hasD [OF has st s(1)] by simp_all
  let ?others = "map pending (filter (\<lambda>d. c_name d = c_name c) cs)"
  have f: "find_invokation (bm_id (reply sigs c)) (st_invokation_list st) = Some (pending c, ?others)"
    by (simp add: so(2) reply_def pending_def)
  have n: "bm_name (reply sigs c) = c_name c" by (simp add: reply_def)
  have st': "registered (cln_registry p) (bm_name (reply sigs c)) = Some st" using st by (simp add: n)
  have v: "bm_value (reply sigs c) = encode_result R (fst (f (c_args c))) @ encode (outs Args (snd (f (c_args c))))"
    by (simp add: reply_def s(1) c_result_def c_outs_def)
  have o: "c_outs sigs c = outs Args (snd (f (c_args c)))" by (simp add: c_outs_def s(1))
  have r: "result_ok R (fst (f (c_args c)))" using s(2) by (simp add: remote_typed_def)
  have ad: "list_all2 (\<lambda>a y. \<exists>x. cln_mem p a = Some x \<and> obj_base x = obj_base y) (inv_out_args_addresses (pending c)) (outs Args (snd (f (c_args c))))"
    using c(2) by (simp add: call_stored_def o pending_def)
  obtain p' st' rv where p': "deliver_msg (reply sigs c) p = Some p'"
    "cln_mem p' = (cln_mem p)(inv_out_args_addresses (pending c) [\<mapsto>] outs Args (snd (f (c_args c))))"
    "return_value R (fst (f (c_args c))) rv" "cln_calls p' = cln_calls p @ (case inv_callback (pending c) of None \<Rightarrow> [] | Some cb \<Rightarrow> [(cb, rv)])"
    "registry_ok st_id (cln_registry p')" "registered (cln_registry p') = (registered (cln_registry p))(c_name c \<mapsto> st')"
    "stub_ok R Args st'" "st_invokation_list st' = ?others"
    "p' = p\<lparr>cln_registry := cln_registry p', cln_mem := cln_mem p', cln_calls := cln_calls p'\<rparr>"
    by (rule deliver_msg_ok [OF c(4) st' so(1) f v r s(3) ad, unfolded n]) (rule that, assumption+)
  have m: "cln_mem p' = store sigs c (cln_mem p)" using p'(2) by (simp add: store_def o pending_def)
  have "client_has sigs cs p'"
    using has p'(5-8) s(1) call_stored_store [OF c(2)] unfolding client_has_def m by auto
  moreover have "cln_calls p' = cln_calls p @ c_calls c rv" using p'(4) by (simp add: c_calls_def pending_def)
  moreover have "answered sigs c rv" using s(1) p'(3) by (auto simp: answered_def)
  ultimately show thesis using p'(1,9) m by (intro that [of p' rv]) simp_all
qed

lemma deliver_calls:
  assumes "client_has sigs (cs @ rest) p" and "rx_msg_buffer p = map (reply sigs) cs"
  shows "\<exists>p' rvs. deliver_msgs (map (reply sigs) cs) p = Some p' \<and> client_has sigs rest p' \<and> list_all2 (answered sigs) cs rvs \<and>
           p' = p\<lparr>cln_registry := cln_registry p', cln_mem := fold (store sigs) cs (cln_mem p),
                  cln_calls := cln_calls p @ concat (map2 c_calls cs rvs), rx_msg_buffer := []\<rparr>"
  using assms
proof (induction cs arbitrary: p)
  case (Cons c cs)
  obtain q rv where q: "deliver_msg (reply sigs c) p = Some q" "client_has sigs (cs @ rest) q" "answered sigs c rv"
    "q = p\<lparr>cln_registry := cln_registry q, cln_mem := store sigs c (cln_mem p), cln_calls := cln_calls p @ c_calls c rv\<rparr>"
    using deliver_call [of sigs c "cs @ rest" p] Cons.prems(1) by auto
  let ?q = "q\<lparr>rx_msg_buffer := map (reply sigs) cs\<rparr>"
  have "client_has sigs (cs @ rest) ?q" using q(2) by (simp add: client_has_def)
  then obtain p' rvs where p': "deliver_msgs (map (reply sigs) cs) ?q = Some p'" "client_has sigs rest p'" "list_all2 (answered sigs) cs rvs"
    "p' = ?q\<lparr>cln_registry := cln_registry p', cln_mem := fold (store sigs) cs (cln_mem ?q),
                  cln_calls := cln_calls ?q @ concat (map2 c_calls cs rvs), rx_msg_buffer := []\<rparr>"
    using Cons.IH [of ?q] by auto
  have "p' = p\<lparr>cln_registry := cln_registry p', cln_mem := fold (store sigs) (c # cs) (cln_mem p),
                  cln_calls := cln_calls p @ concat (map2 c_calls (c # cs) (rv # rvs)), rx_msg_buffer := []\<rparr>"
    by (subst p'(4), subst (1 2 3) q(4)) simp
  moreover have "deliver_msgs (map (reply sigs) (c # cs)) p = Some p'" using q(1) p'(1) by simp
  ultimately show ?case using q(3) p'(2,3) by (intro exI [of _ p'] exI [of _ "rv # rvs"]) simp
qed simp

section \<open>Turns\<close>

definition loop_inv :: "signatures \<Rightarrow> call list \<Rightarrow> call list \<Rightarrow> Loopback \<Rightarrow> bool" where
  "loop_inv sigs reps reqs st \<longleftrightarrow> link_inv st (map request reqs) (map (reply sigs) reps) \<and>
     client_has sigs (reps @ reqs) (lb_client st) \<and> server_has sigs (lb_server st) \<and>
     rx_msg_buffer (lb_client st) = [] \<and> rx_msg_buffer (lb_server st) = []"

lemma srv_more: "Peer.more p = Peer.more q \<Longrightarrow> srv_registry p = srv_registry q \<and> srv_mem p = srv_mem (q :: 'c RpcServer)"
  by (cases p; cases q) simp

lemma cln_more: "Peer.more p = Peer.more q \<Longrightarrow> cln_registry p = cln_registry q \<and> cln_mem p = cln_mem q \<and> cln_calls p = cln_calls (q :: 'c RpcClient)"
  by (cases p; cases q) simp

lemma server_has_cong: "srv_registry p = srv_registry q \<Longrightarrow> srv_mem p = srv_mem q \<Longrightarrow> server_has sigs p = server_has sigs q"
  by (simp add: server_has_def)

lemma client_has_cong: "cln_registry p = cln_registry q \<Longrightarrow> cln_mem p = cln_mem q \<Longrightarrow> client_has sigs cs p = client_has sigs cs q"
  by (simp add: client_has_def)

lemma client_has_typed: "client_has sigs cs p \<Longrightarrow> c \<in> set cs \<Longrightarrow> call_typed sigs c"
  by (simp add: client_has_def)

lemma tout_pos: "0 < SERVER_LOOP_TOUT_MS" "0 < CLIENT_LOOP_TOUT_MS"
  by (simp_all add: SERVER_LOOP_TOUT_MS_def CLIENT_LOOP_TOUT_MS_def)

context allocator
begin

text \<open>The server between its two phases: what it has received is served.\<close>

lemma server_serves:
  assumes inv: "loop_inv sigs reps reqs st"
    and o: "srv_bytes.obtained (lb_srv st) p (tx_bytes (m_streamer (lb_client st)) @ tx_todo (lb_client st)) (map request reqs)"
  obtains got rest p' where "reqs = got @ rest" and "rx_msg_buffer p = map request got"
    and "serve_msgs malloc (rx_msg_buffer p) p = Some p'" and "lb_srv (st\<lparr>lb_sb := lb_sb (set_srv p st), lb_server := p'\<rparr>) = p'"
    and "loop_inv sigs (reps @ got) rest (st\<lparr>lb_sb := lb_sb (set_srv p st), lb_server := p'\<rparr>)"
    and "m_streamer p' = m_streamer p" and "tx_todo p' = tx_todo p @ concat (map wire (map (reply sigs) got))"
proof -
  have link: "link_inv st (map request reqs) (map (reply sigs) reps)" and has: "server_has sigs (lb_server st)" "client_has sigs (reps @ reqs) (lb_client st)"
    and b: "rx_msg_buffer (lb_client st) = []" "rx_msg_buffer (lb_server st) = []"
    using inv by (simp_all add: loop_inv_def)
  obtain ms where ms: "rx_msg_buffer p @ ms = map request reqs" "link_inv (set_srv p st) ms (map (reply sigs) reps)" "Peer.more p = Peer.more (lb_srv st)"
    using link_inv_obtained_srv [OF link o] b(2) by auto
  obtain got rest where g: "reqs = got @ rest" "rx_msg_buffer p = map request got" "ms = map request rest"
    using ms(1) [symmetric] unfolding map_eq_append_conv by blast
  have t: "\<forall>c \<in> set got. call_typed sigs c" using client_has_typed [OF has(2)] g(1) by simp
  have "server_has sigs p" using has(1) srv_more [OF ms(3)] by (simp add: server_has_cong [of p "lb_server st"])
  from serve_calls [OF this t g(2)] obtain p' where p': "serve_msgs malloc (map request got) p = Some p'" "server_has sigs p'"
    "p' = p\<lparr>srv_registry := srv_registry p', tx_msg_buffer := tx_msg_buffer p @ map (reply sigs) got, rx_msg_buffer := []\<rparr>" by blast
  have f: "m_streamer p' = m_streamer p" "m_init_deserializer p' = m_init_deserializer p" "m_deserializer p' = m_deserializer p"
    "tx_msg_buffer p' = tx_msg_buffer p @ map (reply sigs) got" "m_init_serializer p' = m_init_serializer p" "m_serializer p' = m_serializer p"
    "rx_msg_buffer p' = []" by (subst p'(3), simp)+
  have ok: "\<forall>m \<in> set (map (reply sigs) got). msg_ok m" using t by (auto simp: call_typed_def)
  have "tx_state_ok p" using ms(2) by (simp add: link_inv_def)
  note push = tx_push [OF this ok f(4-6)]
  have s: "set_srv p st\<lparr>lb_server := p'\<rparr> = st\<lparr>lb_sb := lb_sb (set_srv p st), lb_server := p'\<rparr>" by (simp add: set_srv_def)
  have "link_inv (set_srv p st\<lparr>lb_server := p'\<rparr>) ms (map (reply sigs) reps @ map (reply sigs) got)"
    by (rule link_inv_queue_srv [OF ms(2) ok]) (simp_all add: f push)
  then have "loop_inv sigs (reps @ got) rest (set_srv p st\<lparr>lb_server := p'\<rparr>)"
    using has(2) p'(2) b(1) f(7) g(1,3) by (simp add: loop_inv_def)
  moreover have "srv_with (srv_sb (m_com (m_streamer p))) p' = p'" using with_same(2) [of p'] by (simp add: f(1))
  ultimately show thesis using g(1,2) p'(1) f(1) push(1) unfolding s by (intro that [of got rest p']) simp_all
qed

lemma server_turn_ok:
  assumes inv: "loop_inv sigs reps reqs st" and clk: "clock_runs clk"
  obtains st' clk' got rest where "server_turn malloc clk st = Some (st', clk')" and "clock_runs clk'" and "reqs = got @ rest"
    and "loop_inv sigs (reps @ got) rest st'" and "lb_client st' = lb_client st"
proof -
  have link: "link_inv st (map request reqs) (map (reply sigs) reps)" using inv by (simp add: loop_inv_def)
  then have l: "Streamer_inv ServerCom_inv (m_streamer (lb_srv st))"
    "rx_expects (in_content \<circ> srv_sb) (lb_srv st) (tx_bytes (m_streamer (lb_client st)) @ tx_todo (lb_client st)) (map request reqs)"
    by (simp_all add: link_inv_def)
  obtain p clk1 where p: "rx_phase ServerCom SERVER_LOOP_TOUT_MS clk (lb_srv st) = Some (p, clk1)" "clock_runs clk1"
    "srv_bytes.obtained (lb_srv st) p (tx_bytes (m_streamer (lb_client st)) @ tx_todo (lb_client st)) (map request reqs)"
    using srv_bytes.rx_phase_ok [OF l clk tout_pos(1)] by metis
  obtain got rest p' where g: "reqs = got @ rest" "serve_msgs malloc (rx_msg_buffer p) p = Some p'"
    "lb_srv (st\<lparr>lb_sb := lb_sb (set_srv p st), lb_server := p'\<rparr>) = p'"
    "loop_inv sigs (reps @ got) rest (st\<lparr>lb_sb := lb_sb (set_srv p st), lb_server := p'\<rparr>)"
    using server_serves [OF inv p(3)] by metis
  let ?st = "st\<lparr>lb_sb := lb_sb (set_srv p st), lb_server := p'\<rparr>"
  have link': "link_inv ?st (map request rest) (map (reply sigs) (reps @ got))" using g(4) by (simp add: loop_inv_def)
  then have "Streamer_inv ServerCom_inv (m_streamer p')" "tx_state_ok p'" using g(3) by (auto simp: link_inv_def)
  then obtain p2 clk2 where p2: "tx_phase ServerCom SERVER_LOOP_TOUT_MS clk1 p' = Some (p2, clk2)" "clock_runs clk2" "srv_bytes.transmitted p' p2"
    using srv_bytes.tx_phase_ok [OF _ _ p(2) tout_pos(1)] by metis
  have t: "link_inv (set_srv p2 ?st) (map request rest) (map (reply sigs) (reps @ got))" "rx_msg_buffer p2 = rx_msg_buffer p'" "Peer.more p2 = Peer.more p'"
    using link_inv_transmitted_srv [OF link'] p2(3) g(3) by auto
  have "server_turn malloc clk st = Some (set_srv p2 ?st, clk2)"
    using p(1) g(2) p2(1) by (simp add: server_turn_def RpcServer_doLoop_def set_srv_def)
  moreover have "loop_inv sigs (reps @ got) rest (set_srv p2 ?st)"
    using g(4) t srv_more [OF t(3)] by (simp add: loop_inv_def server_has_cong [of p2 p'])
  ultimately show thesis using p2(2) g(1) by (intro that [of "set_srv p2 ?st" clk2 got rest]) simp_all
qed

end

text \<open>The client after its two phases: what it has received is delivered.\<close>

lemma client_delivers:
  assumes inv: "loop_inv sigs reps reqs st"
    and o: "cln_bytes.obtained (lb_cln st) p (tx_bytes (m_streamer (lb_server st)) @ tx_todo (lb_server st)) (map (reply sigs) reps)"
  obtains got rest p' rvs where "reps = got @ rest" and "rx_msg_buffer p = map (reply sigs) got"
    and "deliver_msgs (rx_msg_buffer p) p = Some p'" and "m_streamer p' = m_streamer p" and "tx_todo p' = tx_todo p"
    and "loop_inv sigs rest reqs (set_cln p' st)" and "list_all2 (answered sigs) got rvs"
    and "cln_mem p' = fold (store sigs) got (cln_mem (lb_client st))"
    and "cln_calls p' = cln_calls (lb_client st) @ concat (map2 c_calls got rvs)"
proof -
  have link: "link_inv st (map request reqs) (map (reply sigs) reps)" and has: "server_has sigs (lb_server st)" "client_has sigs (reps @ reqs) (lb_client st)"
    and b: "rx_msg_buffer (lb_client st) = []" "rx_msg_buffer (lb_server st) = []"
    using inv by (simp_all add: loop_inv_def)
  obtain ms where ms: "rx_msg_buffer p @ ms = map (reply sigs) reps" "link_inv (set_cln p st) (map request reqs) ms" "Peer.more p = Peer.more (lb_cln st)"
    using link_inv_obtained_cln [OF link o] b(1) by auto
  obtain got rest where g: "reps = got @ rest" "rx_msg_buffer p = map (reply sigs) got" "ms = map (reply sigs) rest"
    using ms(1) [symmetric] unfolding map_eq_append_conv by blast
  have m: "cln_registry p = cln_registry (lb_client st)" "cln_mem p = cln_mem (lb_client st)" "cln_calls p = cln_calls (lb_client st)"
    using cln_more [OF ms(3)] by simp_all
  have "client_has sigs (got @ rest @ reqs) p" using has(2) g(1) client_has_cong [OF m(1,2)] by simp
  from deliver_calls [OF this g(2)] obtain p' rvs where p': "deliver_msgs (map (reply sigs) got) p = Some p'" "client_has sigs (rest @ reqs) p'"
    "list_all2 (answered sigs) got rvs"
    "p' = p\<lparr>cln_registry := cln_registry p', cln_mem := fold (store sigs) got (cln_mem p),
            cln_calls := cln_calls p @ concat (map2 c_calls got rvs), rx_msg_buffer := []\<rparr>" by blast
  have f: "m_streamer p' = m_streamer p" "m_init_deserializer p' = m_init_deserializer p" "m_deserializer p' = m_deserializer p"
    "tx_msg_buffer p' = tx_msg_buffer p @ []" "m_init_serializer p' = m_init_serializer p" "m_serializer p' = m_serializer p"
    "rx_msg_buffer p' = []" "cln_mem p' = fold (store sigs) got (cln_mem p)" "cln_calls p' = cln_calls p @ concat (map2 c_calls got rvs)"
    by (subst p'(4), simp)+
  have "tx_state_ok p" using ms(2) by (simp add: link_inv_def)
  note push = tx_push [OF this _ f(4-6)]
  have s: "set_cln p st\<lparr>lb_client := p'\<rparr> = set_cln p' st" by (simp add: set_cln_def f(1))
  have "link_inv (set_cln p st\<lparr>lb_client := p'\<rparr>) (map request reqs @ []) ms"
    by (rule link_inv_queue_cln [OF ms(2)]) (simp_all add: f push)
  then have "loop_inv sigs rest reqs (set_cln p' st)"
    unfolding s using has(1) p'(2) b(2) f(7) g(3) by (simp add: loop_inv_def)
  then show thesis using g(1,2) p'(1,3) f(1,8,9) push(1) m by (intro that [of got rest p' rvs]) simp_all
qed

lemma client_turn_ok:
  assumes inv: "loop_inv sigs reps reqs st" and clk: "clock_runs clk"
  obtains st' clk' got rest rvs where "client_turn clk st = Some (st', clk')" and "clock_runs clk'" and "reps = got @ rest"
    and "loop_inv sigs rest reqs st'" and "list_all2 (answered sigs) got rvs"
    and "cln_mem (lb_client st') = fold (store sigs) got (cln_mem (lb_client st))"
    and "cln_calls (lb_client st') = cln_calls (lb_client st) @ concat (map2 c_calls got rvs)" and "lb_server st' = lb_server st"
proof -
  have link: "link_inv st (map request reqs) (map (reply sigs) reps)" using inv by (simp add: loop_inv_def)
  then have "Streamer_inv ClientCom_inv (m_streamer (lb_cln st))" "tx_state_ok (lb_cln st)" by (simp_all add: link_inv_def)
  then obtain p clk1 where p: "tx_phase ClientCom CLIENT_LOOP_TOUT_MS clk (lb_cln st) = Some (p, clk1)" "clock_runs clk1" "cln_bytes.transmitted (lb_cln st) p"
    using cln_bytes.tx_phase_ok [OF _ _ clk tout_pos(2)] by metis
  have t: "link_inv (set_cln p st) (map request reqs) (map (reply sigs) reps)" "rx_msg_buffer p = rx_msg_buffer (lb_client st)" "Peer.more p = Peer.more (lb_cln st)"
    using link_inv_transmitted_cln [OF link p(3)] by auto
  have m: "cln_registry p = cln_registry (lb_client st)" "cln_mem p = cln_mem (lb_client st)" "cln_calls p = cln_calls (lb_client st)"
    using cln_more [OF t(3)] by simp_all
  have inv1: "loop_inv sigs reps reqs (set_cln p st)" using inv t client_has_cong [OF m(1,2)] by (simp add: loop_inv_def)
  have "Streamer_inv ClientCom_inv (m_streamer p)"
    "rx_expects (out_content \<circ> cln_sb) p (tx_bytes (m_streamer (lb_server st)) @ tx_todo (lb_server st)) (map (reply sigs) reps)"
    using t(1) by (simp_all add: link_inv_def)
  then obtain p2 clk2 where p2: "rx_phase ClientCom CLIENT_LOOP_TOUT_MS clk1 p = Some (p2, clk2)" "clock_runs clk2"
    "cln_bytes.obtained p p2 (tx_bytes (m_streamer (lb_server st)) @ tx_todo (lb_server st)) (map (reply sigs) reps)"
    using cln_bytes.rx_phase_ok [OF _ _ p(2) tout_pos(2)] by metis
  have o: "cln_bytes.obtained (lb_cln (set_cln p st)) p2 (tx_bytes (m_streamer (lb_server (set_cln p st))) @ tx_todo (lb_server (set_cln p st))) (map (reply sigs) reps)"
    using p2(3) by simp
  obtain got rest p' rvs where g: "reps = got @ rest" "deliver_msgs (rx_msg_buffer p2) p2 = Some p'" "m_streamer p' = m_streamer p2"
    "loop_inv sigs rest reqs (set_cln p' (set_cln p st))" "list_all2 (answered sigs) got rvs"
    "cln_mem p' = fold (store sigs) got (cln_mem p)" "cln_calls p' = cln_calls p @ concat (map2 c_calls got rvs)"
    by (rule client_delivers [OF inv1 o, unfolded set_simps]) (rule that, assumption+)
  have s: "set_cln p' (set_cln p st) = set_cln p' st" by (simp add: set_cln_def)
  have "client_turn clk st = Some (set_cln p' st, clk2)"
    using p(1) p2(1) g(2) by (simp add: client_turn_def RpcClient_doLoop_def set_cln_def)
  then show thesis using p2(2) g m unfolding s by (intro that [of "set_cln p' st" clk2 got rest rvs]) simp_all
qed

text \<open>A call of \<^verbatim>\<open>asyncRPC\<close>.\<close>

text \<open>A call, seen from the client alone.\<close>

lemma client_asks:
  assumes has: "client_has sigs cs p0" and st: "deref (cln_registry p0) (Some q) = Some stub" and full: "\<not> tx_msg_full p0"
    and sig: "sigs (st_id stub) = Some (R, Args, f)" and as: "actuals_ok Args as xs (cln_mem p0)" and ptr: "no_const_ptr Args"
    and c: "c = \<lparr>c_name = st_id stub, c_id = st_invokations stub + 1, c_callback = cb, c_addresses = kept Args as, c_args = xs\<rparr>" "call_typed sigs c"
  obtains p where "asyncRPC Args (Some q) cb as p0 = Some (True, p)" and "client_has sigs (cs @ [c]) p"
    and "tx_msg_buffer p = tx_msg_buffer p0 @ [request c]" and "p = p0\<lparr>cln_registry := cln_registry p, tx_msg_buffer := tx_msg_buffer p\<rparr>"
proof -
  have ok: "registry_ok st_id (cln_registry p0)" using has by (simp add: client_has_def)
  then have reg: "registered (cln_registry p0) (st_id stub) = Some stub" using st registered_node by (simp add: deref_nodes)
  note stub = client_hasD [OF has reg sig]
  obtain p stub' where p: "asyncRPC Args (Some q) cb as p0 = Some (True, p)"
    "tx_msg_buffer p = tx_msg_buffer p0 @ [\<lparr>bm_name = st_id stub, bm_id = st_invokations stub + 1, bm_value = encode xs\<rparr>]"
    "registry_ok st_id (cln_registry p)" "registered (cln_registry p) = (registered (cln_registry p0))(st_id stub \<mapsto> stub')"
    "stub' = stub\<lparr>st_invokations := st_invokations stub + 1, st_invokation_id := st_invokations stub + 1, st_in_args := encode xs,
           st_invokation_list := st_invokation_list stub @
             [\<lparr>inv_id = st_invokations stub + 1, inv_callback = cb, inv_out_args_addresses = kept Args as\<rparr>]\<rparr>"
    "p = p0\<lparr>cln_registry := cln_registry p, tx_msg_buffer := tx_msg_buffer p\<rparr>"
    by (rule asyncRPC_ok [OF ok st full as]) (rule that, assumption+)
  have mem: "cln_mem p = cln_mem p0" by (subst p(6)) simp
  have "args_ok Args (snd (f xs))" using c sig by (auto simp: call_typed_def)
  moreover have "list_all ParamType_valid Args" using stub(1) by (simp add: stub_ok_def ParamTraits_valid_def)
  ultimately have stored: "call_stored sigs (cln_mem p0) c"
    using kept_typed [OF as args_ok_typed _ ptr] by (simp add: call_stored_def c_outs_def c(1) sig)
  have "(\<exists>R Args f. sigs name = Some (R, Args, f) \<and> stub_ok R Args s) \<and> st_invokation_list s = map pending (filter (\<lambda>c. c_name c = name) (cs @ [c]))"
    if r: "registered (cln_registry p) name = Some s" for name s
  proof (cases "name = st_id stub")
    case True
    then show ?thesis using r p(4,5) stub sig by (auto simp: stub_ok_def pending_def c(1))
  next
    case False
    then have "registered (cln_registry p0) name = Some s" using r p(4) by simp
    with has False show ?thesis unfolding client_has_def by (auto simp: c(1))
  qed
  moreover have "registered (cln_registry p) (c_name d) \<noteq> None \<and> call_typed sigs d \<and> call_stored sigs (cln_mem p) d" if "d \<in> set (cs @ [c])" for d
    using that has c stored p(4) mem by (auto simp: client_has_def)
  ultimately have "client_has sigs (cs @ [c]) p" using p(3) unfolding client_has_def by blast
  then show thesis using p(1,2,6) by (intro that [of p]) (simp_all add: request_def c(1))
qed

lemma client_calls:
  assumes inv: "loop_inv sigs reps reqs st" and st: "deref (cln_registry (lb_client st)) (Some q) = Some stub" and full: "\<not> tx_msg_full (lb_client st)"
    and sig: "sigs (st_id stub) = Some (R, Args, f)" and as: "actuals_ok Args as xs (cln_mem (lb_client st))" and ptr: "no_const_ptr Args"
    and c: "c = \<lparr>c_name = st_id stub, c_id = st_invokations stub + 1, c_callback = cb, c_addresses = kept Args as, c_args = xs\<rparr>" "call_typed sigs c"
  obtains p where "asyncRPC Args (Some q) cb as (lb_client st) = Some (True, p)" and "loop_inv sigs reps (reqs @ [c]) (st\<lparr>lb_client := p\<rparr>)"
    and "cln_mem p = cln_mem (lb_client st)" and "cln_calls p = cln_calls (lb_client st)"
    and "m_streamer p = m_streamer (lb_client st)" and "tx_todo p = tx_todo (lb_client st) @ wire (request c)"
proof -
  have link: "link_inv st (map request reqs) (map (reply sigs) reps)" and has: "server_has sigs (lb_server st)" "client_has sigs (reps @ reqs) (lb_client st)"
    and b: "rx_msg_buffer (lb_client st) = []" "rx_msg_buffer (lb_server st) = []"
    using inv by (simp_all add: loop_inv_def)
  obtain p where p: "asyncRPC Args (Some q) cb as (lb_client st) = Some (True, p)" "client_has sigs ((reps @ reqs) @ [c]) p"
    "tx_msg_buffer p = tx_msg_buffer (lb_client st) @ [request c]" "p = lb_client st\<lparr>cln_registry := cln_registry p, tx_msg_buffer := tx_msg_buffer p\<rparr>"
    by (rule client_asks [OF has(2) st full sig as ptr c]) (rule that, assumption+)
  have f: "m_streamer p = m_streamer (lb_client st)" "m_init_deserializer p = m_init_deserializer (lb_client st)"
    "m_deserializer p = m_deserializer (lb_client st)" "m_init_serializer p = m_init_serializer (lb_client st)"
    "m_serializer p = m_serializer (lb_client st)" "rx_msg_buffer p = []" "cln_mem p = cln_mem (lb_client st)" "cln_calls p = cln_calls (lb_client st)"
    by (subst p(4), simp add: b)+
  have ok': "\<forall>m \<in> set [request c]. msg_ok m" using c(2) by (simp add: call_typed_def)
  have "tx_state_ok (lb_client st)" using link by (simp add: link_inv_def)
  note push = tx_push [OF this ok' p(3) f(4,5)]
  have "link_inv (st\<lparr>lb_client := p\<rparr>) (map request reqs @ [request c]) (map (reply sigs) reps)"
    by (rule link_inv_queue_cln [OF link ok']) (simp_all add: f push)
  then have "loop_inv sigs reps (reqs @ [c]) (st\<lparr>lb_client := p\<rparr>)" using has(1) b(2) f(6) p(2) by (simp add: loop_inv_def)
  then show thesis using p(1) f(1,7,8) push(1) by (intro that [of p]) simp_all
qed

end
