(* ===== verification/Throughput.thy ===== *)
theory Throughput
  imports Loopback
begin

text \<open>
  How fast the loop-back program moves messages: with time for 256 turns a phase of a loop fills the shared buffer or sends all there
  is to send, and takes 256 bytes or all that has arrived. So every turn of \<^verbatim>\<open>main\<close> (\<^verbatim>\<open>src/src/main.cpp\<close>) moves 256 bytes in each
  direction, and the number of turns that complete the calls on their way, of any size, follows from the bytes of their messages.
\<close>

section \<open>What the phases leave\<close>

text \<open>Every phase reads on in the stream of clock readings, and leaves what the peer has besides its queues and streams.\<close>

definition framed :: "('c, 'z) Peer_scheme \<times> int stream \<Rightarrow> ('c, 'z) Peer_scheme \<Rightarrow> int stream \<Rightarrow> bool" where
  "framed r p clk \<longleftrightarrow> Peer.more (fst r) = Peer.more p \<and> (\<exists>k. snd r = sdrop k clk)"

lemma framed_stop: "framed (p, clk) p clk" "framed (p, stl clk) p clk"
  by (auto simp: framed_def intro: exI [of _ 0] exI [of _ 1])

lemma framed_step: "framed r q (stl clk) \<Longrightarrow> Peer.more q = Peer.more p \<Longrightarrow> framed r p clk"
  by (auto simp: framed_def intro: exI [of _ "Suc k" for k])

lemma rx_turn_more: "rx_turn C p = Some q \<Longrightarrow> Peer.more q = Peer.more p"
  by (auto simp: rx_turn_def Let_def elim!: bind_SomeE split: if_splits)

lemma tx_turn_more: "tx_turn C p = Some q \<Longrightarrow> Peer.more q = Peer.more p"
  by (auto simp: tx_turn_def Let_def elim!: bind_SomeE split: if_splits)

lemma rx_loop_framed:
  fixes p :: "('c, 'z) Peer_scheme"
  assumes "rx_loop C t clk p = Some r"
  shows "framed r p clk"
proof (rule rx_loop.raw_induct [where P = "\<lambda>C t clk p r. framed r p clk", OF _ assms])
  fix f :: "(u8, 'c) comm \<Rightarrow> TimeOutChrono \<Rightarrow> int stream \<Rightarrow> ('c, 'z) Peer_scheme \<Rightarrow> (('c, 'z) Peer_scheme \<times> int stream) option"
    and C t clk p r
  assume IH: "\<And>C t clk p r. f C t clk p = Some r \<Longrightarrow> framed r p clk"
    and r: "(if expired_impl (shd clk) t then Some (p, stl clk) else do { p \<leftarrow> rx_turn C p; f C t (stl clk) p }) = Some r"
  from r show "framed r p clk"
    by (auto simp: framed_stop elim!: bind_SomeE split: if_splits intro: framed_step [OF IH rx_turn_more])
qed

lemma tx_loop_framed:
  fixes p :: "('c, 'z) Peer_scheme"
  assumes "tx_loop C t clk p = Some r"
  shows "framed r p clk"
proof (rule tx_loop.raw_induct [where P = "\<lambda>C t clk p r. framed r p clk", OF _ assms])
  fix f :: "(u8, 'c) comm \<Rightarrow> TimeOutChrono \<Rightarrow> int stream \<Rightarrow> ('c, 'z) Peer_scheme \<Rightarrow> (('c, 'z) Peer_scheme \<times> int stream) option"
    and C t clk p r
  assume IH: "\<And>C t clk p r. f C t clk p = Some r \<Longrightarrow> framed r p clk"
    and r: "(if tx_msg_buffer p = [] then Some (p, clk) else if expired_impl (shd clk) t then Some (p, stl clk)
          else do { p \<leftarrow> tx_turn C p; f C t (stl clk) p }) = Some r"
  from r show "framed r p clk"
    by (auto simp: framed_stop elim!: bind_SomeE split: if_splits intro: framed_step [OF IH tx_turn_more])
qed

lemma rx_phase_framed: "rx_phase C tout clk p = Some r \<Longrightarrow> framed r p clk"
  by (auto simp: rx_phase_def Let_def intro: framed_step rx_loop_framed)

lemma tx_phase_framed: "tx_phase C tout clk p = Some r \<Longrightarrow> framed r p clk"
proof -
  assume "tx_phase C tout clk p = Some r"
  then obtain q clk' s where "tx_loop C (start_impl (shd clk) (preset_impl tout (TimeOutChrono_new 0))) (stl clk) p = Some (q, clk')"
    "r = (q\<lparr>m_streamer := s\<rparr>, clk')" by (auto simp: tx_phase_def Let_def elim!: bind_SomeE)
  then have "framed r p (stl clk)" using tx_loop_framed [of C _ "stl clk" p "(q, clk')"] by (simp add: framed_def)
  then show ?thesis by (rule framed_step) simp
qed

lemma rx_phase_clock: "rx_phase C tout clk p = Some (p', clk') \<Longrightarrow> \<exists>k. clk' = sdrop k clk"
  using rx_phase_framed [of C tout clk p "(p', clk')"] by (simp add: framed_def)

lemma expects_bytes:
  "rx_expects inq p later ms \<Longrightarrow> length (in_stream inq (m_streamer p)) + length later \<le> length (concat (map wire ms))"
proof (cases "m_init_deserializer p")
  case True
  moreover assume "rx_expects inq p later ms"
  ultimately show ?thesis by (auto simp: rx_expects_def simp flip: length_append)
next
  case False
  moreover assume "rx_expects inq p later ms"
  ultimately obtain c where "c @ in_stream inq (m_streamer p) @ later = concat (map wire ms)" by (auto simp: rx_expects_def bd_expects_def)
  then have "length (c @ in_stream inq (m_streamer p) @ later) = length (concat (map wire ms))" by simp
  then show ?thesis unfolding length_append by simp
qed

text \<open>The bytes of a list of messages.\<close>

definition wire_size :: "BinMessage list \<Rightarrow> nat" where
  "wire_size ms = length (concat (map wire ms))"

lemma wire_size_append [simp]: "wire_size (xs @ ys) = wire_size xs + wire_size ys"
  by (simp add: wire_size_def)

text \<open>What the server can take now, and all it has still to take; the same for the client.\<close>

definition srv_in :: "Loopback \<Rightarrow> nat" where
  "srv_in st = length (in_stream (in_content \<circ> srv_sb) (m_streamer (lb_srv st)))"

definition srv_left :: "Loopback \<Rightarrow> nat" where
  "srv_left st = srv_in st + length (tx_bytes (m_streamer (lb_client st)) @ tx_todo (lb_client st))"

definition cln_in :: "Loopback \<Rightarrow> nat" where
  "cln_in st = length (in_stream (out_content \<circ> cln_sb) (m_streamer (lb_cln st)))"

definition cln_left :: "Loopback \<Rightarrow> nat" where
  "cln_left st = cln_in st + length (tx_bytes (m_streamer (lb_server st)) @ tx_todo (lb_server st))"

text \<open>They are at most the bytes of the messages on their way, and more than the bytes of all of these but the first.\<close>

lemma loop_inv_left:
  assumes "loop_inv sigs reps reqs st"
  shows "srv_left st \<le> wire_size (map request reqs)" and "cln_left st \<le> wire_size (map (reply sigs) reps)"
    and "reqs = c # cs \<Longrightarrow> wire_size (map request cs) < srv_left st" and "reps = c # cs \<Longrightarrow> wire_size (map (reply sigs) cs) < cln_left st"
proof -
  have e: "rx_expects (in_content \<circ> srv_sb) (lb_srv st) (tx_bytes (m_streamer (lb_client st)) @ tx_todo (lb_client st)) (map request reqs)"
    "rx_expects (out_content \<circ> cln_sb) (lb_cln st) (tx_bytes (m_streamer (lb_server st)) @ tx_todo (lb_server st)) (map (reply sigs) reps)"
    using assms by (simp_all add: loop_inv_def link_inv_def)
  from e [THEN expects_bytes] show "srv_left st \<le> wire_size (map request reqs)" "cln_left st \<le> wire_size (map (reply sigs) reps)"
    by (simp_all add: srv_left_def srv_in_def cln_left_def cln_in_def wire_size_def)
  have "rx_expects (in_content \<circ> srv_sb) (lb_srv st) (tx_bytes (m_streamer (lb_client st)) @ tx_todo (lb_client st)) (request c # map request cs)" if "reqs = c # cs"
    using e(1) that by simp
  from this [THEN rx_expects_strict] show "reqs = c # cs \<Longrightarrow> wire_size (map request cs) < srv_left st"
    by (simp add: srv_left_def srv_in_def wire_size_def)
  have "rx_expects (out_content \<circ> cln_sb) (lb_cln st) (tx_bytes (m_streamer (lb_server st)) @ tx_todo (lb_server st)) (reply sigs c # map (reply sigs) cs)" if "reps = c # cs"
    using e(2) that by simp
  from this [THEN rx_expects_strict] show "reps = c # cs \<Longrightarrow> wire_size (map (reply sigs) cs) < cln_left st"
    by (simp add: cln_left_def cln_in_def wire_size_def)
qed

lemma loop_inv_none:
  assumes "loop_inv sigs reps reqs st"
  shows "srv_left st = 0 \<Longrightarrow> reqs = []" and "cln_left st = 0 \<Longrightarrow> reps = []"
  using loop_inv_left(3,4) [OF assms] by (cases reqs, simp_all, cases reps, simp_all)

text \<open>They are the bytes in the receive buffer of the one, in the outgoing stream of the other and in its queue.\<close>

lemma left_streams:
  "srv_left st = length (rx_bytes (m_streamer (lb_server st))) + length (out_stream (in_content \<circ> cln_sb) (m_streamer (lb_cln st))) + length (tx_todo (lb_cln st))"
  "cln_left st = length (rx_bytes (m_streamer (lb_client st))) + length (out_stream (out_content \<circ> srv_sb) (m_streamer (lb_srv st))) + length (tx_todo (lb_srv st))"
  by (simp_all add: srv_left_def srv_in_def cln_left_def cln_in_def with_streams)

text \<open>Each loop can make 256 turns.\<close>

definition loop_timely :: "int stream \<Rightarrow> bool" where
  "loop_timely clk \<longleftrightarrow> timely 5 256 clk"

lemma MAX_BUFFER_le: "MAX_BUFFER_SIZE \<le> 1024"
  by (simp add: MAX_BUFFER_SIZE_def)

lemma loop_timely_sdrop: "loop_timely clk \<Longrightarrow> loop_timely (sdrop k clk)"
  by (simp add: loop_timely_def timely_sdrop)

lemma loop_timely_sleep_for: "loop_timely clk \<Longrightarrow> loop_timely (sleep_for ms clk)"
  by (simp add: loop_timely_def timely_def steady_def clock_runs_sleep_for)

lemma loop_timelyD:
  assumes "loop_timely clk"
  shows "clock_runs clk" and "n \<le> 256 \<Longrightarrow> steady SERVER_LOOP_TOUT_MS n clk" and "n \<le> 256 \<Longrightarrow> steady CLIENT_LOOP_TOUT_MS n clk"
  using assms timelyD [of 5 256 clk] by (auto simp: loop_timely_def SERVER_LOOP_TOUT_MS_def CLIENT_LOOP_TOUT_MS_def)

context allocator
begin

lemma server_turn_moves:
  assumes inv: "loop_inv sigs reps reqs st" and clk: "loop_timely clk"
  obtains st' k got rest where "server_turn malloc clk st = Some (st', sdrop k clk)" and "reqs = got @ rest"
    and "loop_inv sigs (reps @ got) rest st'" and "lb_client st' = lb_client st" and "srv_in st' \<le> srv_in st - 256"
    and "cln_left st' = cln_left st + wire_size (map (reply sigs) got)" and "all_sent (lb_server st') \<or> 256 \<le> cln_in st'"
proof -
  let ?later = "tx_bytes (m_streamer (lb_client st)) @ tx_todo (lb_client st)"
  have link: "link_inv st (map request reqs) (map (reply sigs) reps)" using inv by (simp add: loop_inv_def)
  then have l: "Streamer_inv ServerCom_inv (m_streamer (lb_srv st))" "rx_expects (in_content \<circ> srv_sb) (lb_srv st) ?later (map request reqs)"
    by (simp_all add: link_inv_def)
  obtain p k1 where p: "rx_phase ServerCom SERVER_LOOP_TOUT_MS clk (lb_srv st) = Some (p, sdrop k1 clk)"
    "srv_bytes.obtained (lb_srv st) p ?later (map request reqs)" "length (in_stream (in_content \<circ> srv_sb) (m_streamer p)) \<le> srv_in st - 256"
    by (rule srv_link.rx_phase_moves [OF l loop_timelyD(1) [OF clk] tout_pos(1) loop_timelyD(2) [OF clk order_refl], folded srv_in_def]) (rule that, assumption+)
  obtain got rest p' where g: "reqs = got @ rest" "serve_msgs malloc (rx_msg_buffer p) p = Some p'"
    "lb_srv (st\<lparr>lb_sb := lb_sb (set_srv p st), lb_server := p'\<rparr>) = p'" "loop_inv sigs (reps @ got) rest (st\<lparr>lb_sb := lb_sb (set_srv p st), lb_server := p'\<rparr>)"
    "m_streamer p' = m_streamer p" "tx_todo p' = tx_todo p @ concat (map wire (map (reply sigs) got))"
    using server_serves [OF inv p(2)] by metis
  let ?st = "st\<lparr>lb_sb := lb_sb (set_srv p st), lb_server := p'\<rparr>"
  have link': "link_inv ?st (map request rest) (map (reply sigs) (reps @ got))" using g(4) by (simp add: loop_inv_def)
  then have l': "Streamer_inv ServerCom_inv (m_streamer p')" "tx_state_ok p'" "Comm_is_open ServerCom (m_com (m_streamer p'))" "0 < m_packet_size (m_streamer p')"
    unfolding link_inv_def g(3) by auto
  have st2: "steady SERVER_LOOP_TOUT_MS MAX_BUFFER_SIZE (sdrop k1 clk)"
    using loop_timelyD(2) [OF loop_timely_sdrop [OF clk]] by (simp add: MAX_BUFFER_SIZE_def)
  obtain p2 k2 where p2: "tx_phase ServerCom SERVER_LOOP_TOUT_MS (sdrop k1 clk) p' = Some (p2, sdrop k2 (sdrop k1 clk))" "srv_bytes.transmitted p' p2"
    "all_sent p2 \<or> MAX_BUFFER_SIZE \<le> length ((out_content \<circ> srv_sb) (m_com (m_streamer p2)))"
    by (rule srv_link.tx_phase_fills [OF l'(1,2) loop_timelyD(1) [OF loop_timely_sdrop [OF clk]] tout_pos(1) st2 MAX_BUFFER_le l'(3,4)])
      (rule that, assumption+)
  have t: "link_inv (set_srv p2 ?st) (map request rest) (map (reply sigs) (reps @ got))" "rx_msg_buffer p2 = rx_msg_buffer p'" "Peer.more p2 = Peer.more p'"
    using link_inv_transmitted_srv [OF link'] p2(2) g(3) by auto
  let ?st' = "set_srv p2 ?st"
  have w: "lb_srv ?st' = p2" by simp
  have "server_turn malloc clk st = Some (?st', sdrop (k1 + k2) clk)"
    using p(1) g(2) p2(1) by (simp add: server_turn_def RpcServer_doLoop_def set_srv_def sdrop_add)
  moreover have "loop_inv sigs (reps @ got) rest ?st'"
    using g(4) t srv_more [OF t(3)] by (simp add: loop_inv_def server_has_cong [of p2 p'])
  moreover have "srv_in ?st' \<le> srv_in st - 256"
    using p(3) p2(2) g(5) unfolding srv_in_def [of ?st'] w by (simp add: srv_bytes.transmitted_def same_rx_def)
  moreover have "cln_left ?st' = cln_left st + wire_size (map (reply sigs) got)"
  proof -
    have x: "same_tx (out_content \<circ> srv_sb) (lb_srv st) p" using p(2) by (simp add: srv_bytes.obtained_def)
    have "length (out_stream (out_content \<circ> srv_sb) (m_streamer p2)) + length (tx_todo p2) =
        length (out_stream (out_content \<circ> srv_sb) (m_streamer (lb_srv st))) + length (tx_todo (lb_srv st)) + wire_size (map (reply sigs) got)"
      using srv_bytes.transmitted_total [OF p2(2)] same_tx_todo [OF x] x unfolding g(5,6) by (simp add: wire_size_def same_tx_def)
    then show ?thesis unfolding left_streams(2) w by simp
  qed
  moreover have "all_sent p2 \<or> 256 \<le> cln_in ?st'"
    using p2(3) unfolding cln_in_def by (auto simp: with_streams MAX_BUFFER_SIZE_def)
  ultimately show thesis using g(1) by (intro that [of ?st' "k1 + k2" got rest]) simp_all
qed

end

lemma client_turn_moves:
  assumes inv: "loop_inv sigs reps reqs st" and clk: "loop_timely clk"
  obtains st' k got rest rvs where "client_turn clk st = Some (st', sdrop k clk)" and "reps = got @ rest" and "loop_inv sigs rest reqs st'"
    and "list_all2 (answered sigs) got rvs" and "cln_mem (lb_client st') = fold (store sigs) got (cln_mem (lb_client st))"
    and "cln_calls (lb_client st') = cln_calls (lb_client st) @ concat (map2 c_calls got rvs)"
    and "lb_server st' = lb_server st" and "cln_in st' \<le> cln_in st - 256" and "srv_left st' = srv_left st"
    and "all_sent (lb_client st') \<or> 256 \<le> srv_in st'"
proof -
  have link: "link_inv st (map request reqs) (map (reply sigs) reps)" using inv by (simp add: loop_inv_def)
  then have l: "Streamer_inv ClientCom_inv (m_streamer (lb_cln st))" "tx_state_ok (lb_cln st)"
    "Comm_is_open ClientCom (m_com (m_streamer (lb_cln st)))" "0 < m_packet_size (m_streamer (lb_cln st))" by (simp_all add: link_inv_def)
  have st1: "steady CLIENT_LOOP_TOUT_MS MAX_BUFFER_SIZE clk" using loop_timelyD(3) [OF clk] by (simp add: MAX_BUFFER_SIZE_def)
  obtain p k1 where p: "tx_phase ClientCom CLIENT_LOOP_TOUT_MS clk (lb_cln st) = Some (p, sdrop k1 clk)" "cln_bytes.transmitted (lb_cln st) p"
    "all_sent p \<or> MAX_BUFFER_SIZE \<le> length ((in_content \<circ> cln_sb) (m_com (m_streamer p)))"
    by (rule cln_link.tx_phase_fills [OF l(1,2) loop_timelyD(1) [OF clk] tout_pos(2) st1 MAX_BUFFER_le l(3,4)]) (rule that, assumption+)
  have t: "link_inv (set_cln p st) (map request reqs) (map (reply sigs) reps)" "rx_msg_buffer p = rx_msg_buffer (lb_client st)" "Peer.more p = Peer.more (lb_cln st)"
    using link_inv_transmitted_cln [OF link p(2)] by auto
  have m: "cln_registry p = cln_registry (lb_client st)" "cln_mem p = cln_mem (lb_client st)" "cln_calls p = cln_calls (lb_client st)"
    using cln_more [OF t(3)] by simp_all
  have inv1: "loop_inv sigs reps reqs (set_cln p st)" using inv t client_has_cong [OF m(1,2)] by (simp add: loop_inv_def)
  let ?later = "tx_bytes (m_streamer (lb_server st)) @ tx_todo (lb_server st)"
  have l2: "Streamer_inv ClientCom_inv (m_streamer p)" "rx_expects (out_content \<circ> cln_sb) p ?later (map (reply sigs) reps)"
    using t(1) by (simp_all add: link_inv_def)
  have clk1: "loop_timely (sdrop k1 clk)" using clk by (rule loop_timely_sdrop)
  obtain p2 k2 where p2: "rx_phase ClientCom CLIENT_LOOP_TOUT_MS (sdrop k1 clk) p = Some (p2, sdrop k2 (sdrop k1 clk))"
    "cln_bytes.obtained p p2 ?later (map (reply sigs) reps)"
    "length (in_stream (out_content \<circ> cln_sb) (m_streamer p2)) \<le> length (in_stream (out_content \<circ> cln_sb) (m_streamer p)) - 256"
    by (rule cln_link.rx_phase_moves [OF l2 loop_timelyD(1) [OF clk1] tout_pos(2) loop_timelyD(3) [OF clk1 order_refl]]) (rule that, assumption+)
  have o: "cln_bytes.obtained (lb_cln (set_cln p st)) p2 (tx_bytes (m_streamer (lb_server (set_cln p st))) @ tx_todo (lb_server (set_cln p st))) (map (reply sigs) reps)"
    using p2(2) by simp
  obtain got rest p' rvs where g: "reps = got @ rest" "rx_msg_buffer p2 = map (reply sigs) got" "deliver_msgs (rx_msg_buffer p2) p2 = Some p'" "m_streamer p' = m_streamer p2" "tx_todo p' = tx_todo p2"
    "loop_inv sigs rest reqs (set_cln p' (set_cln p st))" "list_all2 (answered sigs) got rvs"
    "cln_mem p' = fold (store sigs) got (cln_mem p)" "cln_calls p' = cln_calls p @ concat (map2 c_calls got rvs)"
    by (rule client_delivers [OF inv1 o, unfolded set_simps]) (rule that, assumption+)
  have s: "set_cln p' (set_cln p st) = set_cln p' st" by (simp add: set_cln_def)
  have w: "lb_cln (set_cln p' st) = p'" by simp
  have x: "same_tx (in_content \<circ> cln_sb) p p2" using p2(2) by (simp add: cln_bytes.obtained_def)
  then have y: "tx_todo p' = tx_todo p" "tx_bytes (m_streamer p') = tx_bytes (m_streamer p)"
    "out_stream (in_content \<circ> cln_sb) (m_streamer p') = out_stream (in_content \<circ> cln_sb) (m_streamer p)"
    using same_tx_todo [OF x] g(4,5) by (simp_all add: same_tx_def)
  have "client_turn clk st = Some (set_cln p' st, sdrop (k1 + k2) clk)"
    using p(1) p2(1) g(3) by (simp add: client_turn_def RpcClient_doLoop_def set_cln_def sdrop_add)
  moreover have "cln_in (set_cln p' st) \<le> cln_in st - 256"
    using p2(3) p(2) g(4) unfolding cln_in_def w by (simp add: cln_bytes.transmitted_def same_rx_def)
  moreover have "srv_left (set_cln p' st) = srv_left st"
    using cln_bytes.transmitted_total [OF p(2)] y(1,3) unfolding left_streams(1) w by simp
  moreover have "in_content (cln_sb (m_com (m_streamer p'))) = in_content (cln_sb (m_com (m_streamer p)))"
    using y(2,3) by (simp add: out_stream_def)
  then have "all_sent p' \<or> 256 \<le> srv_in (set_cln p' st)"
    using p(3) y(1,2) unfolding srv_in_def all_sent_def by (auto simp: with_streams MAX_BUFFER_SIZE_def)
  ultimately show thesis using g m unfolding s by (intro that [of "set_cln p' st" "k1 + k2" got rest rvs]) simp_all
qed

text \<open>The loops never remove a function: a pointer to a registered element stays one.\<close>

definition keeps_nodes :: "'a FunctionsRegistry \<Rightarrow> 'a FunctionsRegistry \<Rightarrow> bool" where
  "keeps_nodes r r' \<longleftrightarrow> (\<forall>name q. functions_map r name = Some (Some q) \<longrightarrow> functions_map r' name = Some (Some q))"

lemma keeps_nodes_refl [simp]: "keeps_nodes r r"
  by (simp add: keeps_nodes_def)

lemma keeps_nodes_trans: "keeps_nodes r s \<Longrightarrow> keeps_nodes s t \<Longrightarrow> keeps_nodes r t"
  by (simp add: keeps_nodes_def)

lemma get_keeps_nodes: "Registry_get name r = (q, r') \<Longrightarrow> keeps_nodes r r'"
  by (auto simp: Registry_get_def keeps_nodes_def split: option.splits)

lemma assign_keeps_nodes: "assign r q x = Some r' \<Longrightarrow> keeps_nodes r r'"
  by (auto simp: assign_def keeps_nodes_def elim!: bind_SomeE)

lemma serve_msg_keeps: "serve_msg malloc m p = Some p' \<Longrightarrow> keeps_nodes (srv_registry p) (srv_registry p')"
  by (auto simp: serve_msg_def Let_def split: prod.splits if_splits elim!: bind_SomeE
      dest!: assign_keeps_nodes get_keeps_nodes intro: keeps_nodes_trans)

lemma serve_msgs_keeps: "serve_msgs malloc ms p = Some p' \<Longrightarrow> keeps_nodes (srv_registry p) (srv_registry p')"
proof (induction ms arbitrary: p)
  case (Cons m ms)
  then obtain q where "serve_msg malloc m p = Some q" "serve_msgs malloc ms (q\<lparr>rx_msg_buffer := ms\<rparr>) = Some p'" by (auto elim!: bind_SomeE)
  with Cons.IH [of "q\<lparr>rx_msg_buffer := ms\<rparr>"] serve_msg_keeps [of malloc m p q] show ?case by (auto intro: keeps_nodes_trans)
qed simp

lemma deliver_msg_keeps: "deliver_msg m p = Some p' \<Longrightarrow> keeps_nodes (cln_registry p) (cln_registry p')"
  by (auto simp: deliver_msg_def Let_def split: prod.splits elim!: bind_SomeE
      dest!: assign_keeps_nodes get_keeps_nodes intro: keeps_nodes_trans)

lemma deliver_msgs_keeps: "deliver_msgs ms p = Some p' \<Longrightarrow> keeps_nodes (cln_registry p) (cln_registry p')"
proof (induction ms arbitrary: p)
  case (Cons m ms)
  then obtain q where "deliver_msg m p = Some q" "deliver_msgs ms (q\<lparr>rx_msg_buffer := ms\<rparr>) = Some p'" by (auto elim!: bind_SomeE)
  with Cons.IH [of "q\<lparr>rx_msg_buffer := ms\<rparr>"] deliver_msg_keeps [of m p q] show ?case by (auto intro: keeps_nodes_trans)
qed simp

lemma server_turn_framed:
  assumes "server_turn malloc clk st = Some (st', clk')"
  shows "\<exists>k. clk' = sdrop k clk" and "keeps_nodes (srv_registry (lb_server st)) (srv_registry (lb_server st'))"
proof -
  obtain p clk1 q p' where p: "rx_phase ServerCom SERVER_LOOP_TOUT_MS clk (lb_srv st) = Some (p, clk1)"
    "serve_msgs malloc (rx_msg_buffer p) p = Some q" "tx_phase ServerCom SERVER_LOOP_TOUT_MS clk1 q = Some (p', clk')" "lb_server st' = p'"
    using assms by (auto simp: server_turn_def RpcServer_doLoop_def elim!: bind_SomeE)
  note f = rx_phase_framed [OF p(1)] tx_phase_framed [OF p(3)]
  then show "\<exists>k. clk' = sdrop k clk" by (auto simp: framed_def sdrop_add)
  have "srv_registry p = srv_registry (lb_server st)" "srv_registry p' = srv_registry q"
    using f srv_more [of p "lb_srv st"] srv_more [of p' q] by (simp_all add: framed_def)
  then show "keeps_nodes (srv_registry (lb_server st)) (srv_registry (lb_server st'))" using serve_msgs_keeps [OF p(2)] p(4) by simp
qed

lemma client_turn_framed:
  assumes "client_turn clk st = Some (st', clk')"
  shows "\<exists>k. clk' = sdrop k clk" and "keeps_nodes (cln_registry (lb_client st)) (cln_registry (lb_client st'))"
proof -
  obtain p clk1 q where p: "tx_phase ClientCom CLIENT_LOOP_TOUT_MS clk (lb_cln st) = Some (p, clk1)"
    "rx_phase ClientCom CLIENT_LOOP_TOUT_MS clk1 p = Some (q, clk')" "deliver_msgs (rx_msg_buffer q) q = Some (lb_client st')"
    using assms by (auto simp: client_turn_def RpcClient_doLoop_def elim!: bind_SomeE)
  note f = tx_phase_framed [OF p(1)] rx_phase_framed [OF p(2)]
  then show "\<exists>k. clk' = sdrop k clk" by (auto simp: framed_def sdrop_add)
  have "cln_registry q = cln_registry (lb_client st)"
    using f cln_more [of p "lb_cln st"] cln_more [of q p] by (simp add: framed_def)
  then show "keeps_nodes (cln_registry (lb_client st)) (cln_registry (lb_client st'))" using deliver_msgs_keeps [OF p(3)] by simp
qed

text \<open>
  \<open>completed sigs cs st st'\<close>: between the two states exactly the calls \<open>cs\<close> were completed, in this order.
\<close>

definition completed :: "signatures \<Rightarrow> call list \<Rightarrow> Loopback \<Rightarrow> Loopback \<Rightarrow> bool" where
  "completed sigs cs st st' \<longleftrightarrow>
     cln_mem (lb_client st') = fold (store sigs) cs (cln_mem (lb_client st)) \<and>
     (\<exists>rvs. list_all2 (answered sigs) cs rvs \<and> cln_calls (lb_client st') = cln_calls (lb_client st) @ concat (map2 c_calls cs rvs))"

lemma completed_Nil: "completed sigs [] st st' \<longleftrightarrow> cln_mem (lb_client st') = cln_mem (lb_client st) \<and> cln_calls (lb_client st') = cln_calls (lb_client st)"
  by (simp add: completed_def)

lemma completed_same: "lb_client st' = lb_client st \<Longrightarrow> completed sigs [] st st'"
  by (simp add: completed_Nil)

lemma completed_trans:
  assumes "completed sigs xs r s" and "completed sigs ys s t"
  shows "completed sigs (xs @ ys) r t"
proof -
  obtain rv1 rv2 where rv: "list_all2 (answered sigs) xs rv1" "cln_calls (lb_client s) = cln_calls (lb_client r) @ concat (map2 c_calls xs rv1)"
    "list_all2 (answered sigs) ys rv2" "cln_calls (lb_client t) = cln_calls (lb_client s) @ concat (map2 c_calls ys rv2)"
    using assms by (auto simp: completed_def)
  then have "list_all2 (answered sigs) (xs @ ys) (rv1 @ rv2)" "length xs = length rv1" by (auto intro: list_all2_appendI dest: list_all2_lengthD)
  with rv assms show ?thesis unfolding completed_def by (intro conjI exI [of _ "rv1 @ rv2"]) auto
qed

text \<open>
  A turn of \<^verbatim>\<open>main\<close> moves 256 bytes to the server, or all that was sent before, and 256 bytes to the client, or all there are.
\<close>

lemma all_sent_left: "all_sent (lb_client st) \<longleftrightarrow> srv_left st = srv_in st" "all_sent (lb_server st) \<longleftrightarrow> cln_left st = cln_in st"
  by (simp_all add: all_sent_def srv_left_def cln_left_def flip: length_0_conv)

lemma in_left: "srv_in st \<le> srv_left st" "cln_in st \<le> cln_left st"
  by (simp_all add: srv_left_def cln_left_def)

context allocator
begin

lemma main_turn_moves:
  assumes inv: "loop_inv sigs reps reqs st" and clk: "loop_timely clk"
  obtains st' k dn reps' reqs' got where "main_turn malloc clk st = Some (st', sleep_for 5 (sdrop k clk))" and "reqs = got @ reqs'"
    and "reps @ got = dn @ reps'" and "loop_inv sigs reps' reqs' st'" and "completed sigs dn st st'"
    and "srv_left st' + min 256 (srv_in st) \<le> srv_left st" and "cln_left st' \<le> cln_left st + wire_size (map (reply sigs) got) - 256"
    and "srv_left st' = srv_in st' \<or> 256 \<le> srv_in st'"
proof -
  obtain a j1 got rest where a: "server_turn malloc clk st = Some (a, sdrop j1 clk)" "reqs = got @ rest" "loop_inv sigs (reps @ got) rest a" "lb_client a = lb_client st"
    "srv_in a \<le> srv_in st - 256" "cln_left a = cln_left st + wire_size (map (reply sigs) got)" "all_sent (lb_server a) \<or> 256 \<le> cln_in a"
    using server_turn_moves [OF assms] .
  obtain b j2 g r rvs where b: "client_turn (sdrop j1 clk) a = Some (b, sdrop j2 (sdrop j1 clk))" "reps @ got = g @ r" "loop_inv sigs r rest b"
    "list_all2 (answered sigs) g rvs" "cln_mem (lb_client b) = fold (store sigs) g (cln_mem (lb_client a))"
    "cln_calls (lb_client b) = cln_calls (lb_client a) @ concat (map2 c_calls g rvs)"
    "lb_server b = lb_server a" "cln_in b \<le> cln_in a - 256" "srv_left b = srv_left a" "all_sent (lb_client b) \<or> 256 \<le> srv_in b"
    using client_turn_moves [OF a(3) loop_timely_sdrop [OF clk]] .
  have "main_turn malloc clk st = Some (b, sleep_for 5 (sdrop (j1 + j2) clk))" using a(1) b(1) by (simp add: main_turn_def sdrop_add)
  moreover have "completed sigs g st b" using a(4) b(4-6) by (auto simp: completed_def)
  moreover have "srv_left b + min 256 (srv_in st) \<le> srv_left st" using a(5) b(9) by (simp add: srv_left_def [of st] srv_left_def [of a] a(4))
  moreover have "cln_left b \<le> cln_left a - 256" using a(7) b(8) by (auto simp: all_sent_def cln_left_def b(7) simp del: length_tx_bytes)
  ultimately show thesis using a(2,6) b(2,3,10) by (intro that [of b "j1 + j2" got rest g r]) (simp_all add: all_sent_left)
qed

text \<open>
  When the messages fit the shared buffer, the first of two turns sends what the client has to send, and the next one completes
  every call on its way.
\<close>

lemma main_turn_sends:
  assumes inv: "loop_inv sigs reps reqs st" and clk: "loop_timely clk"
    and small: "wire_size (map request reqs) \<le> 256" "wire_size (map (reply sigs) (reps @ reqs)) \<le> 256"
  obtains st' k dn reps' reqs' where "main_turn malloc clk st = Some (st', sleep_for 5 (sdrop k clk))" and "reps @ reqs = dn @ reps' @ reqs'"
    and "loop_inv sigs reps' reqs' st'" and "completed sigs dn st st'" and "all_sent (lb_client st')"
    and "wire_size (map request reqs') \<le> 256" and "wire_size (map (reply sigs) (reps' @ reqs')) \<le> 256"
proof -
  obtain b k dn reps' reqs' got where b: "main_turn malloc clk st = Some (b, sleep_for 5 (sdrop k clk))" "reqs = got @ reqs'" "reps @ got = dn @ reps'"
    "loop_inv sigs reps' reqs' b" "completed sigs dn st b" "srv_left b = srv_in b \<or> 256 \<le> srv_in b"
    using main_turn_moves [OF inv clk] by metis
  have e: "reps @ reqs = dn @ reps' @ reqs'" using b(2,3) by simp
  have sz: "wire_size (map request reqs') \<le> 256" "wire_size (map (reply sigs) (reps' @ reqs')) \<le> 256"
    using small b(2) unfolding e by simp_all
  have "srv_left b = srv_in b" using b(6) loop_inv_left(1) [OF b(4)] sz(1) in_left(1) [of b] by linarith
  with b(1,4,5) e sz show thesis by (intro that [of b k dn reps' reqs']) (simp_all add: all_sent_left)
qed

lemma main_turn_finishes:
  assumes inv: "loop_inv sigs reps reqs st" and sent: "all_sent (lb_client st)" and clk: "loop_timely clk"
    and small: "wire_size (map request reqs) \<le> 256" "wire_size (map (reply sigs) (reps @ reqs)) \<le> 256"
  obtains st' k where "main_turn malloc clk st = Some (st', sleep_for 5 (sdrop k clk))" and "loop_inv sigs [] [] st'"
    and "completed sigs (reps @ reqs) st st'"
proof -
  obtain b k dn reps' reqs' got where b: "main_turn malloc clk st = Some (b, sleep_for 5 (sdrop k clk))" "reqs = got @ reqs'" "reps @ got = dn @ reps'"
    "loop_inv sigs reps' reqs' b" "completed sigs dn st b" "srv_left b + min 256 (srv_in st) \<le> srv_left st"
    "cln_left b \<le> cln_left st + wire_size (map (reply sigs) got) - 256"
    by (rule main_turn_moves [OF inv clk]) (rule that, assumption+)
  have "srv_left b = 0" using b(6) sent loop_inv_left(1) [OF inv] small(1) by (simp add: all_sent_left)
  then have reqs: "reqs' = []" "got = reqs" using loop_inv_none(1) [OF b(4)] b(2) by simp_all
  have "cln_left b = 0" using b(7) loop_inv_left(2) [OF inv] small(2) reqs by simp
  then have "reps' = []" using loop_inv_none(2) [OF b(4)] by simp
  with b(1,3-5) reqs show thesis by (intro that [of b k]) simp_all
qed

end

section \<open>Turns for messages of any size\<close>

text \<open>The turns that move so many bytes.\<close>

definition turns_for :: "nat \<Rightarrow> nat" where
  "turns_for n = (n + 255) div 256"

lemma turns_for_mono: "m \<le> n \<Longrightarrow> turns_for m \<le> turns_for n"
  by (simp add: turns_for_def div_le_mono)

lemma turns_for_pos [simp]: "0 < turns_for n \<longleftrightarrow> 0 < n"
  by (auto simp: turns_for_def div_greater_zero_iff)

lemma turns_for_minus: "turns_for (n - 256) = turns_for n - 1"
proof (cases "256 \<le> n")
  case True
  then have "n + 255 = n - 256 + 255 + 256" by simp
  then show ?thesis by (simp add: turns_for_def)
next
  case False
  then have "(n + 255) div 256 \<le> 1" by simp
  with False show ?thesis by (simp add: turns_for_def)
qed

lemma turns_for_less: "0 < n \<Longrightarrow> turns_for (n - 256) < turns_for n"
  by (simp add: turns_for_minus)

text \<open>
  The turns until the first calls \<open>os\<close> of those on their way are completed: first their requests go to the server, then their replies to
  the client.
\<close>

definition turns_left :: "signatures \<Rightarrow> call list \<Rightarrow> call list \<Rightarrow> call list \<Rightarrow> Loopback \<Rightarrow> nat" where
  "turns_left sigs os reps reqs st =
     (if length os \<le> length reps then turns_for (cln_left st - wire_size (map (reply sigs) (drop (length os) reps)))
      else turns_for (srv_left st - wire_size (map request (drop (length os - length reps) reqs))) + turns_for (wire_size (map (reply sigs) os)) - 1)"

lemma turns_left_reply: "turns_left sigs os (os @ xs) reqs st = turns_for (cln_left st - wire_size (map (reply sigs) xs))"
  by (simp add: turns_left_def)

lemma turns_left_request:
  "os \<noteq> [] \<Longrightarrow> turns_left sigs (reps @ os) reps (os @ nw) st =
     turns_for (srv_left st - wire_size (map request nw)) + turns_for (wire_size (map (reply sigs) (reps @ os))) - 1"
  by (simp add: turns_left_def)

lemma wire_size_Nil [simp]: "wire_size [] = 0"
  by (simp add: wire_size_def)

lemma wire_size_pos [simp]: "0 < wire_size ms \<longleftrightarrow> ms \<noteq> []"
  by (cases ms) (auto simp: wire_size_def)

text \<open>Before a turn of \<^verbatim>\<open>main\<close> the client has sent all but the requests of \<open>nw\<close>, or filled the shared buffer.\<close>

definition pushed :: "call list \<Rightarrow> Loopback \<Rightarrow> bool" where
  "pushed nw st \<longleftrightarrow> 256 \<le> srv_in st \<or> srv_left st \<le> srv_in st + wire_size (map request nw)"

lemma pushed_append: "pushed nw st \<Longrightarrow> pushed (xs @ nw) st"
  by (auto simp: pushed_def)

lemma pushed_moves:
  assumes "pushed nw st" and "srv_left st' + min 256 (srv_in st) \<le> srv_left st"
  shows "srv_left st' - wire_size (map request nw) \<le> srv_left st - wire_size (map request nw) - 256"
  using assms unfolding pushed_def min_def by (auto split: if_splits)

text \<open>A turn brings every call that is on its way one turn nearer to its end.\<close>

definition nearer :: "signatures \<Rightarrow> call list \<Rightarrow> call list \<Rightarrow> call list \<Rightarrow> Loopback \<Rightarrow> call list \<Rightarrow> call list \<Rightarrow> call list \<Rightarrow> Loopback \<Rightarrow> bool" where
  "nearer sigs os reps reqs st dn reps' reqs' st' \<longleftrightarrow> length os \<le> length dn \<or>
     (\<exists>os'. os = dn @ os' \<and> turns_left sigs os' reps' reqs' st' < turns_left sigs os reps reqs st)"

lemma append_shorter: "xs @ ys = as @ bs \<Longrightarrow> \<not> length xs \<le> length as \<Longrightarrow> \<exists>cs. xs = as @ cs \<and> bs = cs @ ys"
  by (auto simp: append_eq_append_conv2)

lemma nearer_reply:
  assumes "loop_inv sigs (os @ xs) reqs st" and "os @ xs @ got = dn @ reps'"
    and "cln_left st' \<le> cln_left st + wire_size (map (reply sigs) got) - 256"
  shows "nearer sigs os (os @ xs) reqs st dn reps' reqs' st'"
proof (cases "length os \<le> length dn")
  case False
  then obtain os' where o: "os = dn @ os'" "reps' = os' @ xs @ got" using assms(2) by (auto simp: append_eq_append_conv2)
  have "turns_left sigs os' reps' reqs' st' = turns_for (cln_left st' - wire_size (map (reply sigs) (xs @ got)))"
    unfolding o(2) by (rule turns_left_reply)
  also have "\<dots> \<le> turns_for (cln_left st - wire_size (map (reply sigs) xs) - 256)"
    using assms(3) by (intro turns_for_mono) simp
  also have "\<dots> < turns_left sigs os (os @ xs) reqs st"
  proof -
    obtain c cs where "os = c # cs" using False by (cases os) auto
    then have "0 < cln_left st - wire_size (map (reply sigs) xs)" using loop_inv_left(4) [OF assms(1), of c "cs @ xs"] by simp
    then show ?thesis unfolding turns_left_reply by (rule turns_for_less)
  qed
  finally show ?thesis using o(1) by (auto simp: nearer_def)
qed (simp add: nearer_def)

lemma nearer_request:
  assumes inv: "loop_inv sigs reps (os @ nw) st" "loop_inv sigs reps' reqs' st'" and os: "os \<noteq> []"
    and split: "os @ nw = got @ reqs'" "reps @ got = dn @ reps'"
    and srv: "srv_left st' - wire_size (map request nw) \<le> srv_left st - wire_size (map request nw) - 256"
    and cln: "cln_left st' \<le> cln_left st + wire_size (map (reply sigs) got) - 256"
  shows "nearer sigs (reps @ os) reps (os @ nw) st dn reps' reqs' st'"
proof (cases "length os \<le> length got")
  case True
  then obtain xs where xs: "got = os @ xs" "nw = xs @ reqs'" using split(1) by (auto simp: append_eq_append_conv2)
  show ?thesis
  proof (cases "length (reps @ os) \<le> length dn")
    case False
    moreover have "(reps @ os) @ xs = dn @ reps'" using split(2) xs(1) by simp
    ultimately obtain os' where o: "reps @ os = dn @ os'" "reps' = os' @ xs" using append_shorter by blast
    have "turns_left sigs os' reps' reqs' st' = turns_for (cln_left st' - wire_size (map (reply sigs) xs))" unfolding o(2) by (rule turns_left_reply)
    also have "\<dots> \<le> turns_for (wire_size (map (reply sigs) (reps @ os)) - 256)"
      using cln loop_inv_left(2) [OF inv(1)] xs(1) by (intro turns_for_mono) simp
    also have "\<dots> < turns_left sigs (reps @ os) reps (os @ nw) st"
    proof -
      have "0 < turns_for (srv_left st - wire_size (map request nw))" "0 < turns_for (wire_size (map (reply sigs) (reps @ os)))"
        using os loop_inv_left(3) [OF inv(1)] by (cases os; simp)+
      then show ?thesis unfolding turns_left_request [OF os] turns_for_minus by linarith
    qed
    finally show ?thesis using o(1) by (auto simp: nearer_def)
  qed (simp add: nearer_def)
next
  case False
  then obtain o2 where o2: "os = got @ o2" "reqs' = o2 @ nw" "o2 \<noteq> []" using split(1) by (auto simp: append_eq_append_conv2)
  have "turns_left sigs (reps' @ o2) reps' reqs' st' =
      turns_for (srv_left st' - wire_size (map request nw)) + turns_for (wire_size (map (reply sigs) (reps' @ o2))) - 1"
    unfolding o2(2) using o2(3) by (rule turns_left_request)
  moreover have "turns_for (srv_left st' - wire_size (map request nw)) < turns_for (srv_left st - wire_size (map request nw))"
    using srv os loop_inv_left(3) [OF inv(1)] by (cases os) (auto intro: le_less_trans [OF turns_for_mono turns_for_less])
  moreover have "turns_for (wire_size (map (reply sigs) (reps' @ o2))) \<le> turns_for (wire_size (map (reply sigs) (reps @ os)))"
  proof (rule turns_for_mono)
    have "reps @ os = dn @ reps' @ o2" using split(2) o2(1) by simp
    then show "wire_size (map (reply sigs) (reps' @ o2)) \<le> wire_size (map (reply sigs) (reps @ os))" by simp
  qed
  moreover have "0 < turns_for (wire_size (map (reply sigs) (reps' @ o2)))" using o2(3) by simp
  ultimately have "turns_left sigs (reps' @ o2) reps' reqs' st' < turns_left sigs (reps @ os) reps (os @ nw) st"
    unfolding turns_left_request [OF os] by linarith
  moreover have "reps @ os = dn @ reps' @ o2" using split(2) o2(1) by simp
  ultimately show ?thesis by (auto simp: nearer_def)
qed

context allocator
begin

lemma main_turn_nearer:
  assumes inv: "loop_inv sigs reps reqs st" and clk: "loop_timely clk" and e: "reps @ reqs = os @ nw"
  obtains st' k dn reps' reqs' where "main_turn malloc clk st = Some (st', sleep_for 5 (sdrop k clk))" and "reps @ reqs = dn @ reps' @ reqs'"
    and "loop_inv sigs reps' reqs' st'" and "completed sigs dn st st'" and "pushed [] st'" and "pushed nw st \<Longrightarrow> nearer sigs os reps reqs st dn reps' reqs' st'"
proof -
  obtain b k dn reps' reqs' got where b: "main_turn malloc clk st = Some (b, sleep_for 5 (sdrop k clk))" "reqs = got @ reqs'" "reps @ got = dn @ reps'"
    "loop_inv sigs reps' reqs' b" "completed sigs dn st b" "srv_left b + min 256 (srv_in st) \<le> srv_left st"
    "cln_left b \<le> cln_left st + wire_size (map (reply sigs) got) - 256" "srv_left b = srv_in b \<or> 256 \<le> srv_in b"
    by (rule main_turn_moves [OF inv clk]) (rule that, assumption+)
  have "nearer sigs os reps reqs st dn reps' reqs' b" if p: "pushed nw st"
  proof (cases "length os \<le> length reps")
    case True
    then obtain xs where xs: "reps = os @ xs" using e by (auto simp: append_eq_append_conv2)
    show ?thesis using nearer_reply [of sigs os xs reqs st got dn reps' b] inv b(3,7) unfolding xs by simp
  next
    case False
    then obtain o2 where o2: "os = reps @ o2" "reqs = o2 @ nw" "o2 \<noteq> []" using e by (auto simp: append_eq_append_conv2)
    show ?thesis unfolding o2(1,2)
      by (rule nearer_request [OF inv [unfolded o2(2)] b(4) o2(3) b(2) [unfolded o2(2)] b(3) pushed_moves [OF p b(6)] b(7)])
  qed
  moreover have "pushed [] b" using b(8) by (auto simp: pushed_def)
  ultimately show thesis using b(1-5) by (intro that [of b k dn reps' reqs']) simp_all
qed

end

text \<open>So many turns of \<^verbatim>\<open>main\<close>, one after the other.\<close>

primrec main_turns :: "(mem \<Rightarrow> addr) \<Rightarrow> nat \<Rightarrow> int stream \<Rightarrow> Loopback \<Rightarrow> (Loopback \<times> int stream) option" where
  "main_turns malloc 0 clk st = Some (st, clk)"
| "main_turns malloc (Suc n) clk st = do { (st, clk) \<leftarrow> main_turn malloc clk st; main_turns malloc n clk st }"

lemma turns_left_all:
  "reqs \<noteq> [] \<Longrightarrow> turns_left sigs (reps @ reqs) reps reqs st = turns_for (srv_left st) + turns_for (wire_size (map (reply sigs) (reps @ reqs))) - 1"
  using turns_left_request [of reqs sigs reps "[]" st] by simp

lemma turns_left_bound:
  assumes "loop_inv sigs reps reqs st" and "reqs \<noteq> []"
  shows "turns_left sigs (reps @ reqs) reps reqs st < turns_for (wire_size (map request reqs)) + turns_for (wire_size (map (reply sigs) (reps @ reqs)))"
proof -
  have "turns_for (srv_left st) \<le> turns_for (wire_size (map request reqs))" using loop_inv_left(1) [OF assms(1)] by (rule turns_for_mono)
  moreover have "0 < turns_for (wire_size (map (reply sigs) (reps @ reqs)))" using assms(2) by simp
  ultimately show ?thesis unfolding turns_left_all [OF assms(2)] by linarith
qed

lemma turns_left_bound_reply: "loop_inv sigs reps [] st \<Longrightarrow> turns_left sigs reps reps [] st \<le> turns_for (wire_size (map (reply sigs) reps))"
  using loop_inv_left(2) [of sigs reps "[]" st] turns_left_reply [of sigs reps "[]" "[]" st] by (simp add: turns_for_mono wire_size_def)

lemma turns_left_pos:
  assumes inv: "loop_inv sigs reps reqs st" and e: "reps @ reqs = os @ nw" and os: "os \<noteq> []"
  shows "0 < turns_left sigs os reps reqs st"
proof (cases "length os \<le> length reps")
  case True
  then obtain xs where xs: "reps = os @ xs" using e by (auto simp: append_eq_append_conv2)
  obtain c cs where "os = c # cs" using os by (cases os) auto
  then have "wire_size (map (reply sigs) xs) < cln_left st" using loop_inv_left(4) [OF inv, of c "cs @ xs"] xs by simp
  then show ?thesis unfolding xs turns_left_reply by simp
next
  case False
  then obtain o2 where o2: "os = reps @ o2" "reqs = o2 @ nw" "o2 \<noteq> []" using e by (auto simp: append_eq_append_conv2)
  obtain c cs where "o2 = c # cs" using o2(3) by (cases o2) auto
  then have "0 < turns_for (srv_left st - wire_size (map request nw))" using loop_inv_left(3) [OF inv, of c "cs @ nw"] o2(2) by simp
  moreover have "0 < turns_for (wire_size (map (reply sigs) (reps @ o2)))" using o2(3) by simp
  ultimately show ?thesis unfolding o2(1,2) turns_left_request [OF o2(3)] by linarith
qed

context allocator
begin

text \<open>One turn, and what it leaves for the others.\<close>

lemma main_turn_all_nearer:
  assumes "loop_inv sigs reps reqs st" and "loop_timely clk" and "reqs = [] \<or> pushed [] st"
  obtains st' k dn reps' reqs' where "main_turn malloc clk st = Some (st', sleep_for 5 (sdrop k clk))" and "reps @ reqs = dn @ reps' @ reqs'"
    and "loop_inv sigs reps' reqs' st'" and "completed sigs dn st st'" and "pushed [] st'"
    and "reps' @ reqs' = [] \<or> turns_left sigs (reps' @ reqs') reps' reqs' st' < turns_left sigs (reps @ reqs) reps reqs st"
proof -
  have "pushed [] st" using assms(3) loop_inv_left(1) [OF assms(1)] by (auto simp: pushed_def wire_size_def)
  then obtain st' k dn reps' reqs' where s: "main_turn malloc clk st = Some (st', sleep_for 5 (sdrop k clk))" "reps @ reqs = dn @ reps' @ reqs'"
    "loop_inv sigs reps' reqs' st'" "completed sigs dn st st'" "pushed [] st'" "nearer sigs (reps @ reqs) reps reqs st dn reps' reqs' st'"
    using main_turn_nearer [OF assms(1,2) append_Nil2 [symmetric]] by metis
  show thesis using s(2,6) by (intro that [OF s(1-5)]) (auto simp: nearer_def)
qed

lemma main_turns_pushed:
  assumes "loop_inv sigs reps reqs st" and "loop_timely clk" and "pushed [] st" and "reps @ reqs = [] \<or> turns_left sigs (reps @ reqs) reps reqs st \<le> n"
  shows "\<exists>st' clk'. main_turns malloc n clk st = Some (st', clk') \<and> loop_inv sigs [] [] st' \<and> completed sigs (reps @ reqs) st st'"
  using assms
proof (induction n arbitrary: reps reqs st clk)
  case 0
  have "reps @ reqs = []" using 0(4) turns_left_pos [OF 0(1) append_Nil2 [symmetric]] by (metis leD)
  with 0(1) show ?case by (simp add: completed_Nil)
next
  case (Suc n)
  obtain a k dn reps' reqs' where a: "main_turn malloc clk st = Some (a, sleep_for 5 (sdrop k clk))" "reps @ reqs = dn @ reps' @ reqs'"
    "loop_inv sigs reps' reqs' a" "completed sigs dn st a" "pushed [] a"
    "reps' @ reqs' = [] \<or> turns_left sigs (reps' @ reqs') reps' reqs' a < turns_left sigs (reps @ reqs) reps reqs st"
    using main_turn_all_nearer [OF Suc.prems(1,2)] Suc.prems(3) by metis
  have "reps' @ reqs' = [] \<or> turns_left sigs (reps' @ reqs') reps' reqs' a \<le> n" using a(2,6) Suc.prems(4) by auto
  from Suc.IH [OF a(3) loop_timely_sleep_for [OF loop_timely_sdrop [OF Suc.prems(2)]] a(5) this] a(1,2) completed_trans [OF a(4)]
  show ?case by fastforce
qed

text \<open>The first turn may find a client that has not sent anything yet; then it is the one that sends.\<close>

lemma main_turns_complete:
  assumes inv: "loop_inv sigs reps reqs st" and clk: "loop_timely clk" 
    and n: "n = turns_for (wire_size (map request reqs)) + turns_for (wire_size (map (reply sigs) (reps @ reqs)))"
  shows "\<exists>st' clk'. main_turns malloc n clk st = Some (st', clk') \<and> loop_inv sigs [] [] st' \<and> completed sigs (reps @ reqs) st st'"
proof (cases "reqs = []")
  case True
  then have "pushed [] st" using loop_inv_left(1) [OF inv] by (simp add: pushed_def wire_size_def)
  then show ?thesis using main_turns_pushed [OF inv clk] turns_left_bound_reply [of sigs reps st] inv True n by (auto simp: wire_size_def)
next
  case False
  then have pos: "0 < turns_for (wire_size (map request reqs))" by simp
  then have "0 < n" using n by linarith
  then obtain m where m: "n = Suc m" using gr0_implies_Suc by blast
  obtain a k dn reps' reqs' got where a: "main_turn malloc clk st = Some (a, sleep_for 5 (sdrop k clk))" "reqs = got @ reqs'" "reps @ got = dn @ reps'"
    "loop_inv sigs reps' reqs' a" "completed sigs dn st a" "srv_left a = srv_in a \<or> 256 \<le> srv_in a"
    using main_turn_moves [OF inv clk] by metis
  have e: "reps @ reqs = dn @ reps' @ reqs'" using a(2,3) by simp
  have p: "pushed [] a" using a(6) by (auto simp: pushed_def)
  have b: "turns_for (wire_size (map (reply sigs) (reps' @ reqs'))) \<le> turns_for (wire_size (map (reply sigs) (reps @ reqs)))"
    "turns_for (wire_size (map request reqs')) \<le> turns_for (wire_size (map request reqs))"
    unfolding e by (simp_all add: turns_for_mono a(2))
  have "turns_left sigs (reps' @ reqs') reps' reqs' a \<le> m"
  proof (cases "reqs' = []")
    case True
    then have "turns_left sigs (reps' @ reqs') reps' reqs' a \<le> turns_for (wire_size (map (reply sigs) (reps' @ reqs')))"
      using turns_left_bound_reply [of sigs reps' a] a(4) by simp
    then show ?thesis using pos b(1) m n by linarith
  next
    case False
    then show ?thesis using turns_left_bound [OF a(4) False] b m n by simp
  qed
  with main_turns_pushed [OF a(4) loop_timely_sleep_for [OF loop_timely_sdrop [OF clk]] p, of m] a(1) e m completed_trans [OF a(5)]
  show ?thesis by fastforce
qed

end

end
