(* ===== verification/Session.thy ===== *)
theory Session
  imports Throughput
begin

text \<open>
  Runs of the loop-back program: the calls, the turns of the server and the turns of the client in any order, as a step
  relation, with the invariant of \<open>Loopback\<close> by rule induction; then the loop of \<^verbatim>\<open>main\<close> (\<^verbatim>\<open>src/src/main.cpp\<close>).
\<close>

section \<open>Runs\<close>

text \<open>
  Calls of \<^verbatim>\<open>asyncRPC\<close> with arguments that fit the signature, turns of the server and turns of the client, in any order and
  with any clock that runs on. \<open>runs malloc sigs st0 issued st\<close>: the calls \<open>issued\<close> were accepted on the way from \<open>st0\<close> to \<open>st\<close>.
\<close>

inductive runs :: "(mem \<Rightarrow> addr) \<Rightarrow> signatures \<Rightarrow> Loopback \<Rightarrow> call list \<Rightarrow> Loopback \<Rightarrow> bool" for malloc sigs st0 where
  start: "runs malloc sigs st0 [] st0"
| call: "runs malloc sigs st0 issued st \<Longrightarrow> deref (cln_registry (lb_client st)) (Some q) = Some stub \<Longrightarrow>
    sigs (st_id stub) = Some (R, Args, f) \<Longrightarrow> actuals_ok Args as xs (cln_mem (lb_client st)) \<Longrightarrow> no_const_ptr Args \<Longrightarrow>
    c = \<lparr>c_name = st_id stub, c_id = st_invokations stub + 1, c_callback = cb, c_addresses = kept Args as, c_args = xs\<rparr> \<Longrightarrow>
    call_typed sigs c \<Longrightarrow> asyncRPC Args (Some q) cb as (lb_client st) = Some (True, p) \<Longrightarrow>
    runs malloc sigs st0 (issued @ [c]) (st\<lparr>lb_client := p\<rparr>)"
| server: "runs malloc sigs st0 issued st \<Longrightarrow> clock_runs clk \<Longrightarrow> server_turn malloc clk st = Some (st', clk') \<Longrightarrow>
    runs malloc sigs st0 issued st'"
| client: "runs malloc sigs st0 issued st \<Longrightarrow> clock_runs clk \<Longrightarrow> client_turn clk st = Some (st', clk') \<Longrightarrow>
    runs malloc sigs st0 issued st'"

text \<open>A clock that does not go back.\<close>

definition clock_mono :: "int stream \<Rightarrow> bool" where
  "clock_mono clk \<longleftrightarrow> (\<forall>i j. i \<le> j \<longrightarrow> clk !! i \<le> clk !! j)"

lemma clock_mono_sdrop: "clock_mono clk \<Longrightarrow> clock_mono (sdrop k clk)"
  by (simp add: clock_mono_def sdrop_snth)

lemma clock_mono_sleep_for: "clock_mono clk \<Longrightarrow> clock_mono (sleep_for ms clk)"
  by (simp add: clock_mono_def)

text \<open>A time-out that has expired after some readings has expired after fewer that are later.\<close>

lemma expired_later:
  assumes "clock_mono clk" and "0 < m_tout_preset t" and "expired_impl (clk !! e) t"
  shows "expired_impl (sleep_for 5 (sdrop (Suc j) clk) !! (e - Suc j)) t"
proof -
  have "clk !! e \<le> clk !! (Suc j + (e - Suc j))" using assms(1) unfolding clock_mono_def by (metis le_add_diff_inverse nat_le_linear order_refl diff_is_0_eq add.right_neutral)
  then have "clk !! e \<le> sleep_for 5 (sdrop (Suc j) clk) !! (e - Suc j)" unfolding snth_sleep_for sdrop_snth by linarith
  with assms(2,3) show ?thesis by (auto simp: expired_iff)
qed

context allocator
begin

lemma runs_inv:
  assumes "runs malloc sigs st0 issued st" and "loop_inv sigs [] [] st0"
  shows "\<exists>dn reps reqs. issued = dn @ reps @ reqs \<and> loop_inv sigs reps reqs st \<and> completed sigs dn st0 st"
  using assms
proof (induction rule: runs.induct)
  case start
  then show ?case by (auto simp: completed_Nil)
next
  case (call issued st q stub R Args f as xs c cb p)
  then obtain dn reps reqs where i: "issued = dn @ reps @ reqs" "loop_inv sigs reps reqs st" "completed sigs dn st0 st" by blast
  have "\<not> tx_msg_full (lb_client st)" using call.hyps by (auto simp: asyncRPC_def split: if_splits)
  from client_calls [OF i(2) call.hyps(2) this call.hyps(3-7)] call.hyps(8)
  have "loop_inv sigs reps (reqs @ [c]) (st\<lparr>lb_client := p\<rparr>)" "cln_mem p = cln_mem (lb_client st)" "cln_calls p = cln_calls (lb_client st)" by auto
  with i show ?case by (intro exI [of _ dn] exI [of _ reps] exI [of _ "reqs @ [c]"]) (simp add: completed_def)
next
  case (server issued st clk st' clk')
  then obtain dn reps reqs where i: "issued = dn @ reps @ reqs" "loop_inv sigs reps reqs st" "completed sigs dn st0 st" by blast
  obtain got rest where g: "reqs = got @ rest" "loop_inv sigs (reps @ got) rest st'" "lb_client st' = lb_client st"
    using server_turn_ok [OF i(2) server.hyps(2)] server.hyps(3) by (metis option.inject prod.inject)
  with i completed_trans [OF i(3) completed_same [OF g(3)]] show ?case
    by (intro exI [of _ dn] exI [of _ "reps @ got"] exI [of _ rest]) simp
next
  case (client issued st clk st' clk')
  then obtain dn reps reqs where i: "issued = dn @ reps @ reqs" "loop_inv sigs reps reqs st" "completed sigs dn st0 st" by blast
  obtain got rest rvs where g: "reps = got @ rest" "loop_inv sigs rest reqs st'" "list_all2 (answered sigs) got rvs"
    "cln_mem (lb_client st') = fold (store sigs) got (cln_mem (lb_client st))"
    "cln_calls (lb_client st') = cln_calls (lb_client st) @ concat (map2 c_calls got rvs)"
    using client_turn_ok [OF i(2) client.hyps(2)] client.hyps(3) by (metis option.inject prod.inject)
  then have "completed sigs got st st'" by (auto simp: completed_def)
  from completed_trans [OF i(3) this] i g show ?case by (intro exI [of _ "dn @ got"] exI [of _ rest] exI [of _ reqs]) simp
qed

lemma main_turn_ok:
  assumes "loop_inv sigs reps reqs st" and "clock_runs clk"
  obtains st' k dn reps' reqs' where "main_turn malloc clk st = Some (st', sleep_for 5 (sdrop k clk))" and "reps @ reqs = dn @ reps' @ reqs'"
    and "loop_inv sigs reps' reqs' st'" and "completed sigs dn st st'"
    and "keeps_nodes (srv_registry (lb_server st)) (srv_registry (lb_server st'))" and "keeps_nodes (cln_registry (lb_client st)) (cln_registry (lb_client st'))"
proof -
  obtain a clk1 got rest where a: "server_turn malloc clk st = Some (a, clk1)" "clock_runs clk1" "reqs = got @ rest" "loop_inv sigs (reps @ got) rest a"
    "lb_client a = lb_client st" using server_turn_ok [OF assms] by metis
  obtain b clk2 g r rvs where b: "client_turn clk1 a = Some (b, clk2)" "reps @ got = g @ r" "loop_inv sigs r rest b" "list_all2 (answered sigs) g rvs"
    "cln_mem (lb_client b) = fold (store sigs) g (cln_mem (lb_client a))" "cln_calls (lb_client b) = cln_calls (lb_client a) @ concat (map2 c_calls g rvs)"
    "lb_server b = lb_server a"
    using client_turn_ok [OF a(4,2)] by metis
  obtain j k where "clk1 = sdrop j clk" "clk2 = sdrop k clk1" using server_turn_framed(1) [OF a(1)] client_turn_framed(1) [OF b(1)] by blast
  then have "main_turn malloc clk st = Some (b, sleep_for 5 (sdrop (j + k) clk))" using a(1) b(1) by (simp add: main_turn_def sdrop_add)
  moreover have "completed sigs g st b" using a(5) b(4-6) by (auto simp: completed_def)
  moreover have "reps @ reqs = g @ r @ rest" using a(3) b(2) by simp
  ultimately show thesis using b(3,7) a(5) server_turn_framed(2) [OF a(1)] client_turn_framed(2) [OF b(1)]
    by (intro that [of b "j + k" g r rest]) simp_all
qed

lemma main_loop_ok:
  assumes "loop_inv sigs reps reqs st" and "clock_runs clk" and "clock_mono clk" and "0 < m_tout_preset t" and "expired_impl (clk !! n) t"
  shows "\<exists>st' clk' dn reps' reqs'. main_loop malloc t clk st = Some (st', clk') \<and> reps @ reqs = dn @ reps' @ reqs' \<and>
           loop_inv sigs reps' reqs' st' \<and> completed sigs dn st st' \<and>
           keeps_nodes (srv_registry (lb_server st)) (srv_registry (lb_server st')) \<and> keeps_nodes (cln_registry (lb_client st)) (cln_registry (lb_client st'))"
  using assms
proof (induction n arbitrary: reps reqs st clk rule: less_induct)
  case (less n)
  show ?case
  proof (cases "expired_impl (shd clk) t")
    case True
    with less.prems(1) show ?thesis
      by (intro exI [of _ st] exI [of _ "stl clk"] exI [of _ "[]"] exI [of _ reps] exI [of _ reqs]) (simp add: main_loop.simps [of malloc t clk st] completed_Nil)
  next
    case False
    then have n: "0 < n" using less.prems(5) by (cases n) auto
    obtain a k dn1 reps1 reqs1 where a: "main_turn malloc (stl clk) st = Some (a, sleep_for 5 (sdrop k (stl clk)))" "reps @ reqs = dn1 @ reps1 @ reqs1"
      "loop_inv sigs reps1 reqs1 a" "completed sigs dn1 st a"
      "keeps_nodes (srv_registry (lb_server st)) (srv_registry (lb_server a))" "keeps_nodes (cln_registry (lb_client st)) (cln_registry (lb_client a))"
      using main_turn_ok [OF less.prems(1) clock_runs_stl [OF less.prems(2)]] by metis
    let ?clk = "sleep_for 5 (sdrop (Suc k) clk)"
    have e: "expired_impl (?clk !! (n - Suc k)) t" by (rule expired_later [OF less.prems(3-5)])
    have m: "clock_mono ?clk" using less.prems(3) by (intro clock_mono_sleep_for clock_mono_sdrop)
    have "n - Suc k < n" using n by simp
    from less.IH [OF this a(3) clock_runs_sleep_for [OF clock_runs_sdrop [OF less.prems(2)]] m less.prems(4) e] obtain b clk2 dn2 reps2 reqs2 where
      b: "main_loop malloc t ?clk a = Some (b, clk2)" "reps1 @ reqs1 = dn2 @ reps2 @ reqs2" "loop_inv sigs reps2 reqs2 b" "completed sigs dn2 a b"
      "keeps_nodes (srv_registry (lb_server a)) (srv_registry (lb_server b))" "keeps_nodes (cln_registry (lb_client a)) (cln_registry (lb_client b))"
      by blast
    have "main_loop malloc t clk st = Some (b, clk2)"
      using False a(1) b(1) by (simp add: main_loop.simps [of malloc t clk st] sdrop_add)
    moreover have "reps @ reqs = (dn1 @ dn2) @ reps2 @ reqs2" using a(2) b(2) by simp
    ultimately show ?thesis using b(3) completed_trans [OF a(4) b(4)] keeps_nodes_trans [OF a(5) b(5)] keeps_nodes_trans [OF a(6) b(6)] by blast
  qed
qed

end

end
