(* ===== verification/Main_Program.thy ===== *)
theory Main_Program
  imports Session
begin

text \<open>
  The connection of a function on both sides, and the program of \<^verbatim>\<open>src/src/main.cpp\<close> up to the call of the test cases: it sets the
  two peers up, connects and calls the remote function \<^verbatim>\<open>fsm\<close>, runs both loops for 50 milliseconds and disconnects.
\<close>

section \<open>Connecting\<close>

text \<open>The name under which a function is registered.\<close>

definition full_name :: "cpp_type \<Rightarrow> bytes \<Rightarrow> cpp_type list \<Rightarrow> bytes" where
  "full_name R name Args =
     (case stringify Args of None \<Rightarrow> [] | Some sargs \<Rightarrow> ParamType_name R @ str '' '' @ name @ str '' '' @ sargs)"

lemma stringify_Some: "Args \<noteq> [] \<Longrightarrow> \<exists>sargs. stringify Args = Some sargs"
  by (cases Args) (simp_all add: stringify_def string_composer_def)

lemma registry_node_map: "registry_ok getName r \<Longrightarrow> deref r (Some q) = Some x \<Longrightarrow> functions_map r (getName x) = Some (Some q)"
  by (simp add: deref_nodes registry_okD(3))

lemma server_connects:
  assumes has: "server_has sigs p" and args: "Args \<noteq> []" "ParamTraits_valid R Args" and new: "functions_map (srv_registry p) (full_name R name Args) = None"
  obtains q p' where "RpcServer_connect name R Args f p = Some (Some q, p')" and "p' = p\<lparr>srv_registry := srv_registry p'\<rparr>"
    and "server_has (sigs(full_name R name Args \<mapsto> (R, Args, f))) p'" and "functions_map (srv_registry p') (full_name R name Args) = Some (Some q)"
proof -
  obtain sargs where sargs: "stringify Args = Some sargs" using stringify_Some [OF args(1)] ..
  let ?id = "full_name R name Args"
  let ?sk = "Skeleton_new\<lparr>sk_func := Some (R, Args, f), sk_in_args_format := codify_in_args Args, sk_out_args_format := codify_out_args Args,
      sk_r_format := ParamType_r_id R, sk_id := ?id\<rparr>"
  have id: "?id = ParamType_name R @ str '' '' @ name @ str '' '' @ sargs" by (simp add: full_name_def sargs)
  have ok: "registry_ok sk_id (srv_registry p)" using has by (simp add: server_has_def)
  have "functions_map (srv_registry p) (sk_id ?sk) = None" using new by simp
  from insert_new [OF ok this] obtain q r where r: "Registry_insert sk_id ?sk (srv_registry p) = Some (Some q, r)" "registry_ok sk_id r"
    "registered r = (registered (srv_registry p))(?id \<mapsto> ?sk)" "deref r (Some q) = Some ?sk" by auto
  have "RpcServer_connect name R Args f p = Some (Some q, p\<lparr>srv_registry := r\<rparr>)"
    using r(1) by (simp add: RpcServer_connect_def sargs id)
  moreover have "skeleton_ok R Args f ?sk" using args(2) by (simp add: skeleton_ok_def)
  then have "server_has (sigs(?id \<mapsto> (R, Args, f))) (p\<lparr>srv_registry := r\<rparr>)"
    using has r(2,3) by (auto simp: server_has_def)
  moreover have "functions_map r ?id = Some (Some q)" using registry_node_map [OF r(2,4)] by simp
  ultimately show thesis by (intro that [of q "p\<lparr>srv_registry := r\<rparr>"]) simp_all
qed

lemma client_connects:
  assumes has: "client_has sigs cs p" and args: "Args \<noteq> []" "ParamTraits_valid R Args" and sig: "sigs (full_name R name Args) = Some (R, Args, f)"
    and new: "functions_map (cln_registry p) (full_name R name Args) = None" "functions_map (cln_registry p) name = None"
  obtains q p' st where "RpcClient_connect name R Args p = Some (Some q, p')" and "p' = p\<lparr>cln_registry := cln_registry p'\<rparr>"
    and "client_has sigs cs p'" and "functions_map (cln_registry p') (full_name R name Args) = Some (Some q)"
    and "deref (cln_registry p') (Some q) = Some st" and "st_id st = full_name R name Args" and "st_invokations st = 0"
proof -
  obtain sargs where sargs: "stringify Args = Some sargs" using stringify_Some [OF args(1)] ..
  let ?id = "full_name R name Args"
  let ?st = "Stub_new\<lparr>st_r_format := ParamType_r_id R, st_in_args_format := codify_in_args Args, st_out_args_format := codify_out_args Args,
      st_id := ?id, st_n_handles := 1\<rparr>"
  have id: "?id = ParamType_name R @ str '' '' @ name @ str '' '' @ sargs" by (simp add: full_name_def sargs)
  have ok: "registry_ok st_id (cln_registry p)" using has by (simp add: client_has_def)
  have "functions_map (cln_registry p) (st_id ?st) = None" using new(1) by simp
  from insert_new [OF ok this] obtain q r where r: "Registry_insert st_id ?st (cln_registry p) = Some (Some q, r)" "registry_ok st_id r"
    "registered r = (registered (cln_registry p))(?id \<mapsto> ?st)" "deref r (Some q) = Some ?st" by auto
  have "RpcClient_connect name R Args p = Some (Some q, p\<lparr>cln_registry := r\<rparr>)"
    using r(1) new(2) by (simp add: RpcClient_connect_def Registry_find_def sargs id)
  moreover have none: "registered (cln_registry p) ?id = None" using new(1) by (simp add: registered_def)
  have fresh: "c_name c \<noteq> ?id" if "c \<in> set cs" for c
    using has that none unfolding client_has_def by auto
  have "stub_ok R Args ?st" using args(2) by (simp add: stub_ok_def)
  moreover have "st_invokation_list ?st = map pending (filter (\<lambda>c. c_name c = ?id) cs)" using fresh by (auto simp: Stub_new_def filter_empty_conv)
  ultimately have "client_has sigs cs (p\<lparr>cln_registry := r\<rparr>)"
    using has sig r(2,3) unfolding client_has_def by auto
  moreover have "functions_map r ?id = Some (Some q)" using registry_node_map [OF r(2,4)] by simp
  ultimately show thesis using r(4) \<open>RpcClient_connect name R Args p = Some (Some q, p\<lparr>cln_registry := r\<rparr>)\<close>
    by (intro that [of q "p\<lparr>cln_registry := r\<rparr>" ?st]) (simp_all add: Stub_new_def)
qed

section \<open>The program\<close>

text \<open>The empty remote function of the program returns zero and leaves its arguments.\<close>

definition fsm :: remote where
  "fsm xs = (Some (O_int 0), xs)"

abbreviation fsm_args :: "cpp_type list" where
  "fsm_args \<equiv> [T_int_ref, T_long, T_float_ref, T_string_ref]"

definition main_start :: "bytes \<Rightarrow> bytes \<Rightarrow> bytes \<Rightarrow> bytes \<Rightarrow> mem \<Rightarrow> mem \<Rightarrow> addr \<Rightarrow> addr \<Rightarrow> addr \<Rightarrow> (RpcHandle \<times> node option \<times> Loopback) option" where
  "main_start stx srx ctx crx hs hc state sensor error_description =
     (let st = Loopback_new stx srx ctx crx hs hc
      in do {
        (fsm_stub, client) \<leftarrow> RpcClient_connect (str ''fsm'') T_int fsm_args (lb_client st);
        (fsm_skeleton, server) \<leftarrow> RpcServer_connect (str ''fsm'') T_int fsm_args fsm (lb_server st);
        (_, client) \<leftarrow> asyncRPC fsm_args fsm_stub (Some 0)
          [Lvalue state, By_value (O_long 0xAA556432), Lvalue sensor, Lvalue error_description] client;
        Some (fsm_stub, fsm_skeleton, st\<lparr>lb_client := client, lb_server := server\<rparr>)
      })"

definition main_program :: "(mem \<Rightarrow> addr) \<Rightarrow> int stream \<Rightarrow> bytes \<Rightarrow> bytes \<Rightarrow> bytes \<Rightarrow> bytes \<Rightarrow> mem \<Rightarrow> mem \<Rightarrow> addr \<Rightarrow> addr \<Rightarrow> addr \<Rightarrow> Loopback option" where
  "main_program malloc clk stx srx ctx crx hs hc state sensor error_description =
     do {
       (fsm_stub, fsm_skeleton, st) \<leftarrow> main_start stx srx ctx crx hs hc state sensor error_description;
       let tout = start_impl (shd clk) (preset_impl 50 (TimeOutChrono_new 0));
       (st, clk) \<leftarrow> main_loop malloc tout (stl clk) st;
       (_, client) \<leftarrow> RpcClient_disconnect fsm_stub (lb_client st);
       server \<leftarrow> RpcServer_disconnect fsm_skeleton (lb_server st);
       Some (st\<lparr>lb_client := client, lb_server := server\<rparr>)
     }"

lemma link_inv_new:
  assumes "length stx = 1024" and "length srx = 1024" and "length ctx = 1024" and "length crx = 1024"
  shows "link_inv (Loopback_new stx srx ctx crx hs hc) [] []"
  using assms
  by (simp add: link_inv_def Streamer_inv_def ClientCom_inv_def ServerCom_inv_def Loopback_new_def Loopback_created_def Let_def RpcServer_new_def RpcClient_new_def Streamer_new_def initLoop_def
      tx_ok_def rx_ok_def ring_ok_def sb_inv_new tx_state_ok_def tx_todo_def rx_expects_def in_stream_def cln_with_def srv_with_def
      tx_bytes_def rx_bytes_def tx_count_def rx_count_def ring_count_def ClientCom_def ServerCom_def ClientCom_is_open_impl_def
      ServerCom_is_open_impl_def ClientCom_open_impl_def ServerCom_open_impl_def ClientCom_new_def ServerCom_new_def
      ClientCom_get_packet_size_impl_def ServerCom_get_packet_size_impl_def)

definition fsm_name :: bytes where
  "fsm_name = full_name T_int (str ''fsm'') fsm_args"

lemma fsm_name_value: "fsm_name = str ''int fsm int& long float& string&''"
  by (simp add: fsm_name_def full_name_def stringify_def string_composer_def str_def)

definition fsm_sigs :: signatures where
  "fsm_sigs = [fsm_name \<mapsto> (T_int, fsm_args, fsm)]"

lemma fsm_sigs_name: "fsm_sigs fsm_name = Some (T_int, fsm_args, fsm)"
  by (simp add: fsm_sigs_def)

lemma fsm_valid: "ParamTraits_valid T_int fsm_args" "no_const_ptr fsm_args"
  by (simp_all add: ParamTraits_valid_def ReturnType_valid_def no_const_ptr_def)

text \<open>The objects that the program passes by reference, and the call that it makes.\<close>

definition fsm_objects :: "mem \<Rightarrow> addr \<Rightarrow> addr \<Rightarrow> addr \<Rightarrow> obj list \<Rightarrow> bool" where
  "fsm_objects hc state sensor err xs \<longleftrightarrow>
     (\<exists>i x s. hc state = Some (O_int i) \<and> hc sensor = Some (O_float x) \<and> hc err = Some (O_string s) \<and> length s < 65536 \<and>
        xs = [O_int i, O_long 0xAA556432, O_float x, O_string s])"

definition fsm_call :: "addr \<Rightarrow> addr \<Rightarrow> addr \<Rightarrow> obj list \<Rightarrow> call" where
  "fsm_call state sensor err xs = \<lparr>c_name = fsm_name, c_id = 1, c_callback = Some 0, c_addresses = [state, sensor, err], c_args = xs\<rparr>"

lemma fsm_actuals:
  assumes "fsm_objects hc state sensor err xs"
  shows "actuals_ok fsm_args [Lvalue state, By_value (O_long 0xAA556432), Lvalue sensor, Lvalue err] xs hc"
    and "kept fsm_args [Lvalue state, By_value (O_long 0xAA556432), Lvalue sensor, Lvalue err] = [state, sensor, err]"
  using assms
  by (auto simp: fsm_objects_def actual_ok_def has_type_def obj_small_def is_reference_def is_pointer_def kept_def keeps_def is_const_noref_def)

lemma fsm_call_typed:
  assumes "fsm_objects hc state sensor err xs"
  shows "call_typed fsm_sigs (fsm_call state sensor err xs)"
proof -
  obtain i x s where xs: "xs = [O_int i, O_long 0xAA556432, O_float x, O_string s]" "length s < 65536" using assms by (auto simp: fsm_objects_def)
  have a: "args_ok fsm_args xs" using actuals_args_ok [OF fsm_actuals(1) [OF assms]] .
  have l: "length (encode xs) < 70000" "length (encode (outs fsm_args xs)) < 70000" "length (encode_result T_int (Some (O_int 0))) = 4"
    using xs(2) by (simp_all add: xs(1) encode_def write_obj_def write_int_def write_float_def length_write_container is_out_def encode_result_def)
  have n: "0 \<notin> set fsm_name" "length fsm_name < 2 ^ 63" by (simp_all add: fsm_name_value str_def)
  have "remote_typed T_int fsm_args fsm xs"
    using a by (auto simp: remote_typed_def fsm_def result_ok_def ReturnType_valid_def has_type_def args_ok_def elim: list_all2_mono)
  moreover have "msg_ok (request (fsm_call state sensor err xs))" using l n by (simp add: msg_ok_def request_def fsm_call_def)
  moreover have "msg_ok (reply fsm_sigs (fsm_call state sensor err xs))"
    using l n by (simp add: msg_ok_def reply_def fsm_call_def fsm_sigs_name c_result_def c_outs_def fsm_def)
  ultimately show ?thesis using a by (simp add: call_typed_def fsm_call_def fsm_sigs_name) (simp add: fsm_def)
qed

text \<open>Both sides connected, nothing called yet.\<close>

lemma main_connects:
  fixes hc :: mem
  assumes bufs: "length stx = 1024" "length srx = 1024" "length ctx = 1024" "length crx = 1024" and hs: "finite (dom hs)"
  defines "st \<equiv> Loopback_new stx srx ctx crx hs hc"
  obtains q c stub k p where "RpcClient_connect (str ''fsm'') T_int fsm_args (lb_client st) = Some (Some q, c)"
    and "RpcServer_connect (str ''fsm'') T_int fsm_args fsm (lb_server st) = Some (Some k, p)"
    and "loop_inv fsm_sigs [] [] (st\<lparr>lb_client := c, lb_server := p\<rparr>)" and "tx_msg_buffer c = []" and "cln_mem c = hc" and "cln_calls c = []"
    and "deref (cln_registry c) (Some q) = Some stub" and "st_id stub = fsm_name" and "st_invokations stub = 0"
    and "functions_map (cln_registry c) fsm_name = Some (Some q)" and "functions_map (srv_registry p) fsm_name = Some (Some k)"
proof -
  have regs: "cln_registry (lb_client st) = FunctionsRegistry_new" "srv_registry (lb_server st) = FunctionsRegistry_new" "srv_mem (lb_server st) = hs"
    "cln_mem (lb_client st) = hc" "cln_calls (lb_client st) = []" "rx_msg_buffer (lb_client st) = []" "rx_msg_buffer (lb_server st) = []"
    "tx_msg_buffer (lb_client st) = []"
    by (simp_all add: st_def Loopback_new_def Loopback_created_def Let_def initLoop_def RpcServer_new_def RpcClient_new_def)
  have new: "functions_map (FunctionsRegistry_new :: 'a FunctionsRegistry) n = None" for n by (simp add: FunctionsRegistry_new_def)
  have none: "registered FunctionsRegistry_new n = None" for n by (simp add: registered_def FunctionsRegistry_new_def)
  have "client_has fsm_sigs [] (lb_client st)" by (simp add: client_has_def regs registry_ok_new none)
  then obtain q c stub where c: "RpcClient_connect (str ''fsm'') T_int fsm_args (lb_client st) = Some (Some q, c)" "c = lb_client st\<lparr>cln_registry := cln_registry c\<rparr>"
    "client_has fsm_sigs [] c" "functions_map (cln_registry c) fsm_name = Some (Some q)" "deref (cln_registry c) (Some q) = Some stub"
    "st_id stub = fsm_name" "st_invokations stub = 0"
    using client_connects [OF _ _ fsm_valid(1), of fsm_sigs "[]" "lb_client st" "str ''fsm''" fsm] fsm_sigs_name unfolding fsm_name_def regs
    by (metis list.distinct(1) new)
  have "server_has Map.empty (lb_server st)" by (simp add: server_has_def regs registry_ok_new hs)
  then obtain k p where p: "RpcServer_connect (str ''fsm'') T_int fsm_args fsm (lb_server st) = Some (Some k, p)" "p = lb_server st\<lparr>srv_registry := srv_registry p\<rparr>"
    "server_has fsm_sigs p" "functions_map (srv_registry p) fsm_name = Some (Some k)"
    using server_connects [OF _ _ fsm_valid(1), of Map.empty "lb_server st" "str ''fsm''" fsm] unfolding fsm_name_def fsm_sigs_def regs
    by (metis list.distinct(1) new)
  have fc: "m_streamer c = m_streamer (lb_client st)" "m_init_deserializer c = m_init_deserializer (lb_client st)" "m_deserializer c = m_deserializer (lb_client st)"
    "tx_todo c = tx_todo (lb_client st)" "tx_state_ok c = tx_state_ok (lb_client st)" "rx_msg_buffer c = []" "cln_mem c = hc" "cln_calls c = []" "tx_msg_buffer c = []"
    by (subst c(2), simp add: regs tx_todo_def tx_state_ok_def)+
  have fp: "m_streamer p = m_streamer (lb_server st)" "m_init_deserializer p = m_init_deserializer (lb_server st)" "m_deserializer p = m_deserializer (lb_server st)"
    "tx_todo p = tx_todo (lb_server st)" "tx_state_ok p = tx_state_ok (lb_server st)" "rx_msg_buffer p = []"
    by (subst p(2), simp add: regs tx_todo_def tx_state_ok_def)+
  have link: "link_inv st [] []" unfolding st_def by (rule link_inv_new [OF bufs])
  then have ok: "tx_state_ok (lb_client st)" "tx_state_ok (lb_server st)" by (simp_all add: link_inv_def)
  have "link_inv (st\<lparr>lb_client := c\<rparr>) ([] @ []) []" by (rule link_inv_queue_cln [OF link]) (simp_all add: fc ok)
  then have "link_inv (st\<lparr>lb_client := c\<rparr>) [] []" by simp
  from link_inv_queue_srv [OF this, of "[]" p] have "link_inv (st\<lparr>lb_client := c, lb_server := p\<rparr>) [] []" using fp ok by simp
  then have "loop_inv fsm_sigs [] [] (st\<lparr>lb_client := c, lb_server := p\<rparr>)" using c(3) p(3) fc(6) fp(6) by (simp add: loop_inv_def)
  then show thesis using c p fc by (intro that [of q c k p stub]) simp_all
qed

lemma asyncRPC_keeps: "asyncRPC Args h cb as p = Some (b, p') \<Longrightarrow> keeps_nodes (cln_registry p) (cln_registry p')"
  by (auto simp: asyncRPC_def Let_def elim!: bind_SomeE dest!: assign_keeps_nodes split: if_splits)

lemma main_start_ok:
  assumes "length stx = 1024" and "length srx = 1024" and "length ctx = 1024" and "length crx = 1024" and "finite (dom hs)"
    and hc: "fsm_objects hc state sensor err xs"
  obtains q k st where "main_start stx srx ctx crx hs hc state sensor err = Some (Some q, Some k, st)"
    and "loop_inv fsm_sigs [] [fsm_call state sensor err xs] st" and "cln_mem (lb_client st) = hc" and "cln_calls (lb_client st) = []"
    and "functions_map (cln_registry (lb_client st)) fsm_name = Some (Some q)" and "functions_map (srv_registry (lb_server st)) fsm_name = Some (Some k)"
proof -
  let ?st = "Loopback_new stx srx ctx crx hs hc"
  let ?as = "[Lvalue state, By_value (O_long 0xAA556432), Lvalue sensor, Lvalue err]"
  obtain q c stub k p where c: "RpcClient_connect (str ''fsm'') T_int fsm_args (lb_client ?st) = Some (Some q, c)"
    "RpcServer_connect (str ''fsm'') T_int fsm_args fsm (lb_server ?st) = Some (Some k, p)"
    "loop_inv fsm_sigs [] [] (?st\<lparr>lb_client := c, lb_server := p\<rparr>)" "tx_msg_buffer c = []" "cln_mem c = hc" "cln_calls c = []"
    "deref (cln_registry c) (Some q) = Some stub" "st_id stub = fsm_name" "st_invokations stub = 0"
    "functions_map (cln_registry c) fsm_name = Some (Some q)" "functions_map (srv_registry p) fsm_name = Some (Some k)"
    by (rule main_connects [OF assms(1-5), where hc = hc]) (rule that, assumption+)
  let ?b = "?st\<lparr>lb_client := c, lb_server := p\<rparr>"
  have pre: "deref (cln_registry (lb_client ?b)) (Some q) = Some stub" "\<not> tx_msg_full (lb_client ?b)" "fsm_sigs (st_id stub) = Some (T_int, fsm_args, fsm)"
    "actuals_ok fsm_args ?as xs (cln_mem (lb_client ?b))"
    using c(4,5,7,8) fsm_sigs_name fsm_actuals(1) [OF hc] by (simp_all add: tx_msg_full_def)
  have call: "fsm_call state sensor err xs =
      \<lparr>c_name = st_id stub, c_id = st_invokations stub + 1, c_callback = Some 0, c_addresses = kept fsm_args ?as, c_args = xs\<rparr>"
    using c(8,9) fsm_actuals(2) [OF hc] by (simp add: fsm_call_def)
  obtain d where d: "asyncRPC fsm_args (Some q) (Some 0) ?as (lb_client ?b) = Some (True, d)"
    "loop_inv fsm_sigs [] ([] @ [fsm_call state sensor err xs]) (?b\<lparr>lb_client := d\<rparr>)" "cln_mem d = cln_mem (lb_client ?b)" "cln_calls d = cln_calls (lb_client ?b)"
    by (rule client_calls [OF c(3) pre fsm_valid(2) call fsm_call_typed [OF hc]]) (rule that, assumption+)
  have "functions_map (cln_registry d) fsm_name = Some (Some q)" using asyncRPC_keeps [OF d(1)] c(10) by (simp add: keeps_nodes_def)
  moreover have "main_start stx srx ctx crx hs hc state sensor err = Some (Some q, Some k, ?b\<lparr>lb_client := d\<rparr>)"
    using c(1,2) d(1) by (simp add: main_start_def Let_def)
  ultimately show thesis using d(2-4) c(5,6,11) by (intro that [of q k "?b\<lparr>lb_client := d\<rparr>"]) simp_all
qed

section \<open>Disconnecting\<close>

lemma registry_map_node:
  assumes "registry_ok getName r" and "functions_map r name = Some (Some q)"
  obtains x where "deref r (Some q) = Some x" and "getName x = name"
  using registry_okD(4) [OF assms] by (auto simp: deref_nodes)

lemma remove_map: "Registry_remove getName (Some q) r = Some r' \<Longrightarrow> deref r (Some q) = Some x \<Longrightarrow> functions_map r' = (functions_map r)(getName x := None)"
  by (auto simp: Registry_remove_def Let_def)

lemma server_disconnect_ok:
  assumes ok: "registry_ok sk_id (srv_registry p)" and q: "functions_map (srv_registry p) name = Some (Some q)"
  obtains p' where "RpcServer_disconnect (Some q) p = Some p'" and "registry_ok sk_id (srv_registry p')"
    and "registered (srv_registry p') = (registered (srv_registry p))(name := None)" and "functions_map (srv_registry p') = (functions_map (srv_registry p))(name := None)"
proof -
  obtain sk where sk: "deref (srv_registry p) (Some q) = Some sk" "sk_id sk = name" using registry_map_node [OF ok q] .
  obtain r where r: "Registry_remove sk_id (Some q) (srv_registry p) = Some r" "registry_ok sk_id r" "registered r = (registered (srv_registry p))(name := None)"
    using remove_ok [OF ok sk(1)] sk(2) by blast
  show thesis using r remove_map [OF r(1) sk(1)] sk(2) by (intro that [of "p\<lparr>srv_registry := r\<rparr>"]) (simp_all add: RpcServer_disconnect_def)
qed

text \<open>A disconnect of the client frees the stub when it counts one handle; other functions stay as they are.\<close>

lemma client_disconnect_ok:
  assumes ok: "registry_ok st_id (cln_registry p)" and q: "functions_map (cln_registry p) name = Some (Some q)"
  obtains p' where "RpcClient_disconnect (Some q) p = Some (None, p')" and "p' = p\<lparr>cln_registry := cln_registry p'\<rparr>" and "registry_ok st_id (cln_registry p')"
    and "\<And>n. n \<noteq> name \<Longrightarrow> functions_map (cln_registry p') n = functions_map (cln_registry p) n \<and> registered (cln_registry p') n = registered (cln_registry p) n"
    and "map_option st_n_handles (deref (cln_registry p) (Some q)) = Some 1 \<Longrightarrow> deref (cln_registry p') (Some q) = None"
proof -
  obtain st where st: "deref (cln_registry p) (Some q) = Some st" "st_id st = name" using registry_map_node [OF ok q] .
  let ?st = "st\<lparr>st_n_handles := st_n_handles st - 1\<rparr>"
  obtain r where r: "assign (cln_registry p) (Some q) ?st = Some r" "registry_ok st_id r" "functions_map r = functions_map (cln_registry p)"
    "registered r = (registered (cln_registry p))(name \<mapsto> ?st)"
    using assign_ok [OF ok st(1), of ?st] st(2) by auto
  obtain x where x: "deref r (Some q) = Some x" "st_id x = name" using registry_map_node [OF r(2), of name q] q r(3) by metis
  obtain r' where r': "Registry_remove st_id (Some q) r = Some r'" "registry_ok st_id r'" "registered r' = (registered r)(name := None)" "deref r' (Some q) = None"
    using remove_ok [OF r(2) x(1)] x(2) by blast
  note m = remove_map [OF r'(1) x(1)]
  show thesis
  proof (cases "st_n_handles ?st \<le> 0")
    case True
    with st r r' x m show thesis by (intro that [of "p\<lparr>cln_registry := r'\<rparr>"]) (simp_all add: RpcClient_disconnect_def Let_def)
  next
    case False
    with st r show thesis by (intro that [of "p\<lparr>cln_registry := r\<rparr>"]) (simp_all add: RpcClient_disconnect_def Let_def)
  qed
qed

lemma server_disconnects:
  assumes "server_has sigs p" and "functions_map (srv_registry p) name = Some (Some q)"
  obtains p' where "RpcServer_disconnect (Some q) p = Some p'" and "registered (srv_registry p') = (registered (srv_registry p))(name := None)"
  using server_disconnect_ok [OF _ assms(2)] assms(1) that by (metis server_has_def)

lemma client_disconnects:
  assumes "client_has sigs cs p" and "functions_map (cln_registry p) name = Some (Some q)"
  obtains p' where "RpcClient_disconnect (Some q) p = Some (None, p')" and "cln_mem p' = cln_mem p" and "cln_calls p' = cln_calls p"
proof -
  have ok: "registry_ok st_id (cln_registry p)" using assms(1) by (simp add: client_has_def)
  obtain p' where p': "RpcClient_disconnect (Some q) p = Some (None, p')" "p' = p\<lparr>cln_registry := cln_registry p'\<rparr>"
    by (rule client_disconnect_ok [OF ok assms(2)]) (rule that, assumption+)
  have "cln_mem p' = cln_mem p" "cln_calls p' = cln_calls p" by (subst p'(2), simp)+
  with p'(1) that show thesis by blast
qed

lemma fsm_store:
  assumes "fsm_objects hc state sensor err xs"
  shows "store fsm_sigs (fsm_call state sensor err xs) hc = hc"
  using assms
  by (auto simp: fsm_objects_def store_def c_outs_def fsm_call_def fsm_sigs_name fsm_def is_out_def fun_upd_idem)

lemma single_split: "[x] = dn @ ys \<Longrightarrow> dn = [] \<or> dn = [x]"
  by (cases dn) auto

section \<open>In time\<close>

text \<open>A clock whose readings are at most 19 microseconds apart, sleeping aside: 256 of them fit the time-out of a loop.\<close>

definition prompt :: "int stream \<Rightarrow> bool" where
  "prompt clk \<longleftrightarrow> clock_runs clk \<and> (\<forall>i. clk !! i \<le> clk !! Suc i \<and> clk !! Suc i \<le> clk !! i + 19000)"

lemma prompt_ticks: "0 < d \<Longrightarrow> d \<le> 19000 \<Longrightarrow> prompt (ticks d)"
  by (simp add: prompt_def ticks_runs algebra_simps del: snth.simps)

lemma prompt_sdrop: "prompt clk \<Longrightarrow> prompt (sdrop k clk)"
  by (simp add: prompt_def clock_runs_sdrop sdrop_snth del: snth.simps)

lemma prompt_stl: "prompt clk \<Longrightarrow> prompt (stl clk)"
  using prompt_sdrop [of clk 1] by simp

lemma prompt_sleep_for: "prompt clk \<Longrightarrow> prompt (sleep_for ms clk)"
  by (simp add: prompt_def clock_runs_sleep_for del: snth.simps)

lemma prompt_step: "prompt clk \<Longrightarrow> shd (stl clk) \<le> shd clk + 19000"
  unfolding prompt_def by (metis snth.simps)

lemma prompt_mono: "prompt clk \<Longrightarrow> clock_mono clk"
  unfolding prompt_def clock_mono_def by (metis lift_Suc_mono_le)

lemma prompt_le: "prompt clk \<Longrightarrow> clk !! k \<le> shd clk + int k * 19000"
proof (induction k)
  case (Suc k)
  then have "clk !! Suc k \<le> clk !! k + 19000" unfolding prompt_def by blast
  with Suc show ?case by (simp add: algebra_simps del: snth.simps)
qed simp

lemma prompt_timely: "prompt clk \<Longrightarrow> loop_timely clk"
proof -
  assume p: "prompt clk"
  have "steady 5 256 (sdrop j clk)" for j
    unfolding steady_def
  proof (intro allI impI)
    fix k :: nat
    assume "k < 256"
    then have "int (Suc k) * 19000 < 5 * 1000000" by simp
    then show "sdrop j clk !! Suc k < shd (sdrop j clk) + 5 * 1000000"
      using prompt_le [OF prompt_sdrop [OF p], of j "Suc k"] by linarith
  qed
  with p show ?thesis by (simp add: loop_timely_def timely_def prompt_def)
qed

text \<open>How long a loop runs beyond its time-out: until the next reading and the one after it.\<close>

definition ends_by :: "int \<Rightarrow> int stream \<Rightarrow> int stream \<Rightarrow> bool" where
  "ends_by e clk clk' \<longleftrightarrow> (prompt clk \<longrightarrow> shd clk \<le> e + 19000 \<longrightarrow> prompt clk' \<and> shd clk' \<le> e + 38000)"

lemma ends_by_stop: "ends_by e clk clk" "ends_by e clk (stl clk)"
  using prompt_step [of clk] by (auto simp: ends_by_def prompt_stl)

lemma ends_by_step:
  "\<not> expired_impl (shd clk) t \<Longrightarrow> 0 < m_tout_preset t \<Longrightarrow> e = m_start t + m_tout_preset t * 1000000 \<Longrightarrow> ends_by e (stl clk) clk' \<Longrightarrow> ends_by e clk clk'"
  using prompt_step [of clk] prompt_stl [of clk] by (auto simp: ends_by_def expired_iff)

abbreviation loop_end :: "TimeOutChrono \<Rightarrow> int" where
  "loop_end t \<equiv> m_start t + m_tout_preset t * 1000000"

lemma rx_loop_ends:
  fixes p :: "('c, 'z) Peer_scheme"
  assumes "rx_loop C t clk p = Some r" and t: "0 < m_tout_preset t"
  shows "ends_by (loop_end t) clk (snd r)"
proof -
  have "0 < m_tout_preset t \<longrightarrow> ends_by (loop_end t) clk (snd r)"
  proof (rule rx_loop.raw_induct [where P = "\<lambda>C t clk p r. 0 < m_tout_preset t \<longrightarrow> ends_by (loop_end t) clk (snd r)", OF _ assms(1)])
    fix f :: "(u8, 'c) comm \<Rightarrow> TimeOutChrono \<Rightarrow> int stream \<Rightarrow> ('c, 'z) Peer_scheme \<Rightarrow> (('c, 'z) Peer_scheme \<times> int stream) option"
      and C t clk p r
    assume IH: "\<And>C t clk p r. f C t clk p = Some r \<Longrightarrow> 0 < m_tout_preset t \<longrightarrow> ends_by (loop_end t) clk (snd r)"
      and r: "(if expired_impl (shd clk) t then Some (p, stl clk) else do { p \<leftarrow> rx_turn C p; f C t (stl clk) p }) = Some r"
    show "0 < m_tout_preset t \<longrightarrow> ends_by (loop_end t) clk (snd r)"
      using r by (auto simp: ends_by_stop elim!: bind_SomeE split: if_splits intro: ends_by_step [OF _ _ refl IH [THEN mp]])
  qed
  with t show ?thesis by blast
qed

lemma tx_loop_ends:
  fixes p :: "('c, 'z) Peer_scheme"
  assumes "tx_loop C t clk p = Some r" and t: "0 < m_tout_preset t"
  shows "ends_by (loop_end t) clk (snd r)"
proof -
  have "0 < m_tout_preset t \<longrightarrow> ends_by (loop_end t) clk (snd r)"
  proof (rule tx_loop.raw_induct [where P = "\<lambda>C t clk p r. 0 < m_tout_preset t \<longrightarrow> ends_by (loop_end t) clk (snd r)", OF _ assms(1)])
    fix f :: "(u8, 'c) comm \<Rightarrow> TimeOutChrono \<Rightarrow> int stream \<Rightarrow> ('c, 'z) Peer_scheme \<Rightarrow> (('c, 'z) Peer_scheme \<times> int stream) option"
      and C t clk p r
    assume IH: "\<And>C t clk p r. f C t clk p = Some r \<Longrightarrow> 0 < m_tout_preset t \<longrightarrow> ends_by (loop_end t) clk (snd r)"
      and r: "(if tx_msg_buffer p = [] then Some (p, clk) else if expired_impl (shd clk) t then Some (p, stl clk)
            else do { p \<leftarrow> tx_turn C p; f C t (stl clk) p }) = Some r"
    show "0 < m_tout_preset t \<longrightarrow> ends_by (loop_end t) clk (snd r)"
      using r by (auto simp: ends_by_stop elim!: bind_SomeE split: if_splits intro: ends_by_step [OF _ _ refl IH [THEN mp]])
  qed
  with t show ?thesis by blast
qed

text \<open>A phase with a time-out of five milliseconds.\<close>

definition phase_time :: "int stream \<Rightarrow> int stream \<Rightarrow> bool" where
  "phase_time clk clk' \<longleftrightarrow> (prompt clk \<longrightarrow> prompt clk' \<and> shd clk' \<le> shd clk + 5038000)"

lemma phase_timeI: "ends_by (shd clk + 5000000) (stl clk) clk' \<Longrightarrow> phase_time clk clk'"
  using prompt_step [of clk] prompt_stl [of clk] by (auto simp: ends_by_def phase_time_def)

lemma rx_phase_time: "rx_phase C 5 clk p = Some (p', clk') \<Longrightarrow> phase_time clk clk'"
  by (rule phase_timeI) (auto simp: rx_phase_def Let_def start_impl_def preset_impl_def dest: rx_loop_ends)

lemma tx_phase_time: "tx_phase C 5 clk p = Some (p', clk') \<Longrightarrow> phase_time clk clk'"
  by (rule phase_timeI) (auto simp: tx_phase_def Let_def start_impl_def preset_impl_def elim!: bind_SomeE dest: tx_loop_ends)

text \<open>A turn of \<^verbatim>\<open>main\<close>: four phases and the pause.\<close>

lemma main_turn_time:
  assumes "main_turn malloc clk st = Some (st', clk')" and "prompt clk"
  shows "shd clk' < shd clk + 26000000"
proof -
  obtain a c1 c2 where t: "server_turn malloc clk st = Some (a, c1)" "client_turn c1 a = Some (st', c2)" "clk' = sleep_for 5 c2"
    using assms(1) by (auto simp: main_turn_def elim!: bind_SomeE)
  obtain p c3 q p' where s: "rx_phase ServerCom 5 clk (lb_srv st) = Some (p, c3)" "tx_phase ServerCom 5 c3 q = Some (p', c1)"
    "serve_msgs malloc (rx_msg_buffer p) p = Some q"
    using t(1) by (auto simp: server_turn_def RpcServer_doLoop_def SERVER_LOOP_TOUT_MS_def elim!: bind_SomeE)
  obtain u c4 v where c: "tx_phase ClientCom 5 c1 (lb_cln a) = Some (u, c4)" "rx_phase ClientCom 5 c4 u = Some (v, c2)"
    using t(2) by (auto simp: client_turn_def RpcClient_doLoop_def CLIENT_LOOP_TOUT_MS_def elim!: bind_SomeE)
  show ?thesis using rx_phase_time [OF s(1)] tx_phase_time [OF s(2)] tx_phase_time [OF c(1)] rx_phase_time [OF c(2)] assms(2) t(3)
    by (auto simp: phase_time_def)
qed

lemma main_turn_keeps:
  assumes "main_turn malloc clk st = Some (st', clk')"
  shows "keeps_nodes (srv_registry (lb_server st)) (srv_registry (lb_server st'))" and "keeps_nodes (cln_registry (lb_client st)) (cln_registry (lb_client st'))"
proof -
  obtain a c1 c2 where t: "server_turn malloc clk st = Some (a, c1)" "client_turn c1 a = Some (st', c2)"
    using assms by (auto simp: main_turn_def elim!: bind_SomeE)
  have "lb_client a = lb_client st" "lb_server st' = lb_server a"
    using t by (auto simp: server_turn_def client_turn_def elim!: bind_SomeE)
  with server_turn_framed(2) [OF t(1)] client_turn_framed(2) [OF t(2)]
  show "keeps_nodes (srv_registry (lb_server st)) (srv_registry (lb_server st'))" "keeps_nodes (cln_registry (lb_client st)) (cln_registry (lb_client st'))"
    by simp_all
qed

lemma fsm_sizes:
  assumes "fsm_objects hc state sensor err xs" and "hc err = Some (O_string s)" and "length s \<le> 100"
  shows "wire_size (map request [fsm_call state sensor err xs]) \<le> 256" and "wire_size (map (reply fsm_sigs) [fsm_call state sensor err xs]) \<le> 256"
proof -
  have "length fsm_name = 32" by (simp add: fsm_name_value str_def)
  with assms show "wire_size (map request [fsm_call state sensor err xs]) \<le> 256" "wire_size (map (reply fsm_sigs) [fsm_call state sensor err xs]) \<le> 256"
    by (auto simp: fsm_objects_def wire_size_def wire_def request_def reply_def c_result_def c_outs_def fsm_call_def fsm_sigs_name fsm_def
        c_str_def encode_def encode_result_def is_out_def write_obj_def write_container_def
        write_int_def write_float_def Let_def)
qed

text \<open>The end of the program, after the loop.\<close>

lemma main_ends:
  assumes start: "main_start stx srx ctx crx hs hc state sensor err = Some (Some q, Some k, a)"
    and loop: "main_loop malloc (start_impl (shd clk) (preset_impl 50 (TimeOutChrono_new 0))) (stl clk) a = Some (b, clk')"
    and inv: "loop_inv sigs reps reqs b"
    and names: "functions_map (cln_registry (lb_client b)) name = Some (Some q)" "functions_map (srv_registry (lb_server b)) name = Some (Some k)"
  obtains st where "main_program malloc clk stx srx ctx crx hs hc state sensor err = Some st" and "cln_mem (lb_client st) = cln_mem (lb_client b)"
    and "cln_calls (lb_client st) = cln_calls (lb_client b)"
proof -
  have has: "server_has sigs (lb_server b)" "client_has sigs (reps @ reqs) (lb_client b)" using inv by (simp_all add: loop_inv_def)
  from client_disconnects [OF has(2) names(1)] server_disconnects [OF has(1) names(2)] obtain c s where
    c: "RpcClient_disconnect (Some q) (lb_client b) = Some (None, c)" "cln_mem c = cln_mem (lb_client b)" "cln_calls c = cln_calls (lb_client b)"
    and s: "RpcServer_disconnect (Some k) (lb_server b) = Some s" by metis
  have "main_program malloc clk stx srx ctx crx hs hc state sensor err = Some (b\<lparr>lb_client := c, lb_server := s\<rparr>)"
    using start loop c(1) s by (simp add: main_program_def Let_def)
  with c show thesis by (intro that [of "b\<lparr>lb_client := c, lb_server := s\<rparr>"]) simp_all
qed

lemma fsm_completed:
  assumes "completed fsm_sigs [fsm_call state sensor err xs] a b" and "fsm_objects hc state sensor err xs"
    and "cln_mem (lb_client a) = hc" and "cln_calls (lb_client a) = []"
  shows "cln_mem (lb_client b) = hc \<and> (\<exists>rv. cln_calls (lb_client b) = [(0, rv)] \<and> return_value T_int (Some (O_int 0)) rv)"
  using assms fsm_store [OF assms(2)]
  by (auto simp: completed_def list_all2_Cons1 answered_def c_calls_def fsm_call_def fsm_sigs_name fsm_def)

context allocator
begin

lemma main_program_ok:
  assumes "length stx = 1024" and "length srx = 1024" and "length ctx = 1024" and "length crx = 1024" and "finite (dom hs)"
    and hc: "fsm_objects hc state sensor err xs" and clk: "clock_runs clk" "clock_mono clk"
  shows "\<exists>st. main_program malloc clk stx srx ctx crx hs hc state sensor err = Some st \<and> cln_mem (lb_client st) = hc \<and>
           (cln_calls (lb_client st) = [] \<or> (\<exists>rv. cln_calls (lb_client st) = [(0, rv)] \<and> return_value T_int (Some (O_int 0)) rv))"
proof -
  let ?c = "fsm_call state sensor err xs"
  obtain q k a where a: "main_start stx srx ctx crx hs hc state sensor err = Some (Some q, Some k, a)" "loop_inv fsm_sigs [] [?c] a"
    "cln_mem (lb_client a) = hc" "cln_calls (lb_client a) = []"
    "functions_map (cln_registry (lb_client a)) fsm_name = Some (Some q)" "functions_map (srv_registry (lb_server a)) fsm_name = Some (Some k)"
    using main_start_ok [OF assms(1-6)] by metis
  let ?t = "start_impl (shd clk) (preset_impl 50 (TimeOutChrono_new 0))"
  have t: "0 < m_tout_preset ?t" by (simp add: start_impl_def preset_impl_def)
  have c1: "clock_runs (stl clk)" "clock_mono (stl clk)" using clock_runs_stl [OF clk(1)] clock_mono_sdrop [OF clk(2), of 1] by simp_all
  obtain n where "expired_impl (stl clk !! n) ?t" using clock_runs_expires [OF c1(1) t] ..
  from main_loop_ok [OF a(2) c1 t this] obtain b clk' dn reps reqs where b: "main_loop malloc ?t (stl clk) a = Some (b, clk')" "[?c] = dn @ reps @ reqs"
    "loop_inv fsm_sigs reps reqs b" "completed fsm_sigs dn a b" "keeps_nodes (srv_registry (lb_server a)) (srv_registry (lb_server b))"
    "keeps_nodes (cln_registry (lb_client a)) (cln_registry (lb_client b))" by auto
  have n: "functions_map (cln_registry (lb_client b)) fsm_name = Some (Some q)" "functions_map (srv_registry (lb_server b)) fsm_name = Some (Some k)"
    using b(5,6) a(5,6) by (simp_all add: keeps_nodes_def)
  obtain st where st: "main_program malloc clk stx srx ctx crx hs hc state sensor err = Some st" "cln_mem (lb_client st) = cln_mem (lb_client b)"
    "cln_calls (lb_client st) = cln_calls (lb_client b)" using main_ends [OF a(1) b(1,3) n] .
  show ?thesis
  proof (cases "dn = []")
    case True
    with b(4) a(3,4) st show ?thesis by (simp add: completed_Nil)
  next
    case False
    then have "dn = [?c]" using single_split [OF b(2)] by blast
    then have "completed fsm_sigs [?c] a b" using b(4) by simp
    from fsm_completed [OF this hc a(3,4)] st show ?thesis by auto
  qed
qed

text \<open>With a prompt clock there is time for two turns, and the call is answered.\<close>

lemma main_loop_two_turns:
  assumes inv: "loop_inv sigs reps reqs st" and clk: "prompt clk" and t: "m_tout_preset t = 50" "shd clk \<le> m_start t + 19000"
    and small: "wire_size (map request reqs) \<le> 256" "wire_size (map (reply sigs) (reps @ reqs)) \<le> 256"
  shows "\<exists>st' clk'. main_loop malloc t clk st = Some (st', clk') \<and> loop_inv sigs [] [] st' \<and> completed sigs (reps @ reqs) st st' \<and>
           keeps_nodes (srv_registry (lb_server st)) (srv_registry (lb_server st')) \<and> keeps_nodes (cln_registry (lb_client st)) (cln_registry (lb_client st'))"
proof -
  have t0: "0 < m_tout_preset t" using t by simp
  note p1 = prompt_stl [OF clk]
  obtain a k1 dn r1 q1 where a: "main_turn malloc (stl clk) st = Some (a, sleep_for 5 (sdrop k1 (stl clk)))" "reps @ reqs = dn @ r1 @ q1"
    "loop_inv sigs r1 q1 a" "completed sigs dn st a" "all_sent (lb_client a)"
    "wire_size (map request q1) \<le> 256" "wire_size (map (reply sigs) (r1 @ q1)) \<le> 256"
    using main_turn_sends [OF inv prompt_timely [OF p1] small] .
  let ?c1 = "sleep_for 5 (sdrop k1 (stl clk))"
  have p2: "prompt ?c1" using prompt_sleep_for [OF prompt_sdrop [OF p1]] .
  have e: "\<not> expired_impl (shd clk) t" "\<not> expired_impl (shd ?c1) t"
    using t t0 main_turn_time [OF a(1) p1] prompt_step [OF clk] by (simp_all add: expired_iff)
  obtain b k2 where b: "main_turn malloc (stl ?c1) a = Some (b, sleep_for 5 (sdrop k2 (stl ?c1)))" "loop_inv sigs [] [] b"
    "completed sigs (r1 @ q1) a b"
    using main_turn_finishes [OF a(3,5) prompt_timely [OF prompt_stl [OF p2]] a(6,7)] .
  let ?c2 = "sleep_for 5 (sdrop k2 (stl ?c1))"
  have p3: "prompt ?c2" using prompt_sleep_for [OF prompt_sdrop [OF prompt_stl [OF p2]]] .
  then have c2: "clock_runs ?c2" "clock_mono ?c2" using prompt_mono by (simp_all add: prompt_def)
  obtain n where "expired_impl (?c2 !! n) t" using clock_runs_expires [OF c2(1) t0] ..
  from main_loop_ok [OF b(2) c2 t0 this] obtain d clk' where d: "main_loop malloc t ?c2 b = Some (d, clk')" "loop_inv sigs [] [] d" "completed sigs [] b d"
    "keeps_nodes (srv_registry (lb_server b)) (srv_registry (lb_server d))" "keeps_nodes (cln_registry (lb_client b)) (cln_registry (lb_client d))" by auto
  have "main_loop malloc t clk st = Some (d, clk')"
    using e a(1) b(1) d(1) by (simp add: main_loop.simps [of malloc t clk st] main_loop.simps [of malloc t ?c1 a])
  moreover have "completed sigs (reps @ reqs) st d"
    using completed_trans [OF a(4) completed_trans [OF b(3) d(3)]] by (simp add: a(2))
  ultimately show ?thesis using d(2,4,5) main_turn_keeps [OF a(1)] main_turn_keeps [OF b(1)] by (blast intro: keeps_nodes_trans)
qed

lemma main_program_answers:
  assumes "length stx = 1024" and "length srx = 1024" and "length ctx = 1024" and "length crx = 1024" and "finite (dom hs)"
    and hc: "fsm_objects hc state sensor err xs" "hc err = Some (O_string s)" "length s \<le> 100" and clk: "prompt clk"
  shows "\<exists>st rv. main_program malloc clk stx srx ctx crx hs hc state sensor err = Some st \<and> cln_mem (lb_client st) = hc \<and>
           cln_calls (lb_client st) = [(0, rv)] \<and> return_value T_int (Some (O_int 0)) rv"
proof -
  let ?c = "fsm_call state sensor err xs"
  obtain q k a where a: "main_start stx srx ctx crx hs hc state sensor err = Some (Some q, Some k, a)" "loop_inv fsm_sigs [] [?c] a"
    "cln_mem (lb_client a) = hc" "cln_calls (lb_client a) = []"
    "functions_map (cln_registry (lb_client a)) fsm_name = Some (Some q)" "functions_map (srv_registry (lb_server a)) fsm_name = Some (Some k)"
    using main_start_ok [OF assms(1-6)] by metis
  let ?t = "start_impl (shd clk) (preset_impl 50 (TimeOutChrono_new 0))"
  have t: "m_tout_preset ?t = 50" "shd (stl clk) \<le> m_start ?t + 19000" using prompt_step [OF clk] by (simp_all add: start_impl_def preset_impl_def)
  have sz: "wire_size (map request [?c]) \<le> 256" "wire_size (map (reply fsm_sigs) ([] @ [?c])) \<le> 256" using fsm_sizes [OF hc] by simp_all
  obtain b clk' where b: "main_loop malloc ?t (stl clk) a = Some (b, clk')" "loop_inv fsm_sigs [] [] b" "completed fsm_sigs [?c] a b"
    "keeps_nodes (srv_registry (lb_server a)) (srv_registry (lb_server b))" "keeps_nodes (cln_registry (lb_client a)) (cln_registry (lb_client b))"
    using main_loop_two_turns [OF a(2) prompt_stl [OF clk] t sz] by auto
  have n: "functions_map (cln_registry (lb_client b)) fsm_name = Some (Some q)" "functions_map (srv_registry (lb_server b)) fsm_name = Some (Some k)"
    using b(4,5) a(5,6) by (simp_all add: keeps_nodes_def)
  obtain st where "main_program malloc clk stx srx ctx crx hs hc state sensor err = Some st" "cln_mem (lb_client st) = cln_mem (lb_client b)"
    "cln_calls (lb_client st) = cln_calls (lb_client b)" using main_ends [OF a(1) b(1,2) n] .
  with fsm_completed [OF b(3) hc(1) a(3,4)] show ?thesis by auto
qed

end

end
