(* ===== verification/Decode.thy ===== *)
theory Decode
  imports Server
begin

text \<open>
  The server's decoding of a request (\<^verbatim>\<open>src/src/bmRPCMarshaller.h\<close>) on any bytes, not only on those that a client sends: what
  \<^verbatim>\<open>deserialize_in_args\<close> reads without leaving the message is the encoding of objects of the function's types, and the function is called with
  these objects. A message that does not begin with such an encoding is read beyond its end.
\<close>

section \<open>Reading values\<close>

lemma copy_object_SomeD:
  assumes "LENGTH('a::len) = 8 * n" and "copy_object s = Some (w :: 'a word)"
  shows "s = bytes_of n w @ drop n s"
proof -
  have s: "n \<le> length s" "w = word_of (take n s)" using assms by (auto simp: copy_object_def split: if_splits)
  have "bytes_of (length (take n s)) (word_of (take n s) :: 'a word) = take n s" using assms(1) s(1) by (intro bytes_of_word_of) simp
  with s show ?thesis by simp
qed

lemma read_float_SomeD:
  assumes "LENGTH('a::len) = 8 * n" and "read_float s = Some (w :: 'a word)"
  shows "s = write_float [] w @ drop n s"
proof -
  obtain d where d: "copy_object s = Some (d :: 'a word)" "w = dyn_byteswap d" using assms(2) by (auto simp: read_float_def elim!: bind_SomeE)
  then show ?thesis using copy_object_SomeD [OF assms(1) d(1)] assms(1) by (simp add: write_float_def dyn_byteswap_involutive [OF assms(1)])
qed

lemma read_int_SomeD:
  assumes "LENGTH('a::len) = 8 * n" and "read_int s = Some (w :: 'a word)"
  shows "s = write_int [] w @ drop n s"
  using read_float_SomeD [OF assms(1), of s w] assms by (simp add: read_int_def read_float_def write_int_def write_float_def sta_byteswap_eq_dyn_byteswap [OF assms(1)])

lemma read_char_SomeD: "read_char s = Some w \<Longrightarrow> s = write_char [] w @ drop 1 s"
  by (auto simp: read_char_def write_char_def split: list.splits)

lemma sub_vector_SomeD:
  assumes n: "read_int (drop ix data) = Some (n :: u16)" and x: "sub_vector data (Suc (Suc ix)) (unat n) = Some x"
  shows "drop ix data = write_container [] x @ drop (Suc (Suc (ix + unat n))) data \<and> length x < 65536 \<and> unat n = length x"
proof -
  let ?s = "drop (Suc (Suc ix)) data"
  have x: "x = take (unat n) ?s" "unat n = length x" using x by (auto simp: sub_vector_def split: if_splits)
  have "length x < 65536" unfolding x(2) [symmetric] using unsigned_less [of n] by simp
  moreover have "(of_nat (length x) :: u16) = n" unfolding x(2) [symmetric] by simp
  moreover have "drop ix data = write_int [] n @ ?s" using read_int_SomeD [OF _ n, of 2] by simp
  moreover have "?s = x @ drop (unat n) ?s" unfolding x(1) by (rule append_take_drop_id [symmetric])
  moreover have "drop (unat n) ?s = drop (Suc (Suc (ix + unat n))) data" by (simp add: add.commute)
  ultimately show ?thesis using x(2) by (simp add: write_container_def)
qed

lemma read_at:
  "read_int (drop ix data) = Some (a :: u16) \<Longrightarrow> drop ix data = bytes_of 2 (sta_byteswap a) @ drop (Suc (Suc ix)) data"
  "read_int (drop ix data) = Some (b :: u32) \<Longrightarrow> drop ix data = bytes_of 4 (sta_byteswap b) @ drop (ix + 4) data"
  "read_int (drop ix data) = Some (c :: u64) \<Longrightarrow> drop ix data = bytes_of 8 (sta_byteswap c) @ drop (ix + 8) data"
  "read_float (drop ix data) = Some (b :: u32) \<Longrightarrow> drop ix data = bytes_of 4 (dyn_byteswap b) @ drop (ix + 4) data"
  "read_float (drop ix data) = Some (c :: u64) \<Longrightarrow> drop ix data = bytes_of 8 (dyn_byteswap c) @ drop (ix + 8) data"
  "read_char (drop ix data) = Some d \<Longrightarrow> drop ix data = d # drop (Suc ix) data"
  using read_int_SomeD [of 2 "drop ix data" a] read_int_SomeD [of 4 "drop ix data" b] read_int_SomeD [of 8 "drop ix data" c]
    read_float_SomeD [of 4 "drop ix data" b] read_float_SomeD [of 8 "drop ix data" c] read_char_SomeD [of "drop ix data" d]
  by (simp_all add: write_int_def write_float_def write_char_def add.commute)

section \<open>Reading arguments\<close>

text \<open>What one turn of the loop reads is the encoding of an object of the parameter's type.\<close>

lemma deserialize_in_arg_SomeD:
  assumes t: "ParamType_valid t" and d: "deserialize_in_arg malloc (ParamType_in_id t) data ix h = Some (v, ix', h')"
  shows "\<exists>x. has_type t x \<and> obj_small x \<and> drop ix data = write_obj [] x @ drop ix' data \<and> ix' = ix + length (write_obj [] x)"
proof (cases "is_container t")
  case False
  have "has_type t x \<and> obj_small x \<and> drop ix data = write_obj [] x @ drop ix' data \<and> ix' = ix + length (write_obj [] x)" if "x = the (getAs t v h)" for x
    using t d False that
    by (cases t)
      (auto simp: is_container_def deserialize_in_arg_def AnyArg_of_def ucast_u64 has_type_def obj_small_def write_obj_def add.commute
        write_int_def write_float_def write_char_def elim!: bind_SomeE intro: read_at)
  then show ?thesis by blast
next
  case True
  have "has_type t x \<and> obj_small x \<and> drop ix data = write_obj [] x @ drop ix' data \<and> ix' = ix + length (write_obj [] x)" if "x = the (h' (malloc h))" for x
    using t d True that
    by (cases t)
      (auto simp: is_container_def deserialize_in_arg_def Let_def has_type_def obj_small_def write_obj_def length_write_container
        dest!: sub_vector_SomeD elim!: bind_SomeE)
  then show ?thesis by blast
qed

lemma deserialize_in_args_from_SomeD:
  assumes "list_all ParamType_valid ts" and "deserialize_in_args_from malloc (map ParamType_in_id ts) data ix h = Some (vs, h')"
  shows "\<exists>xs rest. drop ix data = encode xs @ rest \<and> args_ok ts xs"
  using assms
proof (induction ts arbitrary: ix h vs h')
  case (Cons t ts)
  obtain v ix1 h1 vs1 where d: "deserialize_in_arg malloc (ParamType_in_id t) data ix h = Some (v, ix1, h1)"
    "deserialize_in_args_from malloc (map ParamType_in_id ts) data ix1 h1 = Some (vs1, h')"
    using Cons.prems(2) by (auto elim!: bind_SomeE)
  obtain x where x: "has_type t x" "obj_small x" "drop ix data = write_obj [] x @ drop ix1 data"
    using deserialize_in_arg_SomeD [OF _ d(1)] Cons.prems(1) by auto
  obtain xs rest where xs: "drop ix1 data = encode xs @ rest" "args_ok ts xs" using Cons.IH [OF _ d(2)] Cons.prems(1) by auto
  show ?case using x xs by (intro exI [of _ "x # xs"] exI [of _ rest]) (simp add: args_ok_def encode_def)
qed (auto simp: args_ok_def)

context allocator
begin

lemma in_args_sound:
  assumes "list_all ParamType_valid Args" and "finite (dom h)" and "deserialize_in_args malloc (codify_in_args Args) data h = Some (vs, h')"
  shows "\<exists>xs rest. data = encode xs @ rest \<and> args_ok Args xs \<and> get_params Args vs h' = Some xs \<and> owns Args vs h h'"
proof -
  have d: "deserialize_in_args_from malloc (map ParamType_in_id Args) data 0 h = Some (vs, h')"
    using assms(3) by (simp add: deserialize_in_args_def codify_valid(1) [OF assms(1)])
  obtain xs rest where xs: "data = encode xs @ rest" "args_ok Args xs" using deserialize_in_args_from_SomeD [OF assms(1) d] by auto
  then show ?thesis using deserialize_in_args_from_ok [OF xs(2) assms(2), of "[]" rest] d by auto
qed

lemma serve_malformed:
  assumes ok: "registry_ok sk_id (srv_registry p)" and reg: "registered (srv_registry p) (bm_name msg) = Some sk" and sk: "skeleton_ok R Args func sk"
    and h: "finite (dom (srv_mem p))" and bad: "\<nexists>xs rest. bm_value msg = encode xs @ rest \<and> args_ok Args xs"
  shows "serve_msg malloc msg p = None"
proof -
  obtain q r1 where g: "Registry_get (bm_name msg) (srv_registry p) = (q, r1)" by (cases "Registry_get (bm_name msg) (srv_registry p)")
  have q: "deref r1 q = Some sk" using get_ok(3) [OF ok g] reg by simp
  then have "q \<noteq> None" by (cases q) auto
  have v: "list_all ParamType_valid Args" using sk by (simp add: skeleton_ok_def ParamTraits_valid_def)
  have "deserialize_in_args malloc (codify_in_args Args) (bm_value msg) (srv_mem p) = None"
  proof (rule ccontr)
    assume "deserialize_in_args malloc (codify_in_args Args) (bm_value msg) (srv_mem p) \<noteq> None"
    then obtain vs h' where "deserialize_in_args malloc (codify_in_args Args) (bm_value msg) (srv_mem p) = Some (vs, h')" by auto
    from in_args_sound [OF v h this] bad show False by blast
  qed
  then have "Skeleton_dispatch malloc (Skeleton_unmarshall msg sk) (srv_mem p) = None"
    using sk by (simp add: Skeleton_dispatch_def skeleton_ok_def Skeleton_unmarshall_def f_lambda_def unmarshall_args_in_def)
  with g q \<open>q \<noteq> None\<close> show ?thesis by (simp add: serve_msg_def)
qed

end

end
