(* ===== verification/Call_Properties.thy ===== *)
theory Call_Properties
  imports Main_Program Decode
begin

text \<open>
  Properties of the registry (\<^verbatim>\<open>src/src/bmRPCRegistry.h\<close>), of the server's and the client's part in a call
  (\<^verbatim>\<open>src/src/bmRPCServer.h\<close>, \<^verbatim>\<open>src/src/bmRPCClient.h\<close>, \<^verbatim>\<open>src/src/bmRPCStub.h\<close>) and of the time-out, with the cases in which the
  code dereferences a pointer that is null or was freed.
\<close>

section \<open>Examples\<close>

definition single :: "bytes \<Rightarrow> 'a \<Rightarrow> 'a FunctionsRegistry" where
  "single name x = \<lparr>functions_map = [name \<mapsto> Some 0], functions_list = [(0, x)], next_node = 1\<rparr>"

lemma registry_ok_single: "getName x = name \<Longrightarrow> registry_ok getName (single name x)"
  by (rule registry_okI) (auto simp: single_def nodes_def split: if_splits)

lemma single_simps [simp]: "functions_map (single name x) = [name \<mapsto> Some 0]" "registered (single name x) = [name \<mapsto> x]"
    "deref (single name x) (Some 0) = Some x"
  by (auto simp: single_def registered_def nodes_def deref_def fun_eq_iff)

definition counter :: remote where
  "counter xs = (case xs of [O_int i] \<Rightarrow> (Some (O_int i), [O_int (i + 1)]) | _ \<Rightarrow> (None, xs))"

definition counter_server :: "u8 ServerCom RpcServer" where
  "counter_server = (RpcServer_new ServerCom (ServerCom_new SharedBuffer_new) [] [] Map.empty)\<lparr>
     srv_registry := single (str ''f'') (Skeleton_new\<lparr>sk_id := str ''f'', sk_func := Some (T_int, [T_int_ref], counter),
       sk_in_args_format := codify_in_args [T_int_ref], sk_r_format := ParamType_r_id T_int\<rparr>)\<rparr>"

definition fresh_client :: "u8 ClientCom RpcClient" where
  "fresh_client = RpcClient_new ClientCom (ClientCom_new SharedBuffer_new) [] [] [7 \<mapsto> O_int 3]"

definition counter_stub :: Stub where
  "counter_stub = Stub_new\<lparr>st_id := str ''f'', st_out_args_format := codify_out_args [T_int_ref], st_r_format := ParamType_r_id T_int\<rparr>"

definition counter_client :: "u8 ClientCom RpcClient" where
  "counter_client = fresh_client\<lparr>cln_registry := single (str ''f'') counter_stub\<rparr>"

definition waiting_client :: "u8 ClientCom RpcClient" where
  "waiting_client = fresh_client\<lparr>cln_registry := single (str ''f'')
     (counter_stub\<lparr>st_invokation_list := [\<lparr>inv_id = 1, inv_callback = Some 9, inv_out_args_addresses = [7]\<rparr>]\<rparr>)\<rparr>"

lemma counter_valid: "ParamTraits_valid T_int [T_int_ref]"
  by (simp add: ParamTraits_valid_def ReturnType_valid_def)

section \<open>The registry\<close>

text \<open>C32. Inserting an element into a registry is inserting it into the map from names to elements, unless the
  name has an element already, which then stays. The pointer that is returned is the one under which the element is
  found afterwards.\<close>

theorem registry_insert_adds:
  assumes ok: "registry_ok getName r" and nn: "functions_map r (getName rpc) \<noteq> Some None"
  shows "\<exists>q r'. Registry_insert getName rpc r = Some (Some q, r') \<and> registry_ok getName r' \<and>
    registered r' = (case registered r (getName rpc) of None \<Rightarrow> (registered r)(getName rpc \<mapsto> rpc) | Some _ \<Rightarrow> registered r) \<and>
    Registry_find (getName rpc) r' = Some q \<and> deref r' (Some q) = registered r' (getName rpc)"
proof (cases "functions_map r (getName rpc)")
  case None
  then have no: "registered r (getName rpc) = None" by (simp add: registered_def)
  obtain q r' where r: "Registry_insert getName rpc r = Some (Some q, r')" "registry_ok getName r'"
      "registered r' = (registered r)(getName rpc \<mapsto> rpc)" "deref r' (Some q) = Some rpc"
    using insert_new [OF ok None] by blast
  then have "Registry_find (getName rpc) r' = Some q" using registry_node_map [OF r(2,4)] by (simp add: Registry_find_def)
  with r no show ?thesis by auto
next
  case (Some p)
  then obtain q where q: "functions_map r (getName rpc) = Some (Some q)" using nn by (cases p) auto
  then obtain x where "nodes r q = Some x" using registry_okD(4) [OF ok] by blast
  with q have "registered r (getName rpc) = Some x" by (simp add: registered_def)
  with q ok \<open>nodes r q = Some x\<close> insert_old [of r getName rpc q, OF q] show ?thesis by (auto simp: Registry_find_def deref_nodes)
qed

theorem registry_insert_adds_witness:
  "\<exists>q r'. Registry_insert id (str ''f'') (FunctionsRegistry_new :: bytes FunctionsRegistry) = Some (Some q, r') \<and>
     Registry_find (str ''f'') r' = Some q"
  using registry_insert_adds [OF registry_ok_new, of id "str ''f''"] by (auto simp: FunctionsRegistry_new_def)

text \<open>Removing an element through its pointer removes its name from the map and leaves every other name; the
  pointer is then dangling.\<close>

theorem registry_remove_erases:
  assumes ok: "registry_ok getName r" and q: "deref r (Some q) = Some x"
  shows "\<exists>r'. Registry_remove getName (Some q) r = Some r' \<and> registry_ok getName r' \<and>
    registered r' = (registered r)(getName x := None) \<and> Registry_find (getName x) r' = None \<and> deref r' (Some q) = None"
proof -
  obtain r' where r: "Registry_remove getName (Some q) r = Some r'" "registry_ok getName r'" "registered r' = (registered r)(getName x := None)"
    "deref r' (Some q) = None" using remove_ok [OF assms] by blast
  moreover have "Registry_find (getName x) r' = None" using r(1) q by (auto simp: Registry_remove_def Registry_find_def Let_def)
  ultimately show ?thesis by blast
qed

theorem registry_remove_erases_witness:
  "\<exists>r'. Registry_remove id (Some 0) (single (str ''f'') (str ''f'')) = Some r' \<and> registered r' (str ''f'') = None"
proof -
  have ok: "registry_ok id (single (str ''f'') (str ''f''))" by (simp add: registry_ok_single)
  show ?thesis using registry_remove_erases [OF ok single_simps(3)] by auto
qed

section \<open>The server\<close>

text \<open>C16. A request for a connected function, with encoded arguments of its types, is answered with one message: it
  has the name and the invocation number of the request and holds the encoded result and output arguments of the
  function. The memory that the arguments took is given back, and the function stays connected.\<close>

theorem server_replies:
  assumes "allocator malloc" and "registry_ok sk_id (srv_registry p)" and "registered (srv_registry p) (bm_name msg) = Some sk"
    and "skeleton_ok R Args func sk" and "args_ok Args xs" and "bm_value msg = encode xs" and "remote_typed R Args func xs"
    and "finite (dom (srv_mem p))"
  shows "\<exists>p' sk'. serve_msg malloc msg p = Some p' \<and>
    tx_msg_buffer p' = tx_msg_buffer p @ [\<lparr>bm_name = bm_name msg, bm_id = bm_id msg,
      bm_value = encode_result R (fst (func xs)) @ encode (outs Args (snd (func xs)))\<rparr>] \<and>
    srv_mem p' = srv_mem p \<and> registry_ok sk_id (srv_registry p') \<and>
    registered (srv_registry p') = (registered (srv_registry p))(bm_name msg \<mapsto> sk') \<and> skeleton_ok R Args func sk'"
  by (rule allocator.serve_msg_ok [OF assms]) blast

theorem server_replies_witness:
  "\<exists>p'. serve_msg next_address \<lparr>bm_name = str ''f'', bm_id = 1, bm_value = encode [O_int 3]\<rparr> counter_server = Some p' \<and>
     tx_msg_buffer p' = [\<lparr>bm_name = str ''f'', bm_id = 1, bm_value = encode [O_int 3] @ encode [O_int 4]\<rparr>]"
proof -
  let ?m = "\<lparr>bm_name = str ''f'', bm_id = 1, bm_value = encode [O_int 3]\<rparr>"
  have 1: "registry_ok sk_id (srv_registry counter_server)" by (simp add: counter_server_def registry_ok_single)
  obtain sk where 2: "registered (srv_registry counter_server) (bm_name ?m) = Some sk" and 3: "skeleton_ok T_int [T_int_ref] counter sk"
    by (simp add: counter_server_def skeleton_ok_def counter_valid)
  have 4: "args_ok [T_int_ref] [O_int 3]" "remote_typed T_int [T_int_ref] counter [O_int 3]" "finite (dom (srv_mem counter_server))"
    by (simp_all add: args_ok_def remote_typed_def counter_def result_ok_def ReturnType_valid_def has_type_def obj_small_def
        counter_server_def RpcServer_new_def)
  have 5: "tx_msg_buffer counter_server = []" by (simp add: counter_server_def RpcServer_new_def)
  have 6: "encode_result T_int (Some (O_int 3)) = encode [O_int 3]" by (simp add: encode_result_def encode_def)
  show ?thesis using server_replies [OF heap.allocator_axioms 1 2 3 4(1) _ 4(2,3)] 5 6
    by (auto simp: counter_def is_out_def)
qed

text \<open>C37. A request for a function that is not connected is dropped, but its name stays in the server's map with a
  null pointer: to connect the function afterwards applies the operator \<^verbatim>\<open>*\<close> to that pointer.\<close>

theorem unknown_request_breaks_connect:
  assumes "functions_map (srv_registry p) (full_name R name Args) = None" and "bm_name msg = full_name R name Args" and "Args \<noteq> []"
  shows "\<exists>p'. serve_msg malloc msg p = Some p' \<and> tx_msg_buffer p' = tx_msg_buffer p \<and>
    registered (srv_registry p') = registered (srv_registry p) \<and> RpcServer_connect name R Args func p' = None"
proof -
  obtain sargs where s: "stringify Args = Some sargs" using stringify_Some [OF assms(3)] ..
  let ?r = "(srv_registry p)\<lparr>functions_map := (functions_map (srv_registry p))(full_name R name Args \<mapsto> None)\<rparr>"
  have "registered ?r = registered (srv_registry p)" using assms(1) by (auto simp: registered_def nodes_def fun_eq_iff split: option.split)
  moreover have "RpcServer_connect name R Args func (p\<lparr>srv_registry := ?r\<rparr>) = None"
    using s by (simp add: RpcServer_connect_def Registry_insert_def full_name_def)
  ultimately show ?thesis using assms(1,2)
    by (intro exI [of _ "p\<lparr>srv_registry := ?r\<rparr>"]) (simp add: serve_msg_def Registry_get_def)
qed

theorem unknown_request_breaks_connect_witness:
  "\<exists>p'. serve_msg next_address \<lparr>bm_name = full_name T_int (str ''g'') [T_int], bm_id = 1, bm_value = []\<rparr> counter_server = Some p' \<and>
     RpcServer_connect (str ''g'') T_int [T_int] counter p' = None"
proof -
  have "full_name T_int (str ''g'') [T_int] \<noteq> str ''f''" by (simp add: full_name_def stringify_def string_composer_def str_def)
  then have "functions_map (srv_registry counter_server) (full_name T_int (str ''g'') [T_int]) = None" by (simp add: counter_server_def)
  from unknown_request_breaks_connect [OF this, of "\<lparr>bm_name = full_name T_int (str ''g'') [T_int], bm_id = 1, bm_value = []\<rparr>" next_address counter]
  show ?thesis by auto
qed



text \<open>C36. A request for a connected function that does not begin with the encoding of its arguments has undefined behaviour: the server
  reads beyond the end of the message.\<close>

theorem malformed_request_undefined:
  assumes "allocator malloc" and "registry_ok sk_id (srv_registry p)" and "registered (srv_registry p) (bm_name msg) = Some sk"
    and "skeleton_ok R Args func sk" and "finite (dom (srv_mem p))" and "\<nexists>xs rest. bm_value msg = encode xs @ rest \<and> args_ok Args xs"
  shows "serve_msg malloc msg p = None"
  by (rule allocator.serve_malformed [OF assms])

theorem malformed_request_undefined_witness:
  "serve_msg next_address \<lparr>bm_name = str ''f'', bm_id = 1, bm_value = [0, 0, 7]\<rparr> counter_server = None"
proof -
  let ?m = "\<lparr>bm_name = str ''f'', bm_id = 1, bm_value = [0, 0, 7]\<rparr>"
  have 1: "registry_ok sk_id (srv_registry counter_server)" by (simp add: counter_server_def registry_ok_single)
  obtain sk where 2: "registered (srv_registry counter_server) (bm_name ?m) = Some sk" and 3: "skeleton_ok T_int [T_int_ref] counter sk"
    by (simp add: counter_server_def skeleton_ok_def counter_valid)
  have 4: "finite (dom (srv_mem counter_server))" by (simp add: counter_server_def RpcServer_new_def)
  have False if v: "[0, 0, 7] = encode xs @ rest" and a: "args_ok [T_int_ref] xs" for xs rest
  proof -
    obtain x where x: "xs = [x]" "has_type T_int_ref x" using a by (auto simp: args_ok_def list_all2_Cons1)
    then obtain w where w: "x = O_int w" by (cases x) (simp_all add: has_type_def)
    have "length (encode xs) = 4" by (simp add: x(1) w encode_def write_obj_def write_int_def)
    with arg_cong [OF v, of length] show False by simp
  qed
  then have 5: "\<nexists>xs rest. bm_value ?m = encode xs @ rest \<and> args_ok [T_int_ref] xs" by auto
  show ?thesis by (rule malformed_request_undefined [OF heap.allocator_axioms 1 2 3 4 5])
qed

section \<open>The client\<close>

text \<open>C18. A call that is accepted queues one request with the name of the function, the next invocation number and
  the encoded arguments, and records under that number the callback and the addresses of the output arguments; nothing else
  of the client changes.\<close>

theorem call_queues_request:
  assumes "registry_ok st_id (cln_registry p)" and "deref (cln_registry p) (Some q) = Some st" and "\<not> tx_msg_full p"
    and "actuals_ok Args as xs (cln_mem p)"
  shows "\<exists>p' st'. asyncRPC Args (Some q) cb as p = Some (True, p') \<and>
    tx_msg_buffer p' = tx_msg_buffer p @ [\<lparr>bm_name = st_id st, bm_id = st_invokations st + 1, bm_value = encode xs\<rparr>] \<and>
    registry_ok st_id (cln_registry p') \<and> registered (cln_registry p') = (registered (cln_registry p))(st_id st \<mapsto> st') \<and>
    st_invokations st' = st_invokations st + 1 \<and>
    st_invokation_list st' = st_invokation_list st @
      [\<lparr>inv_id = st_invokations st + 1, inv_callback = cb, inv_out_args_addresses = kept Args as\<rparr>] \<and>
    p' = p\<lparr>cln_registry := cln_registry p', tx_msg_buffer := tx_msg_buffer p'\<rparr>"
proof -
  obtain p' st' where r: "asyncRPC Args (Some q) cb as p = Some (True, p')"
    "tx_msg_buffer p' = tx_msg_buffer p @ [\<lparr>bm_name = st_id st, bm_id = st_invokations st + 1, bm_value = encode xs\<rparr>]"
    "registry_ok st_id (cln_registry p')" "registered (cln_registry p') = (registered (cln_registry p))(st_id st \<mapsto> st')"
    "st' = st\<lparr>st_invokations := st_invokations st + 1, st_invokation_id := st_invokations st + 1, st_in_args := encode xs,
       st_invokation_list := st_invokation_list st @ [\<lparr>inv_id = st_invokations st + 1, inv_callback = cb, inv_out_args_addresses = kept Args as\<rparr>]\<rparr>"
    "p' = p\<lparr>cln_registry := cln_registry p', tx_msg_buffer := tx_msg_buffer p'\<rparr>"
    by (rule asyncRPC_ok [OF assms, of cb]) (rule that, assumption+)
  then show ?thesis by (intro exI [of _ p'] exI [of _ st']) simp
qed

lemma counter_client_actual: "actuals_ok [T_int_ref] [Lvalue 7] [O_int 3] (cln_mem counter_client)"
  by (simp add: actual_ok_def has_type_def obj_small_def is_reference_def is_pointer_def counter_client_def fresh_client_def RpcClient_new_def)

theorem call_queues_request_witness:
  "\<exists>p'. asyncRPC [T_int_ref] (Some 0) (Some 9) [Lvalue 7] counter_client = Some (True, p') \<and>
     tx_msg_buffer p' = [\<lparr>bm_name = str ''f'', bm_id = 1, bm_value = encode [O_int 3]\<rparr>]"
proof -
  have 1: "registry_ok st_id (cln_registry counter_client)" by (simp add: counter_client_def registry_ok_single counter_stub_def)
  have 2: "deref (cln_registry counter_client) (Some 0) = Some counter_stub" by (simp add: counter_client_def)
  have 3: "\<not> tx_msg_full counter_client" "tx_msg_buffer counter_client = []"
    by (simp_all add: tx_msg_full_def counter_client_def fresh_client_def RpcClient_new_def)
  show ?thesis using call_queues_request [OF 1 2 3(1) counter_client_actual, of "Some 9"] 3(2)
    by (auto simp: counter_stub_def Stub_new_def)
qed

text \<open>C33. The client's queue never has more than 513 requests: a call is accepted exactly when the handle is not null
  and at most 512 requests are queued, and a call that is refused changes nothing.\<close>

theorem call_queue_bounded:
  assumes "asyncRPC Args h cb as p = Some (b, p')" and "length (tx_msg_buffer p) \<le> 513"
  shows "length (tx_msg_buffer p') \<le> 513 \<and> (b \<longleftrightarrow> h \<noteq> None \<and> length (tx_msg_buffer p) \<le> 512) \<and> (\<not> b \<longrightarrow> p' = p)"
  using assms by (auto simp: asyncRPC_def tx_msg_full_def MAX_CLIENT_MSG_BUFFER_SIZE_def Let_def elim!: bind_SomeE split: if_splits)

definition busy_client :: "nat \<Rightarrow> u8 ClientCom RpcClient" where
  "busy_client n = counter_client\<lparr>tx_msg_buffer := replicate n BinMessage_new\<rparr>"

theorem call_queue_bounded_witness:
  "\<exists>p'. asyncRPC [T_int_ref] (Some 0) None [Lvalue 7] (busy_client 512) = Some (True, p') \<and> length (tx_msg_buffer p') \<le> 513"
proof -
  have 1: "registry_ok st_id (cln_registry (busy_client 512))" by (simp add: busy_client_def counter_client_def registry_ok_single counter_stub_def)
  have 2: "deref (cln_registry (busy_client 512)) (Some 0) = Some counter_stub" by (simp add: busy_client_def counter_client_def)
  have 3: "\<not> tx_msg_full (busy_client 512)" "length (tx_msg_buffer (busy_client 512)) \<le> 513"
    by (simp_all add: tx_msg_full_def busy_client_def MAX_CLIENT_MSG_BUFFER_SIZE_def)
  have 4: "actuals_ok [T_int_ref] [Lvalue 7] [O_int 3] (cln_mem (busy_client 512))" using counter_client_actual by (simp add: busy_client_def)
  obtain p' where p': "asyncRPC [T_int_ref] (Some 0) None [Lvalue 7] (busy_client 512) = Some (True, p')" using asyncRPC_ok [OF 1 2 3(1) 4] by metis
  show ?thesis using p' call_queue_bounded [OF p' 3(2)] by blast
qed

text \<open>C17. The answer to a pending call stores the output arguments at the addresses that the caller passed, in
  order, calls its callback once, with the result, and forgets the call. No other address and no other pending call is
  touched.\<close>

theorem reply_delivers:
  assumes "registry_ok st_id (cln_registry p)" and "registered (cln_registry p) (bm_name msg) = Some st" and "stub_ok R Args st"
    and "find_invokation (bm_id msg) (st_invokation_list st) = Some (d, others)"
    and "bm_value msg = encode_result R r @ encode (outs Args ys)" and "result_ok R r" and "args_ok Args ys"
    and "list_all2 (\<lambda>a y. \<exists>x. cln_mem p a = Some x \<and> obj_base x = obj_base y) (inv_out_args_addresses d) (outs Args ys)"
  shows "\<exists>p' st' rv. deliver_msg msg p = Some p' \<and> cln_mem p' = (cln_mem p)(inv_out_args_addresses d [\<mapsto>] outs Args ys) \<and>
    cln_calls p' = cln_calls p @ (case inv_callback d of None \<Rightarrow> [] | Some cb \<Rightarrow> [(cb, rv)]) \<and> return_value R r rv \<and>
    registered (cln_registry p') = (registered (cln_registry p))(bm_name msg \<mapsto> st') \<and> st_invokation_list st' = others \<and>
    p' = p\<lparr>cln_registry := cln_registry p', cln_mem := cln_mem p', cln_calls := cln_calls p'\<rparr>"
  by (rule deliver_msg_ok [OF assms]) blast

theorem reply_delivers_witness:
  "\<exists>p' rv. deliver_msg \<lparr>bm_name = str ''f'', bm_id = 1, bm_value = encode_result T_int (Some (O_int 3)) @ encode [O_int 4]\<rparr> waiting_client = Some p' \<and>
     cln_mem p' 7 = Some (O_int 4) \<and> cln_calls p' = [(9, rv)] \<and> return_value T_int (Some (O_int 3)) rv"
proof -
  let ?m = "\<lparr>bm_name = str ''f'', bm_id = 1, bm_value = encode_result T_int (Some (O_int 3)) @ encode [O_int 4]\<rparr>"
  let ?d = "\<lparr>inv_id = 1, inv_callback = Some 9, inv_out_args_addresses = [7]\<rparr>"
  let ?st = "counter_stub\<lparr>st_invokation_list := [?d]\<rparr>"
  have 1: "registry_ok st_id (cln_registry waiting_client)" "registered (cln_registry waiting_client) (bm_name ?m) = Some ?st"
    by (simp_all add: waiting_client_def registry_ok_single counter_stub_def)
  have 2: "stub_ok T_int [T_int_ref] ?st" by (simp add: stub_ok_def counter_stub_def counter_valid)
  have 3: "find_invokation (bm_id ?m) (st_invokation_list ?st) = Some (?d, [])" by simp
  have 4: "bm_value ?m = encode_result T_int (Some (O_int 3)) @ encode (outs [T_int_ref] [O_int 4])" by (simp add: is_out_def)
  have 5: "result_ok T_int (Some (O_int 3))" "args_ok [T_int_ref] [O_int 4]"
    by (simp_all add: args_ok_def result_ok_def ReturnType_valid_def has_type_def obj_small_def)
  have 6: "cln_mem waiting_client = [7 \<mapsto> O_int 3]" "cln_calls waiting_client = []" by (simp_all add: waiting_client_def fresh_client_def RpcClient_new_def)
  then have 7: "list_all2 (\<lambda>a y. \<exists>x. cln_mem waiting_client a = Some x \<and> obj_base x = obj_base y) (inv_out_args_addresses ?d) (outs [T_int_ref] [O_int 4])"
    by (simp add: is_out_def)
  show ?thesis using reply_delivers [OF 1 2 3 4 5 7] 6 by (auto simp: is_out_def)
qed

text \<open>A message that answers no pending call, because its name is not connected or its invocation number is not
  pending, makes the client dereference a null pointer or the end of a list.\<close>

theorem stray_reply_undefined:
  assumes ok: "registry_ok st_id (cln_registry p)"
    and "case registered (cln_registry p) (bm_name msg) of None \<Rightarrow> True | Some st \<Rightarrow> find_invokation (bm_id msg) (st_invokation_list st) = None"
  shows "deliver_msg msg p = None"
proof -
  obtain q r where g: "Registry_get (bm_name msg) (cln_registry p) = (q, r)" by (rule prod.exhaust)
  have d: "deref r q = registered (cln_registry p) (bm_name msg)" using get_ok(3) [OF ok g] .
  show ?thesis
  proof (cases "registered (cln_registry p) (bm_name msg)")
    case None
    with d g show ?thesis by (simp add: deliver_msg_def)
  next
    case (Some st)
    then have "find_invokation (bm_id msg) (st_invokation_list st) = None" using assms(2) by simp
    then have "unmarshall_and_dispatch msg st (cln_mem p) = None"
      by (cases "unmarshall_out_args (st_r_format st) (bm_value msg)") (auto simp: unmarshall_and_dispatch_def Let_def)
    with d g Some show ?thesis by (simp add: deliver_msg_def)
  qed
qed

theorem stray_reply_undefined_witness:
  "deliver_msg \<lparr>bm_name = str ''f'', bm_id = 2, bm_value = []\<rparr> waiting_client = None"
proof -
  have ok: "registry_ok st_id (cln_registry waiting_client)" by (simp add: waiting_client_def registry_ok_single counter_stub_def)
  show ?thesis by (rule stray_reply_undefined [OF ok]) (simp add: waiting_client_def)
qed

text \<open>C35. A function that is connected twice has one stub whose count of handles stays one: when the first handle is
  disconnected the stub is freed, and a call or a disconnection through the second handle uses freed memory.\<close>

theorem second_handle_dangles:
  assumes ok: "registry_ok st_id (cln_registry p)" and args: "Args \<noteq> []" and full: "\<not> tx_msg_full p"
    and new: "functions_map (cln_registry p) (full_name R name Args) = None" "functions_map (cln_registry p) name = None"
  shows "\<exists>q p1 p2 p3. RpcClient_connect name R Args p = Some (Some q, p1) \<and> RpcClient_connect name R Args p1 = Some (Some q, p2) \<and>
    RpcClient_disconnect (Some q) p2 = Some (None, p3) \<and>
    asyncRPC Args (Some q) cb as p3 = None \<and> RpcClient_disconnect (Some q) p3 = None"
proof -
  obtain sargs where s: "stringify Args = Some sargs" using stringify_Some [OF args] ..
  let ?id = "full_name R name Args"
  let ?st = "Stub_new\<lparr>st_r_format := ParamType_r_id R, st_in_args_format := codify_in_args Args, st_out_args_format := codify_out_args Args,
      st_id := ?id, st_n_handles := 1\<rparr>"
  have id: "ParamType_name R @ str '' '' @ name @ str '' '' @ sargs = ?id" by (simp add: full_name_def s)
  have "length name < length ?id" using arg_cong [OF id, of length] by (simp add: str_def)
  then have ne: "name \<noteq> ?id" by auto
  have n: "functions_map (cln_registry p) (st_id ?st) = None" using new(1) by simp
  obtain q r where r: "Registry_insert st_id ?st (cln_registry p) = Some (Some q, r)" "registry_ok st_id r" "deref r (Some q) = Some ?st"
    using insert_new [OF ok n] by blast
  have m: "functions_map r = (functions_map (cln_registry p))(?id \<mapsto> Some q)" using r(1) n by (auto simp: Registry_insert_def Let_def)
  let ?p1 = "p\<lparr>cln_registry := r\<rparr>"
  have c1: "RpcClient_connect name R Args p = Some (Some q, ?p1)"
    using r(1) new(2) by (simp add: RpcClient_connect_def Registry_find_def s id)
  have c2: "RpcClient_connect name R Args ?p1 = Some (Some q, ?p1)"
    using m new(2) ne by (simp add: RpcClient_connect_def Registry_find_def s id Registry_insert_def)
  let ?st' = "?st\<lparr>st_n_handles := 0\<rparr>"
  obtain r1 where r1: "assign r (Some q) ?st' = Some r1" "registry_ok st_id r1" "functions_map r1 = functions_map r"
    using assign_ok [OF r(2,3), of ?st'] by auto
  obtain x where x: "deref r1 (Some q) = Some x" using registry_map_node [OF r1(2), of ?id q] m r1(3) by auto
  obtain r2 where r2: "Registry_remove st_id (Some q) r1 = Some r2" "deref r2 (Some q) = None" using remove_ok [OF r1(2) x] by blast
  have c3: "RpcClient_disconnect (Some q) ?p1 = Some (None, p\<lparr>cln_registry := r2\<rparr>)"
    using r(3) r1(1) r2(1) by (simp add: RpcClient_disconnect_def Let_def)
  have "asyncRPC Args (Some q) cb as (p\<lparr>cln_registry := r2\<rparr>) = None" "RpcClient_disconnect (Some q) (p\<lparr>cln_registry := r2\<rparr>) = None"
    using full r2(2) by (simp_all add: asyncRPC_def RpcClient_disconnect_def tx_msg_full_def)
  with c1 c2 c3 show ?thesis by blast
qed

theorem second_handle_dangles_witness:
  "\<exists>q p1 p2 p3. RpcClient_connect (str ''f'') T_int [T_int_ref] fresh_client = Some (Some q, p1) \<and>
     RpcClient_connect (str ''f'') T_int [T_int_ref] p1 = Some (Some q, p2) \<and> RpcClient_disconnect (Some q) p2 = Some (None, p3) \<and>
     asyncRPC [T_int_ref] (Some q) None [Lvalue 7] p3 = None"
proof -
  have r: "cln_registry fresh_client = FunctionsRegistry_new" "\<not> tx_msg_full fresh_client"
    by (simp_all add: fresh_client_def RpcClient_new_def tx_msg_full_def)
  have n: "functions_map (FunctionsRegistry_new :: Stub FunctionsRegistry) name = None" for name by (simp add: FunctionsRegistry_new_def)
  show ?thesis
    using second_handle_dangles [of fresh_client "[T_int_ref]" T_int "str ''f''" None "[Lvalue 7]"] r n registry_ok_new [of st_id] by auto
qed

text \<open>Connecting a function without parameters is undefined on both sides: the first name of the list of
  parameter names is read, and the list is empty.\<close>

theorem no_parameters_undefined:
  assumes "Registry_find name (cln_registry c) = None"
  shows "RpcServer_connect name R [] func p = None \<and> RpcClient_connect name R [] c = None"
  using assms by (simp add: RpcServer_connect_def RpcClient_connect_def stringify_def string_composer_def)

theorem no_parameters_undefined_witness:
  "RpcServer_connect (str ''f'') T_int [] counter counter_server = None \<and> RpcClient_connect (str ''f'') T_int [] fresh_client = None"
  by (rule no_parameters_undefined) (simp add: fresh_client_def RpcClient_new_def Registry_find_def FunctionsRegistry_new_def)

section \<open>The time-out\<close>

text \<open>C34. A time-out with a positive preset expires exactly when the preset number of milliseconds has passed since
  its start, whatever it was before.\<close>

theorem timeout_exact:
  assumes "0 < ms"
  shows "expired_impl now (start_impl t0 (preset_impl ms t)) \<longleftrightarrow> ms * 1000000 \<le> now - t0"
  using assms by (subst expired_iff) (auto simp: start_impl_def preset_impl_def)

theorem timeout_exact_witness:
  "\<not> expired_impl 5000099 (start_impl 100 (preset_impl 5 (TimeOutChrono_new 0))) \<and> expired_impl 5000100 (start_impl 100 (preset_impl 5 (TimeOutChrono_new 0)))"
  using timeout_exact [of 5 5000099 100 "TimeOutChrono_new 0"] timeout_exact [of 5 5000100 100 "TimeOutChrono_new 0"] by simp

end
