(* ===== verification/Text_Serializer.thy ===== *)
theory Text_Serializer
  imports Serializer
begin

text \<open>
  The text \<^verbatim>\<open>Serializer\<close> and \<^verbatim>\<open>Deserializer\<close> (\<^verbatim>\<open>src/src/bmRPCSerializer.h\<close>), for which a message is three C strings: its
  number, its name and its value. They are resumable as the binary ones are, over a streamer of characters, which are bytes
  here. \<open>text_wire\<close> is the layout; a \<open>receive\<close> is a run of an automaton that takes one byte at a time.
\<close>

section \<open>Serializer\<close>

datatype TTxPhase = TTX_IDLE | TTX_ID | TTX_NAME | TTX_ARGS_VALUE | TTX_END

record TextSerializer =
  ts_pmsg :: "TextMessage option"
  ts_p :: bytes
  ts_i :: size_t
  ts_len :: size_t
  ts_phase :: TTxPhase

definition TextSerializer_new :: TextSerializer where
  "TextSerializer_new = \<lparr>ts_pmsg = None, ts_p = c_str [], ts_i = 0, ts_len = 0, ts_phase = TTX_IDLE\<rparr>"

text \<open>The length and the array of the string that is sent next.\<close>

definition ts_load :: "bytes \<Rightarrow> TTxPhase \<Rightarrow> TextSerializer \<Rightarrow> TextSerializer" where
  "ts_load x phase ser = ser\<lparr>ts_len := of_nat (length x) + 1, ts_p := c_str x, ts_i := 0, ts_phase := phase\<rparr>"

definition TextSerializer_init :: "TextMessage option \<Rightarrow> TextSerializer \<Rightarrow> TextSerializer" where
  "TextSerializer_init pmsg ser =
     (case pmsg of None \<Rightarrow> ser | Some m \<Rightarrow> ts_load (tm_id m) TTX_ID (ser\<lparr>ts_pmsg := Some m\<rparr>))"

definition ts_put :: "(u8, 'c) comm \<Rightarrow> TextSerializer \<Rightarrow> (u8, 'c) Streamer \<Rightarrow>
    (TextSerializer \<Rightarrow> TextSerializer option) \<Rightarrow> (TextSerializer \<times> (u8, 'c) Streamer) option" where
  "ts_put C ser s nxt =
     do {
       (count, s) \<leftarrow> Streamer_write C s (drop (unat (ts_i ser)) (ts_p ser)) (ts_len ser);
       ser \<leftarrow> (if count \<ge> ts_len ser then nxt ser
               else Some (ser\<lparr>ts_i := ts_i ser + count, ts_len := ts_len ser - count\<rparr>));
       Some (ser, s)
     }"

definition ts_to_name :: "TextSerializer \<Rightarrow> TextSerializer option" where
  "ts_to_name ser = do { m \<leftarrow> ts_pmsg ser; Some (ts_load (tm_name m) TTX_NAME ser) }"

definition ts_to_value :: "TextSerializer \<Rightarrow> TextSerializer option" where
  "ts_to_value ser = do { m \<leftarrow> ts_pmsg ser; Some (ts_load (tm_value m) TTX_ARGS_VALUE ser) }"

definition ts_to_end :: "TextSerializer \<Rightarrow> TextSerializer option" where
  "ts_to_end ser = Some (ser\<lparr>ts_phase := TTX_END\<rparr>)"

definition TextSerializer_send :: "(u8, 'c) comm \<Rightarrow> TextSerializer \<Rightarrow> (u8, 'c) Streamer \<Rightarrow>
    (bool \<times> TextSerializer \<times> (u8, 'c) Streamer) option" where
  "TextSerializer_send C ser s =
     do {
       (ser, s) \<leftarrow>
         (case ts_phase ser of
            TTX_IDLE \<Rightarrow> Some (ser, s)
          | TTX_END \<Rightarrow> Some (ser, s)
          | TTX_ID \<Rightarrow> ts_put C ser s ts_to_name
          | TTX_NAME \<Rightarrow> ts_put C ser s ts_to_value
          | TTX_ARGS_VALUE \<Rightarrow> ts_put C ser s ts_to_end);
       if ts_phase ser = TTX_END then Some (True, ser\<lparr>ts_phase := TTX_IDLE\<rparr>, s)
       else Some (False, ser, s)
     }"

section \<open>Deserializer\<close>

datatype TRxPhase = TRX_IDLE | TRX_ID | TRX_NAME | TRX_ARGS_VALUE | TRX_END

record TextDeserializer =
  td_pmsg :: "TextMessage option"
  td_s :: bytes
  td_len :: size_t
  td_phase :: TRxPhase

definition TextDeserializer_new :: TextDeserializer where
  "TextDeserializer_new = \<lparr>td_pmsg = None, td_s = [], td_len = 0, td_phase = TRX_IDLE\<rparr>"

definition TextDeserializer_init :: "TextMessage option \<Rightarrow> TextDeserializer \<Rightarrow> TextDeserializer" where
  "TextDeserializer_init pmsg d =
     (case pmsg of None \<Rightarrow> d | Some m \<Rightarrow> d\<lparr>td_pmsg := Some m, td_len := 0, td_s := [], td_phase := TRX_ID\<rparr>)"

type_synonym 'c td_state = "TextDeserializer \<times> (u8, 'c) Streamer \<times> size_t"

text \<open>The phases of the loop body. Without a terminator the first one consumes \<^verbatim>\<open>m_len\<close>, the others what is left from \<open>ix\<close> on.\<close>

definition td_id :: "(u8, 'c) comm \<Rightarrow> TextDeserializer \<Rightarrow> (u8, 'c) Streamer \<Rightarrow> bytes \<Rightarrow> size_t \<Rightarrow> 'c td_state option" where
  "td_id C d s p ix =
     (case find_zero p (td_len d - ix) of
        Some i \<Rightarrow> do {
          x \<leftarrow> string_at p;
          m \<leftarrow> td_pmsg d;
          let d = d\<lparr>td_pmsg := Some (TextMessage_setId_string (td_s d @ x) m), td_s := [], td_phase := TRX_NAME\<rparr>;
          (_, s) \<leftarrow> consume_read C s (of_nat i + 1);
          Some (d, s, ix + (of_nat i + 1))
        }
      | None \<Rightarrow> do {
          x \<leftarrow> string_at p;
          (_, s) \<leftarrow> consume_read C s (td_len d);
          Some (d\<lparr>td_s := td_s d @ x\<rparr>, s, td_len d)
        })"

definition td_name :: "(u8, 'c) comm \<Rightarrow> TextDeserializer \<Rightarrow> (u8, 'c) Streamer \<Rightarrow> bytes \<Rightarrow> size_t \<Rightarrow> 'c td_state option" where
  "td_name C d s p ix =
     (case find_zero p (td_len d - ix) of
        Some i \<Rightarrow> do {
          x \<leftarrow> string_at p;
          m \<leftarrow> td_pmsg d;
          let d = d\<lparr>td_pmsg := Some (TextMessage_setName (td_s d @ x) m), td_s := [], td_phase := TRX_ARGS_VALUE\<rparr>;
          (_, s) \<leftarrow> consume_read C s (of_nat i + 1);
          Some (d, s, ix + (of_nat i + 1))
        }
      | None \<Rightarrow> do {
          x \<leftarrow> string_at p;
          (_, s) \<leftarrow> consume_read C s (td_len d - ix);
          Some (d\<lparr>td_s := td_s d @ x\<rparr>, s, td_len d)
        })"

definition td_value :: "(u8, 'c) comm \<Rightarrow> TextDeserializer \<Rightarrow> (u8, 'c) Streamer \<Rightarrow> bytes \<Rightarrow> size_t \<Rightarrow> 'c td_state option" where
  "td_value C d s p ix =
     (case find_zero p (td_len d - ix) of
        Some i \<Rightarrow> do {
          x \<leftarrow> string_at p;
          m \<leftarrow> td_pmsg d;
          let d = d\<lparr>td_pmsg := Some (TextMessage_setValue (td_s d @ x) m), td_s := [], td_phase := TRX_END\<rparr>;
          (_, s) \<leftarrow> consume_read C s (of_nat i + 1);
          Some (d, s, td_len d)
        }
      | None \<Rightarrow> do {
          x \<leftarrow> string_at p;
          (_, s) \<leftarrow> consume_read C s (td_len d - ix);
          Some (d\<lparr>td_s := td_s d @ x\<rparr>, s, td_len d)
        })"

definition td_step :: "(u8, 'c) comm \<Rightarrow> TextDeserializer \<Rightarrow> (u8, 'c) Streamer \<Rightarrow> bytes \<Rightarrow> size_t \<Rightarrow> 'c td_state option" where
  "td_step C d s buffer ix =
     (case td_phase d of
        TRX_IDLE \<Rightarrow> Some (d, s, ix)
      | TRX_END \<Rightarrow> Some (d, s, ix)
      | TRX_ID \<Rightarrow> td_id C d s (drop (unat ix) buffer) ix
      | TRX_NAME \<Rightarrow> td_name C d s (drop (unat ix) buffer) ix
      | TRX_ARGS_VALUE \<Rightarrow> td_value C d s (drop (unat ix) buffer) ix)"

partial_function (option) td_loop :: "(u8, 'c) comm \<Rightarrow> TextDeserializer \<Rightarrow> (u8, 'c) Streamer \<Rightarrow> bytes \<Rightarrow> size_t \<Rightarrow> (TextDeserializer \<times> (u8, 'c) Streamer) option" where
  "td_loop C d s buffer ix =
     (if ix < td_len d
      then do { (d, s, ix) \<leftarrow> td_step C d s buffer ix; td_loop C d s buffer ix }
      else Some (d, s))"

definition TextDeserializer_receive :: "(u8, 'c) comm \<Rightarrow> TextDeserializer \<Rightarrow> (u8, 'c) Streamer \<Rightarrow>
    (bool \<times> TextDeserializer \<times> (u8, 'c) Streamer) option" where
  "TextDeserializer_receive C d s =
     (if td_phase d \<noteq> TRX_IDLE \<and> td_phase d \<noteq> TRX_END
      then do {
        (n, s) \<leftarrow> rx_size C s;
        let d = d\<lparr>td_len := n\<rparr>;
        if td_len d \<le> 0 then Some (False, d, s)
        else do {
          (_, buffer, s) \<leftarrow> try_read C s (replicate (unat (td_len d) + 1) 0) (td_len d);
          let buffer = buffer[unat (td_len d) := 0];
          (d, s) \<leftarrow> td_loop C d s buffer 0;
          if td_phase d = TRX_END then Some (True, d\<lparr>td_phase := TRX_IDLE\<rparr>, s)
          else Some (False, d, s)
        }
      }
      else Some (False, d, s))"

section \<open>The layout on the link\<close>

definition text_wire :: "TextMessage \<Rightarrow> bytes" where
  "text_wire m = c_str (tm_id m) @ c_str (tm_name m) @ c_str (tm_value m)"

text \<open>Messages of three C strings that fit the address space.\<close>

definition text_ok :: "TextMessage \<Rightarrow> bool" where
  "text_ok m \<longleftrightarrow> (\<forall>x \<in> {tm_id m, tm_name m, tm_value m}. 0 \<notin> set x \<and> length x < 2 ^ 63)"

lemma text_okD:
  assumes "text_ok m"
  shows "0 \<notin> set (tm_id m)" and "0 \<notin> set (tm_name m)" and "0 \<notin> set (tm_value m)"
    and "length (tm_id m) < 2 ^ 63" and "length (tm_name m) < 2 ^ 63" and "length (tm_value m) < 2 ^ 63"
  using assms by (simp_all add: text_ok_def)

lemma text_wire_nonempty [simp]: "text_wire m \<noteq> []"
  by (simp add: text_wire_def c_str_def)

section \<open>Sending\<close>

definition ts_chunk :: "TextSerializer \<Rightarrow> bytes" where
  "ts_chunk ser = drop (unat (ts_i ser)) (ts_p ser)"

text \<open>What follows the current string, and all that is left to send.\<close>

definition ts_after :: "TextSerializer \<Rightarrow> bytes" where
  "ts_after ser =
     (case (ts_pmsg ser, ts_phase ser) of
        (Some m, TTX_ID) \<Rightarrow> c_str (tm_name m) @ c_str (tm_value m)
      | (Some m, TTX_NAME) \<Rightarrow> c_str (tm_value m)
      | _ \<Rightarrow> [])"

definition ts_active :: "TextSerializer \<Rightarrow> bool" where
  "ts_active ser \<longleftrightarrow> ts_phase ser \<noteq> TTX_IDLE \<and> ts_phase ser \<noteq> TTX_END \<and>
     (\<exists>m. ts_pmsg ser = Some m \<and> text_ok m) \<and> ts_len ser > 0 \<and>
     unat (ts_i ser) + unat (ts_len ser) = length (ts_p ser) \<and> length (ts_p ser) \<le> 2 ^ 63"

definition ts_todo :: "TextSerializer \<Rightarrow> bytes" where
  "ts_todo ser = (if ts_phase ser = TTX_IDLE \<or> ts_phase ser = TTX_END then [] else ts_chunk ser @ ts_after ser)"

lemma ts_load_active:
  assumes "ts_pmsg ser = Some m" and "text_ok m" and "length x < 2 ^ 63" and "phase \<noteq> TTX_IDLE" and "phase \<noteq> TTX_END"
  shows "ts_active (ts_load x phase ser)" and "ts_todo (ts_load x phase ser) = c_str x @ ts_after (ts_load x phase ser)"
    and "ts_pmsg (ts_load x phase ser) = Some m" and "ts_phase (ts_load x phase ser) = phase"
proof -
  have n: "unat (of_nat (length x) + 1 :: size_t) = length x + 1"
    using assms(3) unat_of_nat_small [of "Suc (length x)"] by (simp add: add.commute)
  then have "of_nat (length x) + 1 \<noteq> (0 :: size_t)" by (metis add_is_0 one_neq_zero unat_0)
  with n assms show "ts_active (ts_load x phase ser)" "ts_todo (ts_load x phase ser) = c_str x @ ts_after (ts_load x phase ser)"
    "ts_pmsg (ts_load x phase ser) = Some m" "ts_phase (ts_load x phase ser) = phase"
    by (simp_all add: ts_load_def ts_active_def ts_todo_def ts_chunk_def c_str_def word_gt_0)
qed

lemma text_init_active:
  assumes "text_ok m"
  shows "ts_active (TextSerializer_init (Some m) ser)" and "ts_todo (TextSerializer_init (Some m) ser) = text_wire m"
  using ts_load_active [of "ser\<lparr>ts_pmsg := Some m\<rparr>" m "tm_id m" TTX_ID] assms text_okD(4) [OF assms]
  by (simp_all add: TextSerializer_init_def ts_after_def text_wire_def)

text \<open>The next phase sends what follows the current string.\<close>

definition ts_next :: "TextSerializer \<Rightarrow> TextSerializer option" where
  "ts_next ser = (case ts_phase ser of TTX_ID \<Rightarrow> ts_to_name ser | TTX_NAME \<Rightarrow> ts_to_value ser | _ \<Rightarrow> ts_to_end ser)"

lemma ts_next_ok:
  assumes act: "ts_active ser"
  obtains t where "ts_next ser = Some t" and "ts_pmsg t = ts_pmsg ser" and "ts_todo t = ts_after ser" and "ts_active t \<or> ts_phase t = TTX_END"
proof -
  obtain m where m: "ts_pmsg ser = Some m" "text_ok m" using act by (auto simp: ts_active_def)
  note l = text_okD(5,6) [OF m(2)]
  show thesis
  proof (cases "ts_phase ser")
    case TTX_ID
    with m ts_load_active [OF m l(1), of TTX_NAME] show thesis
      by (intro that [of "ts_load (tm_name m) TTX_NAME ser"]) (simp_all add: ts_next_def ts_to_name_def ts_after_def)
  next
    case TTX_NAME
    with m ts_load_active [OF m l(2), of TTX_ARGS_VALUE] show thesis
      by (intro that [of "ts_load (tm_value m) TTX_ARGS_VALUE ser"]) (simp_all add: ts_next_def ts_to_value_def ts_after_def)
  next
    case TTX_ARGS_VALUE
    with m show thesis
      by (intro that [of "ser\<lparr>ts_phase := TTX_END\<rparr>"]) (simp_all add: ts_next_def ts_to_end_def ts_after_def ts_todo_def)
  qed (use act in \<open>simp_all add: ts_active_def\<close>)
qed

lemma text_send_alt:
  assumes "ts_active ser"
  shows "TextSerializer_send C ser s =
    do { (ser, s) \<leftarrow> ts_put C ser s ts_next; if ts_phase ser = TTX_END then Some (True, ser\<lparr>ts_phase := TTX_IDLE\<rparr>, s) else Some (False, ser, s) }"
  using assms by (cases "ts_phase ser") (simp_all add: TextSerializer_send_def ts_put_def ts_next_def ts_active_def cong: if_cong)

context byte_link
begin

lemma ts_put_ok:
  assumes inv: "Streamer_inv com_ok s" and act: "ts_active ser"
  obtains t s' where "ts_put C ser s ts_next = Some (t, s')" and "ts_pmsg t = ts_pmsg ser" and "ts_active t \<or> ts_phase t = TTX_END"
    and "sent s s' (ts_todo ser) (ts_todo t)"
proof -
  have a: "0 < ts_len ser" "unat (ts_i ser) + unat (ts_len ser) = length (ts_p ser)" "length (ts_p ser) \<le> 2 ^ 63"
    and td: "ts_todo ser = ts_chunk ser @ ts_after ser"
    using act by (simp_all add: ts_active_def ts_todo_def)
  from inv a show thesis
  proof (cases rule: piece_write)
    case (whole n s')
    obtain t where t: "ts_next ser = Some t" "ts_pmsg t = ts_pmsg ser" "ts_todo t = ts_after ser" "ts_active t \<or> ts_phase t = TTX_END"
      using ts_next_ok [OF act] .
    with whole sent_append [OF whole(3), of "ts_after ser"] td show thesis
      by (intro that [of t s']) (simp_all add: ts_put_def ts_chunk_def)
  next
    case (part n s')
    let ?t = "ser\<lparr>ts_i := ts_i ser + n, ts_len := ts_len ser - n\<rparr>"
    have "ts_active ?t" using act part(3,4) by (simp add: ts_active_def)
    moreover have "ts_todo ?t = drop (unat (ts_i ser + n)) (ts_p ser) @ ts_after ser"
      using act by (simp add: ts_todo_def ts_chunk_def ts_after_def ts_active_def)
    ultimately show thesis using part(1,2) sent_append [OF part(5), of "ts_after ser"] td
      by (intro that [of ?t s']) (simp_all add: ts_put_def ts_chunk_def)
  qed
qed

lemma text_send_ok:
  assumes inv: "Streamer_inv com_ok s" and act: "ts_active ser"
  obtains b t s' where "TextSerializer_send C ser s = Some (b, t, s')" and "if b then ts_todo t = [] else ts_active t"
    and "sent s s' (ts_todo ser) (ts_todo t)"
proof -
  obtain t s' where t: "ts_put C ser s ts_next = Some (t, s')" "ts_active t \<or> ts_phase t = TTX_END" "sent s s' (ts_todo ser) (ts_todo t)"
    using ts_put_ok [OF assms] by metis
  show thesis
  proof (cases "ts_phase t = TTX_END")
    case True
    with t show thesis by (intro that [of True "t\<lparr>ts_phase := TTX_IDLE\<rparr>" s']) (simp_all add: text_send_alt [OF act] ts_todo_def)
  next
    case False
    with t show thesis by (intro that [of False t s']) (simp_all add: text_send_alt [OF act])
  qed
qed

end

section \<open>The reference automaton\<close>

text \<open>The end of a string, one byte, and a run up to the end of a message with the number of bytes used.\<close>

definition td_close :: "TextDeserializer \<Rightarrow> TextDeserializer" where
  "td_close d =
     (case td_phase d of
        TRX_ID \<Rightarrow> d\<lparr>td_pmsg := map_option (TextMessage_setId_string (td_s d)) (td_pmsg d), td_s := [], td_phase := TRX_NAME\<rparr>
      | TRX_NAME \<Rightarrow> d\<lparr>td_pmsg := map_option (TextMessage_setName (td_s d)) (td_pmsg d), td_s := [], td_phase := TRX_ARGS_VALUE\<rparr>
      | TRX_ARGS_VALUE \<Rightarrow> d\<lparr>td_pmsg := map_option (TextMessage_setValue (td_s d)) (td_pmsg d), td_s := [], td_phase := TRX_END\<rparr>
      | _ \<Rightarrow> d)"

definition td_byte :: "TextDeserializer \<Rightarrow> u8 \<Rightarrow> TextDeserializer" where
  "td_byte d b = (if b = 0 then td_close d else d\<lparr>td_s := td_s d @ [b]\<rparr>)"

fun td_run :: "TextDeserializer \<Rightarrow> bytes \<Rightarrow> TextDeserializer \<times> nat" where
  "td_run d [] = (d, 0)"
| "td_run d (b # bs) =
     (let d = td_byte d b
      in if td_phase d = TRX_END then (d, 1) else (let (d, n) = td_run d bs in (d, Suc n)))"

lemma td_run_append:
  "td_run d (xs @ ys) =
     (let (d', n) = td_run d xs
      in if td_phase d' = TRX_END \<and> xs \<noteq> [] then (d', n) else (let (d'', k) = td_run d' ys in (d'', n + k)))"
proof (induction d xs rule: td_run.induct)
  case (2 d b bs)
  then show ?case by (cases bs) (auto simp: Let_def split: prod.splits)
qed (simp split: prod.split)

lemma td_run_all: "td_run d bs = (d', n) \<Longrightarrow> td_phase d' \<noteq> TRX_END \<Longrightarrow> n = length bs"
  by (induction d bs arbitrary: n rule: td_run.induct) (auto simp: Let_def split: prod.splits if_splits)

lemma td_close_len: "td_close (d\<lparr>td_len := l\<rparr>) = td_close d\<lparr>td_len := l\<rparr>" and td_len_close [simp]: "td_len (td_close d) = td_len d"
  by (cases "td_phase d", simp_all add: td_close_def)+

lemma td_byte_len: "td_byte (d\<lparr>td_len := l\<rparr>) b = td_byte d b\<lparr>td_len := l\<rparr>"
  by (simp add: td_byte_def td_close_len)

lemma td_run_len: "td_run (d\<lparr>td_len := l\<rparr>) bs = (let (d', n) = td_run d bs in (d'\<lparr>td_len := l\<rparr>, n))"
  by (induction d bs rule: td_run.induct) (auto simp: Let_def td_byte_len split: prod.split)

lemma td_run_td_len: "td_len (fst (td_run d bs)) = td_len d"
  by (induction d bs rule: td_run.induct) (auto simp: Let_def td_byte_def split: prod.split)

text \<open>States in which a message is awaited.\<close>

definition td_ok :: "TextDeserializer \<Rightarrow> bool" where
  "td_ok d \<longleftrightarrow> td_pmsg d \<noteq> None \<and> td_phase d \<noteq> TRX_IDLE \<and> td_phase d \<noteq> TRX_END"

lemma td_ok_close: "td_ok d \<Longrightarrow> td_phase (td_close d) \<noteq> TRX_END \<Longrightarrow> td_ok (td_close d)"
  by (cases "td_phase d") (simp_all add: td_ok_def td_close_def)

lemma td_ok_byte: "td_ok d \<Longrightarrow> td_phase (td_byte d b) \<noteq> TRX_END \<Longrightarrow> td_ok (td_byte d b)"
  using td_ok_close [of d] by (auto simp: td_byte_def td_ok_def)

lemma td_ok_run: "td_ok d \<Longrightarrow> td_phase (fst (td_run d bs)) \<noteq> TRX_END \<Longrightarrow> td_ok (fst (td_run d bs))"
proof (induction d bs rule: td_run.induct)
  case (2 d b bs)
  then show ?case using td_ok_byte [OF 2(2), of b] by (auto simp: Let_def split: prod.splits if_splits)
qed simp

text \<open>Runs within a string, and to its end.\<close>

lemma td_run_more: "td_ok d \<Longrightarrow> 0 \<notin> set bs \<Longrightarrow> td_run d bs = (d\<lparr>td_s := td_s d @ bs\<rparr>, length bs)"
  by (induction bs arbitrary: d) (auto simp: td_byte_def td_ok_def)

lemma td_run_done: "td_ok d \<Longrightarrow> 0 \<notin> set bs \<Longrightarrow> td_run d (bs @ [0]) = (td_close (d\<lparr>td_s := td_s d @ bs\<rparr>), Suc (length bs))"
  using td_run_more [of d bs] by (simp add: td_run_append td_ok_def td_byte_def Let_def)

lemma td_run_string:
  assumes "td_ok d" and "td_s d = []" and "0 \<notin> set x" and "td_phase (td_close (d\<lparr>td_s := x\<rparr>)) \<noteq> TRX_END"
  shows "td_run d (c_str x @ rest) = (let (d', k) = td_run (td_close (d\<lparr>td_s := x\<rparr>)) rest in (d', length (c_str x) + k))"
  using assms td_run_done [OF assms(1,3)] unfolding c_str_def td_run_append [of d "x @ [0]"] by (simp add: Let_def)

definition td_start :: "TextDeserializer \<Rightarrow> bool" where
  "td_start d \<longleftrightarrow> td_phase d = TRX_ID \<and> td_s d = [] \<and> (\<exists>m. td_pmsg d = Some m)"

lemma td_start_init [simp]: "td_start (TextDeserializer_init (Some m) d)"
  by (simp add: td_start_def TextDeserializer_init_def)

lemma td_start_len [simp]: "td_start (d\<lparr>td_len := l\<rparr>) = td_start d"
  by (simp add: td_start_def)

lemma td_ok_start: "td_start d \<Longrightarrow> td_ok d"
  by (auto simp: td_start_def td_ok_def)

text \<open>The automaton reads back the layout of a message.\<close>

lemma td_run_wire:
  assumes m: "text_ok m" and d: "td_start d"
  obtains d' where "td_run d (text_wire m @ rest) = (d', length (text_wire m))" and "td_phase d' = TRX_END" and "td_pmsg d' = Some m"
proof -
  note z = text_okD(1-3) [OF m]
  obtain m0 where m0: "td_pmsg d = Some m0" "td_phase d = TRX_ID" "td_s d = []" using d by (auto simp: td_start_def)
  let ?d1 = "td_close (d\<lparr>td_s := tm_id m\<rparr>)"
  let ?d2 = "td_close (?d1\<lparr>td_s := tm_name m\<rparr>)"
  let ?d3 = "td_close (?d2\<lparr>td_s := tm_value m\<rparr>)"
  have p: "td_ok d" "td_ok ?d1" "td_ok ?d2" "td_s ?d1 = []" "td_s ?d2 = []" "td_phase ?d1 \<noteq> TRX_END" "td_phase ?d2 \<noteq> TRX_END"
    "td_phase ?d3 = TRX_END" using m0 by (simp_all add: td_close_def td_ok_def)
  have m3: "td_pmsg ?d3 = Some m"
    using m0 by (simp add: td_close_def TextMessage_setId_string_def TextMessage_setName_def TextMessage_setValue_def)
  have "td_run ?d2 (c_str (tm_value m) @ rest) = (?d3, length (c_str (tm_value m)))"
    using td_run_done [OF p(3) z(3)] p(5,8) unfolding c_str_def td_run_append [of ?d2 "tm_value m @ [0]"] by simp
  then have "td_run ?d1 (c_str (tm_name m) @ c_str (tm_value m) @ rest) = (?d3, length (c_str (tm_name m)) + length (c_str (tm_value m)))"
    using td_run_string [OF p(2,4) z(2) p(7)] by simp
  then have "td_run d (text_wire m @ rest) = (?d3, length (text_wire m))"
    using td_run_string [OF p(1) m0(3) z(1) p(6)] by (simp add: text_wire_def)
  with p(8) m3 show thesis by (intro that)
qed

section \<open>Receiving\<close>

text \<open>The three phases do the same with the string that ends or goes on.\<close>

definition td_piece :: "(u8, 'c) comm \<Rightarrow> TextDeserializer \<Rightarrow> (u8, 'c) Streamer \<Rightarrow> bytes \<Rightarrow> size_t \<Rightarrow> 'c td_state option" where
  "td_piece C d s p ix =
     (case find_zero p (td_len d - ix) of
        Some i \<Rightarrow> do {
          x \<leftarrow> string_at p;
          let d = td_close (d\<lparr>td_s := td_s d @ x\<rparr>);
          (_, s) \<leftarrow> consume_read C s (of_nat i + 1);
          Some (d, s, if td_phase d = TRX_END then td_len d else ix + (of_nat i + 1))
        }
      | None \<Rightarrow> do {
          x \<leftarrow> string_at p;
          (_, s) \<leftarrow> consume_read C s (td_len d - ix);
          Some (d\<lparr>td_s := td_s d @ x\<rparr>, s, td_len d)
        })"

lemma td_step_piece:
  assumes "td_ok d" and "td_phase d = TRX_ID \<Longrightarrow> ix = 0"
  shows "td_step C d s buffer ix = td_piece C d s (drop (unat ix) buffer) ix"
proof -
  obtain m where m: "td_pmsg d = Some m" using assms(1) by (auto simp: td_ok_def)
  show ?thesis
    using assms m
    by (cases "td_phase d")
      (auto simp: td_step_def td_piece_def td_id_def td_name_def td_value_def td_close_def td_ok_def Let_def
        split: option.split intro!: arg_cong2 [where f = Option.bind])
qed

lemma td_close_not_id: "td_ok d \<Longrightarrow> td_phase (td_close d) \<noteq> TRX_ID"
  by (cases "td_phase d") (simp_all add: td_close_def td_ok_def)

context byte_link
begin

definition td_stepped :: "TextDeserializer \<Rightarrow> (u8, 'c) Streamer \<Rightarrow> bytes \<Rightarrow> size_t \<Rightarrow> 'c td_state option \<Rightarrow> bool" where
  "td_stepped d s bs ix r \<longleftrightarrow>
     (\<exists>n d' s' ix'. r = Some (d', s', ix') \<and> 0 < n \<and> n \<le> length bs \<and> td_run d (take n bs) = (d', n) \<and>
        consumed s s' n \<and> take (length bs - n) (rx_bytes s') = drop n bs \<and> td_len d' = td_len d \<and>
        (if td_phase d' = TRX_END then ix' = td_len d else unat ix' = unat ix + n \<and> td_ok d' \<and> (td_phase d' = TRX_ID \<longrightarrow> n = length bs)))"

lemma td_piece_ok:
  assumes inv: "Streamer_inv com_ok s" and ok: "td_ok d" and len: "unat (td_len d) \<le> 1024"
    and bs: "unat ix + length bs = unat (td_len d)" "bs \<noteq> []" "take (length bs) (rx_bytes s) = bs"
  shows "td_stepped d s bs ix (td_piece C d s (bs @ [0]) ix)"
proof -
  have l: "0 < length bs" using bs(2) by simp
  have ix: "ix < td_len d" using bs(1) l by (simp add: word_less_nat_alt del: length_greater_0_conv)
  have lb: "length bs = unat (td_len d) - unat ix" using bs(1) by simp
  note a = chunk_arith(1-3) [OF ix len lb]
  have "unat (td_len d - ix) \<le> length (bs @ [0])" using a(1) by simp
  then show ?thesis
  proof (cases rule: find_zero_cases)
    case (zero i)
    define n where "n = (of_nat i + 1 :: size_t)"
    have i: "i < length bs" using zero(2) a(1) by simp
    have n: "unat n = Suc i" using i bs(1) len unat_of_nat_small [of "Suc i"] by (simp add: n_def add.commute)
    have n2: "0 < unat n" "unat n \<le> length bs" using n i by simp_all
    have t: "take (unat n) bs = take i bs @ [0]" "string_at (bs @ [0]) = Some (take i bs)" "0 \<notin> set (take i bs)"
      using zero i n by (simp_all add: string_at_def)
    obtain r s' where c: "consume_read C s n = Some (r, s')" "consumed s s' (unat n)" "take (length bs - unat n) (rx_bytes s') = drop (unat n) bs"
      using consume_prefix [OF inv n2 bs(3)] .
    have ixn: "unat (ix + n) = unat ix + unat n" using a(3) n2 bs(1) len by (intro unat_add_small) simp
    let ?d = "td_close (d\<lparr>td_s := td_s d @ take i bs\<rparr>)"
    have "td_piece C d s (bs @ [0]) ix = Some (?d, s', if td_phase ?d = TRX_END then td_len d else ix + n)"
      using zero(1) t(2) c(1) by (simp add: td_piece_def Let_def n_def)
    moreover have "td_run d (take (unat n) bs) = (?d, unat n)" using td_run_done [OF ok t(3)] t(1) n i by simp
    moreover have "td_phase ?d \<noteq> TRX_END \<Longrightarrow> td_ok ?d" "td_phase ?d \<noteq> TRX_ID"
      using ok by (intro td_ok_close td_close_not_id; simp add: td_ok_def)+
    ultimately show ?thesis unfolding td_stepped_def using n2 c(2,3) ixn
      by (intro exI [of _ "unat n"] exI [of _ ?d] exI [of _ s'] exI [of _ "if td_phase ?d = TRX_END then td_len d else ix + n"]) simp
  next
    case none
    then have z: "0 \<notin> set bs" using a(1) by simp
    have n2: "0 < unat (td_len d - ix)" "unat (td_len d - ix) \<le> length bs" using a(1,2) by simp_all
    obtain r s' where c: "consume_read C s (td_len d - ix) = Some (r, s')" "consumed s s' (length bs)" "take (length bs - length bs) (rx_bytes s') = drop (length bs) bs"
      using consume_prefix [OF inv n2 bs(3)] unfolding a(1) .
    have "td_piece C d s (bs @ [0]) ix = Some (d\<lparr>td_s := td_s d @ bs\<rparr>, s', td_len d)"
      using none(1) c(1) z by (simp add: td_piece_def)
    moreover have "td_ok (d\<lparr>td_s := td_s d @ bs\<rparr>)" "td_phase d \<noteq> TRX_END" using ok by (simp_all add: td_ok_def)
    ultimately show ?thesis unfolding td_stepped_def using td_run_more [OF ok z] a(2) c(2,3) bs(1)
      by (intro exI [of _ "length bs"] exI [of _ "d\<lparr>td_s := td_s d @ bs\<rparr>"] exI [of _ s'] exI [of _ "td_len d"]) simp
  qed
qed

lemma td_loop_ok:
  assumes "Streamer_inv com_ok s" and "td_ok d" and "unat (td_len d) \<le> 1024" and "unat ix + length bs = unat (td_len d)"
    and "td_phase d = TRX_ID \<Longrightarrow> bs = [] \<or> ix = 0" and "take (length bs) (rx_bytes s) = bs" and "drop (unat ix) buffer = bs @ [0]"
  shows "\<exists>d' s' n. td_loop C d s buffer ix = Some (d', s') \<and> td_run d bs = (d', n) \<and> consumed s s' n"
  using assms
proof (induction "length bs" arbitrary: d s bs ix rule: less_induct)
  case less
  show ?case
  proof (cases "bs = []")
    case True
    then have "\<not> ix < td_len d" using less.prems(4) by (simp add: word_less_nat_alt)
    with True less.prems show ?thesis by (simp add: td_loop.simps [of C d] consumed_0)
  next
    case False
    then have "0 < length bs" by simp
    then have ix: "ix < td_len d" using less.prems(4) by (simp add: word_less_nat_alt del: length_greater_0_conv)
    have "td_phase d = TRX_ID \<Longrightarrow> ix = 0" using less.prems(5) False by blast
    then have "td_step C d s buffer ix = td_piece C d s (bs @ [0]) ix" using td_step_piece [OF less.prems(2), of ix C s buffer] less.prems(7) by simp
    with td_piece_ok [OF less.prems(1-4) False less.prems(6)] obtain n d1 s1 ix1 where
      st: "td_step C d s buffer ix = Some (d1, s1, ix1)" "0 < n" "n \<le> length bs" "td_run d (take n bs) = (d1, n)"
        "consumed s s1 n" "take (length bs - n) (rx_bytes s1) = drop n bs" "td_len d1 = td_len d"
        "if td_phase d1 = TRX_END then ix1 = td_len d
         else unat ix1 = unat ix + n \<and> td_ok d1 \<and> (td_phase d1 = TRX_ID \<longrightarrow> n = length bs)"
      unfolding td_stepped_def by (metis (no_types))
    have L: "td_loop C d s buffer ix = td_loop C d1 s1 buffer ix1" using ix st(1) by (simp add: td_loop.simps [of C d])
    have R: "td_run d bs = (if td_phase d1 = TRX_END then (d1, n) else (let (d2, k) = td_run d1 (drop n bs) in (d2, n + k)))"
      using td_run_append [of d "take n bs" "drop n bs"] st(2,4) False by simp
    show ?thesis
    proof (cases "td_phase d1 = TRX_END")
      case True
      with st have "td_loop C d1 s1 buffer ix1 = Some (d1, s1)" by (simp add: td_loop.simps [of C d1])
      with L R True st show ?thesis by simp
    next
      case F: False
      have "\<exists>d' s' k. td_loop C d1 s1 buffer ix1 = Some (d', s') \<and> td_run d1 (drop n bs) = (d', k) \<and> consumed s1 s' k"
      proof (rule less.hyps)
        have "drop (unat ix1) buffer = drop n (drop (unat ix) buffer)" using st F by (simp add: add.commute)
        then show "drop (unat ix1) buffer = drop n bs @ [0]" using st(3) less.prems(7) by simp
      qed (use st F less.prems False in \<open>auto simp: consumed_def\<close>)
      with L R F st(5) show ?thesis by (auto intro: consumed_trans)
    qed
  qed
qed

text \<open>A call runs the automaton over the bytes that the streamer holds after asking the link.\<close>

lemma text_receive_ok:
  assumes inv: "Streamer_inv com_ok s" and ok: "td_ok d"
  obtains s1 k d1 n s' where "received s s1 k" and "td_run (d\<lparr>td_len := of_nat (rx_count s1)\<rparr>) (rx_bytes s1) = (d1, n)" and "consumed s s' n"
    and "TextDeserializer_receive C d s =
           Some (td_phase d1 = TRX_END, if td_phase d1 = TRX_END then d1\<lparr>td_phase := TRX_IDLE\<rparr> else d1, s')"
proof -
  have ph: "td_phase d \<noteq> TRX_IDLE" "td_phase d \<noteq> TRX_END" using ok by (simp_all add: td_ok_def)
  obtain len s1 k where r1: "rx_size C s = Some (len, s1)" "received s s1 k" "unat len = rx_count s1"
    using rx_size_ok [OF inv] .
  have len: "len = of_nat (rx_count s1)" by (simp flip: r1(3))
  let ?d = "d\<lparr>td_len := len\<rparr>"
  show thesis
  proof (cases "rx_count s1 = 0")
    case True
    then have "len = 0" using len by simp
    then have "TextDeserializer_receive C d s = Some (False, ?d, s1)"
      using ph r1(1) by (simp add: TextDeserializer_receive_def)
    moreover have "rx_bytes s1 = []" using True by (simp flip: length_0_conv)
    ultimately show thesis
      using r1(2) received_consumed [OF r1(2)] ph len by (intro that [of s1 k ?d 0 s1]) simp_all
  next
    case False
    then have len0: "\<not> len \<le> 0" using r1(3) by (auto simp: word_le_nat_alt)
    obtain s2 k2 where r2: "\<exists>n. try_read C s1 (replicate (unat len + 1) 0) len = Some (n, rx_bytes s1 @ [0], s2)" "received s1 s2 k2"
      "take (rx_count s1) (rx_bytes s2) = rx_bytes s1"
      using try_read_held [OF r1(2,3)] .
    have inv2: "Streamer_inv com_ok s2" using r2(2) by (simp add: received_def)
    have "\<exists>d' s' n. td_loop C ?d s2 (rx_bytes s1 @ [0]) 0 = Some (d', s') \<and> td_run ?d (rx_bytes s1) = (d', n) \<and> consumed s2 s' n"
    proof (rule td_loop_ok [OF inv2])
      show "unat (td_len ?d) \<le> 1024" using r1(3) ring_count_le by (simp add: rx_count_def)
      show "td_ok ?d" using ok by (simp add: td_ok_def)
    qed (use r1(3) r2(3) in simp_all)
    then obtain d1 s' j where L: "td_loop C ?d s2 (rx_bytes s1 @ [0]) 0 = Some (d1, s')" "td_run ?d (rx_bytes s1) = (d1, j)" "consumed s2 s' j" by blast
    have "consumed s s' j"
      using consumed_trans [OF received_consumed [OF received_trans [OF r1(2) r2(2)]] L(3)] by simp
    moreover have "(rx_bytes s1 @ [0])[unat len := 0] = rx_bytes s1 @ [0]" using r1(3) by (simp add: list_update_append)
    then have "TextDeserializer_receive C d s =
           Some (td_phase d1 = TRX_END, if td_phase d1 = TRX_END then d1\<lparr>td_phase := TRX_IDLE\<rparr> else d1, s')"
      using ph r1(1) len0 r2(1) L(1) by (auto simp: TextDeserializer_receive_def)
    ultimately show thesis using r1(2) L(2) len by (intro that [of s1 k d1 j s']) simp_all
  qed
qed

end

text \<open>\<open>d\<close> has read the bytes \<open>c\<close> of the messages \<open>ms\<close>, of which the bytes \<open>S\<close> are still to come.\<close>

definition td_expects :: "TextDeserializer \<Rightarrow> bytes \<Rightarrow> TextMessage list \<Rightarrow> bool" where
  "td_expects d S ms \<longleftrightarrow>
     (\<exists>d0 c. td_start d0 \<and> td_run d0 c = (d, length c) \<and> td_phase d \<noteq> TRX_END \<and>
        c @ S = concat (map text_wire ms) \<and> (\<forall>m \<in> set ms. text_ok m))"

lemma td_expects_init:
  "S = concat (map text_wire ms) \<Longrightarrow> \<forall>m \<in> set ms. text_ok m \<Longrightarrow> td_start d \<Longrightarrow> td_expects d S ms"
  unfolding td_expects_def by (intro exI [of _ d] exI [of _ "[]"]) (auto simp: td_start_def)

lemma td_expects_ok: "td_expects d S ms \<Longrightarrow> td_ok d"
  unfolding td_expects_def by (metis fst_conv td_ok_run td_ok_start)

lemma td_expects_run:
  assumes e: "td_expects d (X @ Y) ms" and r: "td_run (d\<lparr>td_len := l\<rparr>) X = (d1, n)"
  shows "td_phase d1 \<noteq> TRX_END \<Longrightarrow> td_expects d1 (drop n (X @ Y)) ms"
    and "td_phase d1 = TRX_END \<Longrightarrow> \<exists>m ms'. ms = m # ms' \<and> td_pmsg d1 = Some m \<and> drop n (X @ Y) = concat (map text_wire ms')"
proof -
  obtain d0 c where e: "td_start d0" "td_run d0 c = (d, length c)" "td_phase d \<noteq> TRX_END"
    "c @ X @ Y = concat (map text_wire ms)" "\<forall>m \<in> set ms. text_ok m" using e by (auto simp: td_expects_def)
  let ?d0 = "d0\<lparr>td_len := l\<rparr>"
  have s: "td_start ?d0" using e(1) by simp
  have c: "td_run ?d0 c = (d\<lparr>td_len := l\<rparr>, length c)" using e(2) by (simp add: td_run_len)
  then have cX: "td_run ?d0 (c @ X) = (d1, length c + n)" using e(3) r by (simp add: td_run_append)
  show "td_expects d1 (drop n (X @ Y)) ms" if ph: "td_phase d1 \<noteq> TRX_END"
  proof -
    have "n = length X" using td_run_all [OF r ph] .
    with s cX e(4,5) ph show ?thesis unfolding td_expects_def by (intro exI [of _ ?d0] exI [of _ "c @ X"]) simp
  qed
  show "\<exists>m ms'. ms = m # ms' \<and> td_pmsg d1 = Some m \<and> drop n (X @ Y) = concat (map text_wire ms')" if ph: "td_phase d1 = TRX_END"
  proof -
    have "c @ X \<noteq> []" using cX ph s by (auto simp: td_start_def)
    then obtain m ms' where ms: "ms = m # ms'" using e(4) by (cases ms) auto
    obtain d' where d': "td_run ?d0 (text_wire m @ concat (map text_wire ms')) = (d', length (text_wire m))" "td_pmsg d' = Some m"
      using td_run_wire [OF _ s] e(5) ms by (metis list.set_intros(1))
    have "td_run ?d0 ((c @ X) @ Y) = (d1, length c + n)"
      using cX ph \<open>c @ X \<noteq> []\<close> unfolding td_run_append [of ?d0 "c @ X" Y] by simp
    then have "d' = d1" and l: "length (text_wire m) = length c + n" using d' e(4) ms by auto
    moreover have "drop (length c + n) (c @ X @ Y) = drop (length (text_wire m)) (text_wire m @ concat (map text_wire ms'))"
      unfolding l e(4) ms by simp
    ultimately show ?thesis using d'(2) ms by simp
  qed
qed

context byte_link
begin

lemma text_receive_next:
  assumes inv: "Streamer_inv com_ok s" and e: "td_expects d (in_stream inq s @ later) ms"
  shows "\<exists>b d' s'. TextDeserializer_receive C d s = Some (b, d', s') \<and> Streamer_inv com_ok s' \<and> out_stream outq s' = out_stream outq s \<and>
           (if b then \<exists>ms'. ms = the (td_pmsg d') # ms' \<and> in_stream inq s' @ later = concat (map text_wire ms')
            else td_expects d' (in_stream inq s' @ later) ms)"
proof -
  obtain s1 k d1 n s' where r: "received s s1 k" "td_run (d\<lparr>td_len := of_nat (rx_count s1)\<rparr>) (rx_bytes s1) = (d1, n)" "consumed s s' n"
    "TextDeserializer_receive C d s =
           Some (td_phase d1 = TRX_END, if td_phase d1 = TRX_END then d1\<lparr>td_phase := TRX_IDLE\<rparr> else d1, s')"
    using text_receive_ok [OF inv td_expects_ok [OF e]] .
  have S: "in_stream inq s @ later = rx_bytes s1 @ inq (m_com s1) @ later"
    using received_in_stream [OF r(1)] by (simp add: in_stream_def)
  have D: "drop n (in_stream inq s @ later) = in_stream inq s' @ later" using r(3) by (simp add: consumed_def)
  note X = td_expects_run [OF e [unfolded S] r(2), folded S, unfolded D]
  have "Streamer_inv com_ok s'" "out_stream outq s' = out_stream outq s" using r(3) by (simp_all add: consumed_def rx_frame_out_stream)
  with X r(4) show ?thesis
    by (intro exI [of _ "td_phase d1 = TRX_END"] exI [of _ "if td_phase d1 = TRX_END then d1\<lparr>td_phase := TRX_IDLE\<rparr> else d1"] exI [of _ s']) auto
qed

end

end
