(* ===== verification/Utilities.thy ===== *)
theory Utilities
  imports Message
begin

text \<open>
  The string utilities (\<^verbatim>\<open>src/src/bmRPCUtilities.cpp\<close>), which the text protocol uses. Positions in a string are natural
  numbers, and \<^verbatim>\<open>npos\<close> is \<open>None\<close>. \<open>intersperse\<close> and \<open>pieces\<close> say what splitting means: a string is its pieces with
  delimiters between them.
\<close>

section \<open>Definitions\<close>

text \<open>\<^verbatim>\<open>std::isspace\<close> in the C locale.\<close>

definition isspace :: "u8 \<Rightarrow> bool" where
  "isspace c \<longleftrightarrow> c = 32 \<or> 9 \<le> c \<and> c \<le> 13"

definition ltrim :: "bytes \<Rightarrow> bytes" where
  "ltrim s = dropWhile isspace s"

definition rtrim :: "bytes \<Rightarrow> bytes" where
  "rtrim s = rev (dropWhile isspace (rev s))"

text \<open>\<^verbatim>\<open>find\<close> and \<^verbatim>\<open>find_first_of\<close> from a position on.\<close>

definition find_from :: "(u8 \<Rightarrow> bool) \<Rightarrow> bytes \<Rightarrow> nat \<Rightarrow> nat option" where
  "find_from P s start = find (\<lambda>i. P (s ! i)) [start..<length s]"

lemma find_from_Some:
  assumes "find_from P s start = Some k"
  shows "start \<le> k" and "k < length s" and "P (s ! k)" and "\<And>i. start \<le> i \<Longrightarrow> i < k \<Longrightarrow> \<not> P (s ! i)"
proof -
  obtain j where j: "j < length [start..<length s]" "P (s ! ([start..<length s] ! j))" "k = [start..<length s] ! j"
      "\<forall>l < j. \<not> P (s ! ([start..<length s] ! l))"
    using assms unfolding find_from_def find_Some_iff by blast
  then have k: "k = start + j" "start + j < length s" by auto
  with j show "start \<le> k" "k < length s" "P (s ! k)" by auto
  show "\<not> P (s ! i)" if "start \<le> i" "i < k" for i
    using j(4) [rule_format, of "i - start"] that k by auto
qed

lemma find_from_None: "find_from P s start = None \<Longrightarrow> start \<le> i \<Longrightarrow> i < length s \<Longrightarrow> \<not> P (s ! i)"
  by (simp add: find_from_def find_None_iff)

lemma find_from_measure: "find_from P s start = Some k \<Longrightarrow> length s - Suc k < length s - start"
  using find_from_Some(1,2) [of P s start k] by simp

function split_loop :: "bytes \<Rightarrow> nat \<Rightarrow> bytes list" where
  "split_loop s start =
     (case find_from (\<lambda>c. c = 32) s start of
        Some end \<Rightarrow> take (end - start) (drop start s) # split_loop s (end + 1)
      | None \<Rightarrow> [drop start s])"
  by auto

termination
  by (relation "measure (\<lambda>(s, start). length s - start)") (auto intro!: find_from_measure)

definition split :: "bytes \<Rightarrow> bytes list" where
  "split s = split_loop s 0"

text \<open>The version with iterators keeps what is left of the string; \<open>second\<close> is the first delimiter in it.\<close>

function splitST :: "bytes \<Rightarrow> bytes \<Rightarrow> bytes list" where
  "splitST s delims =
     (if s = [] then []
      else (let first = takeWhile (\<lambda>c. c \<notin> set delims) s;
                second = dropWhile (\<lambda>c. c \<notin> set delims) s;
                out = (if first \<noteq> [] then [first] else [])
            in if second = [] then out else out @ splitST (tl second) delims))"
  by auto

termination
proof (relation "measure (\<lambda>(s, delims). length s)", goal_cases)
  case (2 s delims first second out)
  then have "length second \<le> length s" "second \<noteq> []" by (simp_all add: length_dropWhile_le)
  then have "length (tl second) < length s" by (cases second) simp_all
  then show ?case by simp
qed simp

function splitSV_loop :: "bytes \<Rightarrow> bytes \<Rightarrow> nat \<Rightarrow> bytes list" where
  "splitSV_loop s delims first =
     (if first < length s
      then (case find_from (\<lambda>c. c \<in> set delims) s first of
              None \<Rightarrow> [drop first s]
            | Some second \<Rightarrow>
                (if first \<noteq> second then [take (second - first) (drop first s)] else []) @ splitSV_loop s delims (second + 1))
      else [])"
  by auto

termination
  by (relation "measure (\<lambda>(s, delims, first). length s - first)") (auto intro!: find_from_measure)

definition splitSV :: "bytes \<Rightarrow> bytes \<Rightarrow> bytes list" where
  "splitSV s delims = splitSV_loop s delims 0"

lemma unat_drop_bit_1: "unat (drop_bit 1 (w :: size_t)) = unat w div 2"
  by (simp add: drop_bit_eq_div unat_div_distrib)

function adjust_power_2_loop :: "size_t \<Rightarrow> size_t \<Rightarrow> size_t" where
  "adjust_power_2_loop sz r =
     (let sz = drop_bit 1 sz in if sz \<noteq> 0 then adjust_power_2_loop sz (push_bit 1 r) else r)"
  by auto

termination
proof (relation "measure (\<lambda>(sz, r). unat sz)", goal_cases)
  case (2 sz r x)
  then have "0 < unat x" by (simp add: unat_gt_0)
  moreover have "unat x = unat sz div 2" using 2 unat_drop_bit_1 [of sz] by simp
  ultimately have "unat x < unat sz" by linarith
  then show ?case by simp
qed simp

definition adjust_power_2 :: "size_t \<Rightarrow> size_t" where
  "adjust_power_2 sz = adjust_power_2_loop sz 1"

declare split_loop.simps [simp del] splitST.simps [simp del] splitSV_loop.simps [simp del] adjust_power_2_loop.simps [simp del]


section \<open>What splitting means\<close>

text \<open>The pieces between the delimiters, empty ones included.\<close>

fun pieces :: "(u8 \<Rightarrow> bool) \<Rightarrow> bytes \<Rightarrow> bytes list" where
  "pieces P [] = [[]]"
| "pieces P (c # s) = (if P c then [] # pieces P s else (c # hd (pieces P s)) # tl (pieces P s))"

fun join :: "bytes list \<Rightarrow> bytes" where
  "join [] = []"
| "join [t] = t"
| "join (t # ts) = t @ 32 # join ts"

lemma pieces_not_Nil [simp]: "pieces P s \<noteq> []"
  by (cases s) simp_all

lemma pieces_no: "\<forall>c \<in> set u. \<not> P c \<Longrightarrow> pieces P u = [u]"
  by (induction u) simp_all

lemma pieces_app: "\<forall>c \<in> set u. \<not> P c \<Longrightarrow> P d \<Longrightarrow> pieces P (u @ d # v) = u # pieces P v"
  by (induction u) simp_all

lemma pieces_member: "t \<in> set (pieces P s) \<Longrightarrow> c \<in> set t \<Longrightarrow> \<not> P c"
proof (induction s arbitrary: t)
  case (Cons d s)
  show ?case
  proof (cases "P d \<or> t \<in> set (tl (pieces P s))")
    case True
    then show ?thesis using Cons by (auto split: if_splits dest: list.set_sel(2) [OF pieces_not_Nil])
  next
    case False
    then have "t = d # hd (pieces P s)" "\<not> P d" using Cons.prems(1) by auto
    then show ?thesis using Cons.IH [of "hd (pieces P s)"] Cons.prems(2) by auto
  qed
qed simp

lemma length_pieces: "length (pieces P s) = Suc (length (filter P s))"
proof (induction s)
  case (Cons c s)
  then show ?case using pieces_not_Nil [of P s] by (cases "pieces P s") simp_all
qed simp

lemma concat_pieces: "concat (filter (\<lambda>t. t \<noteq> []) (pieces P s)) = filter (\<lambda>c. \<not> P c) s"
proof (induction s)
  case (Cons c s)
  then show ?case by (cases "pieces P s") (auto split: if_splits)
qed simp

lemma join_Cons: "ts \<noteq> [] \<Longrightarrow> join (t # ts) = t @ 32 # join ts"
  by (cases ts) simp_all

lemma join_pieces: "join (pieces (\<lambda>c. c = 32) s) = s"
proof (induction s)
  case (Cons c s)
  obtain t ts where p: "pieces (\<lambda>c. c = 32) s = t # ts" by (cases "pieces (\<lambda>c. c = 32) s") simp_all
  then show ?case using Cons by (cases ts) auto
qed simp

lemma pieces_join: "ts \<noteq> [] \<Longrightarrow> \<forall>t \<in> set ts. 32 \<notin> set t \<Longrightarrow> pieces (\<lambda>c. c = 32) (join ts) = ts"
proof (induction ts rule: join.induct)
  case (2 t)
  then show ?case by (auto intro: pieces_no)
next
  case (3 t u us)
  then have "\<forall>c \<in> set t. c \<noteq> 32" by auto
  then show ?case using 3 by (simp add: pieces_app)
qed simp

lemma find_from_pieces:
  assumes "start \<le> length s"
  shows "pieces P (drop start s) = (case find_from P s start of
      None \<Rightarrow> [drop start s] | Some k \<Rightarrow> take (k - start) (drop start s) # pieces P (drop (k + 1) s))"
proof (cases "find_from P s start")
  case None
  then have "\<forall>c \<in> set (drop start s). \<not> P c" using find_from_None [OF None] by (auto simp: in_set_conv_nth)
  with None show ?thesis by (simp add: pieces_no)
next
  case (Some k)
  note k = find_from_Some [OF Some]
  have "drop (k - start) (drop start s) = s ! k # drop (k + 1) s" using k(1,2) by (simp add: Cons_nth_drop_Suc)
  then have "drop start s = take (k - start) (drop start s) @ s ! k # drop (k + 1) s" by (metis append_take_drop_id)
  moreover have "\<forall>c \<in> set (take (k - start) (drop start s)). \<not> P c" using k(4) by (auto simp: in_set_conv_nth)
  ultimately have "pieces P (drop start s) = take (k - start) (drop start s) # pieces P (drop (k + 1) s)"
    using k(3) pieces_app by metis
  with Some show ?thesis by simp
qed

lemma split_loop_pieces: "start \<le> length s \<Longrightarrow> split_loop s start = pieces (\<lambda>c. c = 32) (drop start s)"
proof (induction s start rule: split_loop.induct)
  case (1 s start)
  show ?case
  proof (cases "find_from (\<lambda>c. c = 32) s start")
    case (Some k)
    then show ?thesis using 1 find_from_Some(2) [OF Some] by (subst split_loop.simps) (simp add: find_from_pieces)
  qed (use 1 in \<open>subst split_loop.simps, simp add: find_from_pieces\<close>)
qed

lemma split_pieces: "split s = pieces (\<lambda>c. c = 32) s"
  by (simp add: split_def split_loop_pieces)

lemma splitST_pieces: "splitST s delims = filter (\<lambda>t. t \<noteq> []) (pieces (\<lambda>c. c \<in> set delims) s)"
proof (induction s delims rule: splitST.induct)
  case (1 s delims)
  let ?P = "\<lambda>c. c \<in> set delims"
  let ?u = "takeWhile (\<lambda>c. c \<notin> set delims) s" and ?v = "dropWhile (\<lambda>c. c \<notin> set delims) s"
  have u: "\<forall>c \<in> set ?u. \<not> ?P c" by (auto dest: set_takeWhileD)
  consider (empty) "s = []" | (last) "s \<noteq> []" "?v = []" | (more) d v where "s \<noteq> []" "?v = d # v" by (cases ?v) auto
  then show ?case
  proof cases
    case last
    then have "?u = s" using takeWhile_dropWhile_id [of "\<lambda>c. c \<notin> set delims" s] by simp
    with last u show ?thesis by (subst splitST.simps) (simp only: pieces_no Let_def, simp)
  next
    case (more d v)
    have "?P d" using hd_dropWhile [of "\<lambda>c. c \<notin> set delims" s] more by simp
    moreover have "s = ?u @ d # v" using more takeWhile_dropWhile_id [of "\<lambda>c. c \<notin> set delims" s] by simp
    ultimately have "pieces ?P s = ?u # pieces ?P v" using pieces_app [OF u] by metis
    moreover have "splitST s delims = (if ?u \<noteq> [] then [?u] else []) @ splitST v delims"
      using more by (subst splitST.simps) (simp add: Let_def)
    moreover have "splitST v delims = filter (\<lambda>t. t \<noteq> []) (pieces ?P v)" using 1 more by simp
    ultimately show ?thesis by simp
  qed (simp add: splitST.simps)
qed

lemma splitSV_loop_pieces:
  "first \<le> length s \<Longrightarrow> splitSV_loop s delims first = filter (\<lambda>t. t \<noteq> []) (pieces (\<lambda>c. c \<in> set delims) (drop first s))"
proof (induction s delims first rule: splitSV_loop.induct)
  case (1 s delims first)
  consider (over) "first = length s" | (last) "first < length s" "find_from (\<lambda>c. c \<in> set delims) s first = None"
    | (more) k where "first < length s" "find_from (\<lambda>c. c \<in> set delims) s first = Some k" using 1 by fastforce
  then show ?case
  proof cases
    case (more k)
    then have k: "first \<le> k" "k < length s" using find_from_Some by blast+
    with more have "take (k - first) (drop first s) = [] \<longleftrightarrow> first = k" by auto
    with more k 1 show ?thesis by (subst splitSV_loop.simps) (auto simp: find_from_pieces)
  qed (subst splitSV_loop.simps, simp add: find_from_pieces)+
qed

lemma splitSV_pieces: "splitSV s delims = filter (\<lambda>t. t \<noteq> []) (pieces (\<lambda>c. c \<in> set delims) s)"
  by (simp add: splitSV_def splitSV_loop_pieces)

section \<open>The power of two\<close>

lemma unat_power_2: "k < 64 \<Longrightarrow> unat (2 ^ k :: size_t) = 2 ^ k"
proof -
  assume "k < 64"
  then have "(2 :: nat) ^ k < 2 ^ 64" by (intro power_strict_increasing) simp_all
  then have "unat (of_nat (2 ^ k) :: size_t) = 2 ^ k" by (simp only: unat_of_nat) (simp add: take_bit_nat_eq_self)
  then show ?thesis by simp
qed

lemma adjust_power_2_loop_ok:
  "unat sz < 2 ^ (64 - j) \<Longrightarrow> j < 64 \<Longrightarrow> 0 < sz \<Longrightarrow>
   \<exists>k. j \<le> k \<and> k < 64 \<and> adjust_power_2_loop sz (2 ^ j) = 2 ^ k \<and> 2 ^ (k - j) \<le> unat sz \<and> unat sz < 2 ^ (Suc k - j)"
proof (induction sz "2 ^ j :: size_t" arbitrary: j rule: adjust_power_2_loop.induct)
  case (1 sz)
  let ?h = "drop_bit 1 sz"
  have h: "unat ?h = unat sz div 2" by (rule unat_drop_bit_1)
  show ?case
  proof (cases "?h = 0")
    case True
    then have "unat sz div 2 = 0" using h by simp
    then have "unat sz = 1" using 1(4) by (simp add: word_gt_0 unat_gt_0 div_eq_0_iff flip: unat_0) (metis One_nat_def less_2_cases_iff unat_eq_zero)
    with True 1(3) show ?thesis by (intro exI [of _ j]) (simp add: adjust_power_2_loop.simps)
  next
    case False
    then have pos: "0 < ?h" "0 < unat sz div 2" using h by (simp_all add: word_gt_0 unat_gt_0 flip: h)
    have j: "Suc j < 64"
    proof (rule ccontr)
      assume "\<not> Suc j < 64"
      then have "j = 63" using 1(3) by simp
      then show False using 1(2) pos(2) by simp
    qed
    have "2 ^ (64 - j) = (2 :: nat) * 2 ^ (64 - Suc j)" using j by (simp add: Suc_diff_Suc flip: power_Suc)
    then have lt: "unat ?h < 2 ^ (64 - Suc j)" using 1(2) h by simp
    have e: "push_bit 1 (2 ^ j :: size_t) = 2 ^ Suc j" by (simp add: push_bit_eq_mult)
    obtain k where k: "Suc j \<le> k" "k < 64" "adjust_power_2_loop ?h (2 ^ Suc j) = 2 ^ k"
        "2 ^ (k - Suc j) \<le> unat ?h" "unat ?h < 2 ^ (Suc k - Suc j)"
      using 1(1) [OF refl False e lt j pos(1)] by blast
    have "k - j = Suc (k - Suc j)" "Suc k - j = Suc (Suc k - Suc j)" using k(1) by simp_all
    then have "2 ^ (k - j) \<le> unat sz \<and> unat sz < 2 ^ (Suc k - j)" using k(4,5) h by simp linarith
    moreover have "adjust_power_2_loop sz (2 ^ j) = adjust_power_2_loop ?h (2 ^ Suc j)"
      using False e by (subst adjust_power_2_loop.simps) (simp add: Let_def mult.commute)
    ultimately show ?thesis using k(1,2,3) by (intro exI [of _ k]) simp
  qed
qed

end
