(* ===== verification/Text_Marshaller.thy ===== *)
theory Text_Marshaller
  imports Server Utilities
begin

text \<open>
  The marshalling of arguments and results for the text protocol: the string stream and the strings of
  \<^verbatim>\<open>stream::write\<close> and \<^verbatim>\<open>stream::read\<close> (\<^verbatim>\<open>src/src/bmRPCAnyArg.h\<close>), and the instances for
  strings of the templates in \<^verbatim>\<open>src/src/bmRPCMarshaller.h\<close>. The templates that write are those of
  \<open>Marshaller\<close>, at \<open>write_text\<close>. How a floating-point number is printed and parsed is a parameter, the record
  \<open>text_floats\<close>. There are no blobs in the text protocol.
\<close>

section \<open>Printing and parsing\<close>

text \<open>\<^verbatim>\<open>operator<<\<close> for \<^verbatim>\<open>float\<close> and \<^verbatim>\<open>double\<close>, \<^verbatim>\<open>std::stof\<close> and \<^verbatim>\<open>std::stod\<close>; \<open>None\<close> is an exception.\<close>

record text_floats =
  show_float :: "u32 \<Rightarrow> bytes"
  show_double :: "u64 \<Rightarrow> bytes"
  stof :: "bytes \<Rightarrow> u32 option"
  stod :: "bytes \<Rightarrow> u64 option"

definition to_string_int :: "int \<Rightarrow> bytes" where
  "to_string_int z = (if z < 0 then 45 # to_string_nat (nat (- z)) else to_string_nat (nat z))"

definition show_obj :: "text_floats \<Rightarrow> obj \<Rightarrow> bytes" where
  "show_obj F ob =
     (case ob of
        O_bool w \<Rightarrow> (if w = 0 then str ''0'' else str ''1'')
      | O_char w \<Rightarrow> [w] | O_uchar w \<Rightarrow> [w]
      | O_short w \<Rightarrow> to_string_int (sint w) | O_ushort w \<Rightarrow> to_string_nat (unat w)
      | O_int w \<Rightarrow> to_string_int (sint w) | O_uint w \<Rightarrow> to_string_nat (unat w)
      | O_long w \<Rightarrow> to_string_int (sint w) | O_ulong w \<Rightarrow> to_string_nat (unat w)
      | O_float w \<Rightarrow> show_float F w
      | O_longlong w \<Rightarrow> to_string_int (sint w) | O_ulonglong w \<Rightarrow> to_string_nat (unat w)
      | O_double w \<Rightarrow> show_double F w
      | O_string x \<Rightarrow> x | O_blob x \<Rightarrow> [])"

definition write_text :: "text_floats \<Rightarrow> writer" where
  "write_text F s data = s @ str '' '' @ show_obj F data"

interpretation textual: appending "write_text F" for F
  by unfold_locales (simp add: write_text_def)

text \<open>
  \<^verbatim>\<open>std::from_chars\<close>; without a digit, or out of range, the local variable that it should set stays
  indeterminate.
\<close>

definition from_chars_unsigned :: "bytes \<Rightarrow> 'a::len word option" where
  "from_chars_unsigned s =
     (let ds = takeWhile isdigit s; v = digits_value 0 ds
      in if ds = [] \<or> v \<ge> 2 ^ LENGTH('a) then None else Some (of_nat v))"

definition from_chars_signed :: "bytes \<Rightarrow> 'a::len word option" where
  "from_chars_signed s =
     (let neg = (s \<noteq> [] \<and> hd s = 45);
          ds = takeWhile isdigit (if neg then tl s else s);
          v = (if neg then - int (digits_value 0 ds) else int (digits_value 0 ds))
      in if ds = [] \<or> v < - (2 ^ (LENGTH('a) - 1)) \<or> v \<ge> 2 ^ (LENGTH('a) - 1) then None else Some (word_of_int v))"

definition read_text_char :: "bytes \<Rightarrow> u8" where
  "read_text_char s = hd (s @ [0])"

section \<open>Server side\<close>

definition text_unmarshall_args_in :: "bytes \<Rightarrow> bytes list" where
  "text_unmarshall_args_in data = split data"

text \<open>One turn of the loop; an element that is not there is undefined.\<close>

definition token :: "bytes list \<Rightarrow> nat \<Rightarrow> bytes option" where
  "token data i = (if i < length data then Some (data ! i) else None)"

definition text_deserialize_in_arg :: "text_floats \<Rightarrow> (mem \<Rightarrow> addr) \<Rightarrow> InArgTypeId \<Rightarrow> bytes list \<Rightarrow> nat \<Rightarrow> mem \<Rightarrow> (AnyArg \<times> mem) option" where
  "text_deserialize_in_arg F malloc f data i h =
     (let rd_char = do { s \<leftarrow> token data i; Some (AnyArg_of (read_text_char s), h) };
          rd_long = do { s \<leftarrow> token data i; w \<leftarrow> from_chars_signed s; Some (AnyArg_of (w :: u64), h) };
          rd_ulong = do { s \<leftarrow> token data i; w \<leftarrow> from_chars_unsigned s; Some (AnyArg_of (w :: u64), h) };
          rd_int = do { s \<leftarrow> token data i; w \<leftarrow> from_chars_signed s; Some (AnyArg_of (w :: u32), h) };
          rd_float = do { s \<leftarrow> token data i; w \<leftarrow> stof F s; Some (AnyArg_of w, h) };
          rd_double = do { s \<leftarrow> token data i; w \<leftarrow> stod F s; Some (AnyArg_of w, h) };
          rd_new = do { s \<leftarrow> token data i; let a = malloc h; Some (Ptr a, h(a \<mapsto> O_string s)) }
      in case f of
           In_BOOL \<Rightarrow> rd_char | In_UCHAR \<Rightarrow> rd_char | In_CHAR \<Rightarrow> rd_char
         | In_SHORT \<Rightarrow> do { s \<leftarrow> token data i; w \<leftarrow> from_chars_signed s; Some (AnyArg_of (w :: u16), h) }
         | In_USHORT \<Rightarrow> do { s \<leftarrow> token data i; w \<leftarrow> from_chars_unsigned s; Some (AnyArg_of (w :: u16), h) }
         | In_INT \<Rightarrow> rd_int | In_INT_REF \<Rightarrow> rd_int
         | In_UINT \<Rightarrow> do { s \<leftarrow> token data i; w \<leftarrow> from_chars_unsigned s; Some (AnyArg_of (w :: u32), h) }
         | In_LONG \<Rightarrow> rd_long | In_LONG_REF \<Rightarrow> rd_long
         | In_ULONG \<Rightarrow> rd_ulong
         | In_FLOAT \<Rightarrow> rd_float | In_FLOAT_REF \<Rightarrow> rd_float
         | In_CONST_STRING_REF \<Rightarrow> rd_new | In_STRING_REF \<Rightarrow> rd_new
         | In_LONGLONG \<Rightarrow> rd_long | In_LONGLONG_REF \<Rightarrow> rd_long
         | In_ULONGLONG \<Rightarrow> rd_ulong
         | In_DOUBLE \<Rightarrow> rd_double | In_DOUBLE_REF \<Rightarrow> rd_double
         | _ \<Rightarrow> Some (AnyArg_null, h))"

fun text_deserialize_in_args_from :: "text_floats \<Rightarrow> (mem \<Rightarrow> addr) \<Rightarrow> InArgTypeId list \<Rightarrow> bytes list \<Rightarrow> nat \<Rightarrow> mem \<Rightarrow> (AnyArg list \<times> mem) option" where
  "text_deserialize_in_args_from F malloc [] data i h = Some ([], h)"
| "text_deserialize_in_args_from F malloc (f # fs) data i h =
     do {
       (v, h) \<leftarrow> text_deserialize_in_arg F malloc f data i h;
       (vec, h) \<leftarrow> text_deserialize_in_args_from F malloc fs data (i + 1) h;
       Some (v # vec, h)
     }"

definition text_deserialize_in_args :: "text_floats \<Rightarrow> (mem \<Rightarrow> addr) \<Rightarrow> InArgTypeId list \<Rightarrow> bytes list \<Rightarrow> mem \<Rightarrow> (AnyArg list \<times> mem) option" where
  "text_deserialize_in_args F malloc format data h = text_deserialize_in_args_from F malloc format data 0 h"

text \<open>The body of the closure that \<^verbatim>\<open>connect\<close> stores, in the text protocol: from \<^verbatim>\<open>in_args\<close> to \<^verbatim>\<open>out_args\<close>.\<close>

definition text_f_lambda :: "text_floats \<Rightarrow> (mem \<Rightarrow> addr) \<Rightarrow> cpp_type \<Rightarrow> cpp_type list \<Rightarrow> remote \<Rightarrow> InArgTypeId list \<Rightarrow> RArgTypeId \<Rightarrow>
    bytes list \<Rightarrow> mem \<Rightarrow> (bytes \<times> mem) option" where
  "text_f_lambda F malloc R Args func_address in_args_format r_format in_args h =
     do {
       (vec, h) \<leftarrow> text_deserialize_in_args F malloc in_args_format in_args h;
       (r, vec, h) \<leftarrow> callWithArgs func_address Args vec h;
       if R = T_void
       then do {
         (h, ss) \<leftarrow> serialize_out_args (write_text F) in_args_format vec h [];
         Some (ltrim ss, h)
       }
       else do {
         returned_value \<leftarrow> r;
         val \<leftarrow> AnyArg_result returned_value;
         ss \<leftarrow> serialize_r (write_text F) r_format val h [];
         (h, ss) \<leftarrow> serialize_out_args (write_text F) in_args_format vec h ss;
         Some (ltrim ss, h)
       }
     }"

section \<open>Client side\<close>

text \<open>The part of \<^verbatim>\<open>asyncRPC\<close> that makes \<^verbatim>\<open>in_args\<close>, with the addresses of the results.\<close>

definition text_in_args :: "text_floats \<Rightarrow> cpp_type list \<Rightarrow> actual list \<Rightarrow> mem \<Rightarrow> (addr list \<times> bytes) option" where
  "text_in_args F Args args m =
     do { (addresses, ss) \<leftarrow> serialize_args (write_text F) Args args m [] []; Some (addresses, ltrim ss) }"

definition text_unmarshall_out_args :: "RArgTypeId \<Rightarrow> bytes \<Rightarrow> (bytes \<times> bytes list) option" where
  "text_unmarshall_out_args format data =
     (let sdata = split data
      in if format \<noteq> R_VOID then do { r_arg \<leftarrow> token sdata 0; Some (r_arg, drop 1 sdata) } else Some ([], sdata))"

definition text_deserialize_r :: "text_floats \<Rightarrow> RArgTypeId \<Rightarrow> bytes \<Rightarrow> ReturnValue option" where
  "text_deserialize_r F format data =
     (let ok = (\<lambda>v. \<lparr>rv_valid = True, rv_type = format, rv_value = v\<rparr>)
      in case format of
           R_INT \<Rightarrow> map_option (\<lambda>w. ok (AnyArg_of (w :: u32))) (from_chars_signed data)
         | R_LONG \<Rightarrow> map_option (\<lambda>w. ok (AnyArg_of (w :: u64))) (from_chars_signed data)
         | R_FLOAT \<Rightarrow> map_option (\<lambda>w. ok (AnyArg_of w)) (stof F data)
         | R_LONGLONG \<Rightarrow> map_option (\<lambda>w. ok (AnyArg_of (w :: u64))) (from_chars_signed data)
         | R_DOUBLE \<Rightarrow> map_option (\<lambda>w. ok (AnyArg_of w)) (stod F data)
         | _ \<Rightarrow> Some \<lparr>rv_valid = False, rv_type = format, rv_value = AnyArg_null\<rparr>)"

text \<open>The object that a turn of the loop stores, if it stores one.\<close>

definition text_deserialize_out_arg :: "text_floats \<Rightarrow> OutArgTypeId \<Rightarrow> bytes list \<Rightarrow> nat \<Rightarrow> obj option option" where
  "text_deserialize_out_arg F f data i =
     (case f of
        Out_INT_REF \<Rightarrow> do { s \<leftarrow> token data i; w \<leftarrow> from_chars_signed s; Some (Some (O_int w)) }
      | Out_LONG_REF \<Rightarrow> do { s \<leftarrow> token data i; w \<leftarrow> from_chars_signed s; Some (Some (O_long w)) }
      | Out_FLOAT_REF \<Rightarrow> do { s \<leftarrow> token data i; w \<leftarrow> stof F s; Some (Some (O_float w)) }
      | Out_STRING_REF \<Rightarrow> do { s \<leftarrow> token data i; Some (Some (O_string s)) }
      | Out_LONGLONG_REF \<Rightarrow> do { s \<leftarrow> token data i; w \<leftarrow> from_chars_signed s; Some (Some (O_longlong w)) }
      | Out_DOUBLE_REF \<Rightarrow> do { s \<leftarrow> token data i; w \<leftarrow> stod F s; Some (Some (O_double w)) }
      | _ \<Rightarrow> Some None)"

fun text_deserialize_out_args_from :: "text_floats \<Rightarrow> OutArgTypeId list \<Rightarrow> bytes list \<Rightarrow> nat \<Rightarrow> addr list \<Rightarrow> mem \<Rightarrow> mem option" where
  "text_deserialize_out_args_from F [] data i addresses m = Some m"
| "text_deserialize_out_args_from F (f # fs) data i addresses m =
     do {
       r \<leftarrow> text_deserialize_out_arg F f data i;
       m \<leftarrow> (case r of
               None \<Rightarrow> Some m
             | Some x \<Rightarrow> (if i < length addresses then assign_at m (addresses ! i) x else None));
       text_deserialize_out_args_from F fs data (i + 1) addresses m
     }"

definition text_deserialize_out_args :: "text_floats \<Rightarrow> OutArgTypeId list \<Rightarrow> bytes list \<Rightarrow> addr list \<Rightarrow> mem \<Rightarrow> mem option" where
  "text_deserialize_out_args F format data addresses m = text_deserialize_out_args_from F format data 0 addresses m"

section \<open>Numbers\<close>

text \<open>What is printed for an integer is read back, at every width.\<close>

lemma from_chars_unsigned_nat: "from_chars_unsigned (to_string_nat (unat w)) = Some (w :: 'a::len word)"
  using unsigned_less [of w, where 'a = nat]
  by (simp add: from_chars_unsigned_def takeWhile_all [OF to_string_nat_digits] digits_value_to_string not_le Let_def)

lemma to_string_nat_no_sign: "hd (to_string_nat n) \<noteq> 45"
proof -
  have "isdigit (hd (to_string_nat n))" using to_string_nat_digits by (metis list.set_sel(1) to_string_nat_nonempty)
  then show ?thesis by (auto simp: isdigit_def)
qed

lemma from_chars_signed_int: "from_chars_signed (to_string_int (sint w)) = Some (w :: 'a::len word)"
proof -
  have "- (2 ^ (LENGTH('a) - 1)) \<le> sint w" "sint w < 2 ^ (LENGTH('a) - 1)" by (rule sint_ge, rule sint_lt)
  then show ?thesis
    by (auto simp: from_chars_signed_def to_string_int_def takeWhile_all [OF to_string_nat_digits] digits_value_to_string to_string_nat_no_sign)
qed

section \<open>Tokens\<close>

text \<open>A token: not empty, and without the characters at which strings are split or trimmed.\<close>

definition is_token :: "bytes \<Rightarrow> bool" where
  "is_token x \<longleftrightarrow> x \<noteq> [] \<and> (\<forall>c \<in> set x. \<not> isspace c)"

lemma isdigit_not_space: "isdigit c \<Longrightarrow> \<not> isspace c"
  by (auto simp: isdigit_def isspace_def word_le_nat_alt)

lemma is_token_nat [simp]: "is_token (to_string_nat n)"
  using to_string_nat_digits isdigit_not_space by (auto simp: is_token_def)

lemma is_token_int [simp]: "is_token (to_string_int z)"
  using to_string_nat_digits isdigit_not_space by (auto simp: is_token_def to_string_int_def isspace_def)

text \<open>
  The objects that the text protocol carries: not the Boolean ones, no strings that are empty or have white space, and the
  floating-point numbers that can be read back from what is printed.
\<close>

definition text_safe :: "text_floats \<Rightarrow> obj \<Rightarrow> bool" where
  "text_safe F ob \<longleftrightarrow>
     (case ob of
        O_bool w \<Rightarrow> False | O_blob x \<Rightarrow> False
      | O_char w \<Rightarrow> \<not> isspace w | O_uchar w \<Rightarrow> \<not> isspace w
      | O_float w \<Rightarrow> is_token (show_float F w) \<and> stof F (show_float F w) = Some w
      | O_double w \<Rightarrow> is_token (show_double F w) \<and> stod F (show_double F w) = Some w
      | O_string x \<Rightarrow> is_token x
      | _ \<Rightarrow> True)"

lemma text_safe_token: "text_safe F x \<Longrightarrow> is_token (show_obj F x)"
  by (cases x) (auto simp: text_safe_def show_obj_def is_token_def [of "[_]"])

lemma ltrim_token: "is_token x \<Longrightarrow> ltrim (x @ s) = x @ s"
  by (cases x) (simp_all add: ltrim_def is_token_def)

lemma concat_join: "xs \<noteq> [] \<Longrightarrow> concat (map (\<lambda>x. 32 # x) xs) = 32 # join xs"
  by (induction xs rule: join.induct) simp_all

lemma ltrim_join: "\<forall>x \<in> set xs. is_token x \<Longrightarrow> ltrim (concat (map (\<lambda>x. 32 # x) xs)) = join xs"
proof (cases xs)
  case (Cons x ys)
  assume t: "\<forall>x \<in> set xs. is_token x"
  have "concat (map (\<lambda>x. 32 # x) (x # ys)) = 32 # join (x # ys)" by (rule concat_join) simp
  moreover have "join (x # ys) = x @ drop (length x) (join (x # ys))" by (cases ys) simp_all
  then have "ltrim (join (x # ys)) = join (x # ys)" using t Cons ltrim_token [of x] by (metis list.set_intros(1))
  ultimately show ?thesis using Cons by (simp add: ltrim_def isspace_def)
qed (simp add: ltrim_def)

lemma split_join: "xs \<noteq> [] \<Longrightarrow> \<forall>x \<in> set xs. is_token x \<Longrightarrow> split (join xs) = xs"
  by (rule trans [OF split_pieces pieces_join]) (auto simp: is_token_def isspace_def)

lemma split_ltrim:
  assumes "\<forall>x \<in> set xs. text_safe F x" and "xs \<noteq> []"
  shows "split (ltrim (concat (map (write_text F []) xs))) = map (show_obj F) xs"
proof -
  have "concat (map (write_text F []) xs) = concat (map (\<lambda>x. 32 # x) (map (show_obj F) xs))" by (simp add: write_text_def [abs_def] str_def comp_def)
  moreover have t: "\<forall>x \<in> set (map (show_obj F) xs). is_token x" using assms text_safe_token by auto
  ultimately show ?thesis using ltrim_join [OF t] split_join [OF _ t] assms(2) by simp
qed

section \<open>Round trips\<close>

lemma text_in_arg_scalar:
  assumes "has_type t x" and "\<not> is_container t" and "text_safe F x" and "token data i = Some (show_obj F x)"
  shows "\<exists>w. text_deserialize_in_arg F malloc (ParamType_in_id t) data i h = Some (Val w, h) \<and> getAs t (Val w) h' = Some x"
  using assms
  by (cases t; cases x)
    (simp_all add: has_type_def is_container_def text_safe_def text_deserialize_in_arg_def show_obj_def from_chars_signed_int
      from_chars_unsigned_nat read_text_char_def AnyArg_of_def ucast_u64)

lemma text_in_arg_container:
  assumes "has_type t x" and "is_container t" and "text_safe F x" and "token data i = Some (show_obj F x)"
  shows "text_deserialize_in_arg F malloc (ParamType_in_id t) data i h = Some (Ptr (malloc h), h(malloc h \<mapsto> x))"
  using assms
  by (cases t; cases x) (simp_all add: has_type_def is_container_def text_safe_def text_deserialize_in_arg_def show_obj_def Let_def)

definition text_args_ok :: "text_floats \<Rightarrow> cpp_type list \<Rightarrow> obj list \<Rightarrow> bool" where
  "text_args_ok F ts xs \<longleftrightarrow> list_all2 (\<lambda>t x. has_type t x \<and> text_safe F x) ts xs"

lemma text_args_safe: "text_args_ok F ts xs \<Longrightarrow> \<forall>x \<in> set xs. text_safe F x"
  by (auto simp: text_args_ok_def list_all2_conv_all_nth in_set_conv_nth)

lemma token_middle: "token (pre @ x # rest) (length pre) = Some x"
  by (simp add: token_def)

context allocator
begin

lemma text_deserialize_in_args_from_ok:
  assumes "text_args_ok F ts xs" and "finite (dom h)"
  shows "\<exists>vs h'. text_deserialize_in_args_from F malloc (map ParamType_in_id ts) (pre @ map (show_obj F) xs @ rest) (length pre) h = Some (vs, h') \<and>
           get_params ts vs h' = Some xs \<and> owns ts vs h h' \<and> h \<subseteq>\<^sub>m h' \<and> finite (dom h')"
  using assms
proof (induction ts xs arbitrary: pre h rule: list_induct2')
  case (4 t ts x xs)
  then have tx: "has_type t x" "text_safe F x" and rest: "text_args_ok F ts xs" by (simp_all add: text_args_ok_def)
  let ?D = "pre @ map (show_obj F) (x # xs) @ rest" and ?pre = "pre @ [show_obj F x]"
  have D: "?D = ?pre @ map (show_obj F) xs @ rest" and n: "Suc (length pre) = length ?pre" by simp_all
  have k: "token ?D (length pre) = Some (show_obj F x)" by (simp add: token_middle)
  show ?case
  proof (cases "is_container t")
    case False
    obtain w where w: "text_deserialize_in_arg F malloc (ParamType_in_id t) ?D (length pre) h = Some (Val w, h)"
      "\<And>h'. getAs t (Val w) h' = Some x"
      using text_in_arg_scalar [OF tx(1) False tx(2) k, of malloc h h] getAs_scalar [OF False, of _ _ h] by metis
    with 4(1) [OF rest 4(3), of ?pre] False show ?thesis unfolding D by (auto simp: n simp del: length_append)
  next
    case True
    have i: "text_deserialize_in_arg F malloc (ParamType_in_id t) ?D (length pre) h = Some (Ptr (malloc h), h(malloc h \<mapsto> x))"
      by (rule text_in_arg_container [OF tx(1) True tx(2) k])
    have f: "malloc h \<notin> dom h" using fresh [OF 4(3)] .
    have "finite (dom (h(malloc h \<mapsto> x)))" using 4(3) by simp
    from 4(1) [OF rest this, of ?pre] obtain vs h' where v:
      "text_deserialize_in_args_from F malloc (map ParamType_in_id ts) ?D (length ?pre) (h(malloc h \<mapsto> x)) = Some (vs, h')"
      "get_params ts vs h' = Some xs" "owns ts vs (h(malloc h \<mapsto> x)) h'" "h(malloc h \<mapsto> x) \<subseteq>\<^sub>m h'" "finite (dom h')"
      unfolding D by blast
    have o: "h' (malloc h) = Some x" "owns ts vs h (h'(malloc h := None))" using owns_extend [OF v(3) f] by auto
    have "h \<subseteq>\<^sub>m h(malloc h \<mapsto> x)" using f by (auto simp: map_le_def)
    then have "h \<subseteq>\<^sub>m h'" using v(4) by (rule map_le_trans)
    with i v(1,2,5) o True f tx getAs_Ptr [OF tx(1) True, of h'] show ?thesis by (auto simp: n simp del: length_append)
  qed
qed (auto simp: text_args_ok_def)

text \<open>The server reads the arguments from the string that the client made of them.\<close>

lemma text_deserialize_in_args_ok:
  assumes "text_args_ok F ts xs" and "finite (dom h)"
  obtains vs h' where
      "text_deserialize_in_args F malloc (map ParamType_in_id ts) (text_unmarshall_args_in (ltrim (concat (map (write_text F []) xs)))) h = Some (vs, h')"
    and "get_params ts vs h' = Some xs" and "owns ts vs h h'" and "finite (dom h')"
proof (cases "xs = []")
  case True
  then have "ts = []" using assms(1) by (simp add: text_args_ok_def)
  with True assms(2) show thesis by (intro that [of "[]" h]) (simp_all add: text_deserialize_in_args_def)
next
  case False
  have "text_unmarshall_args_in (ltrim (concat (map (write_text F []) xs))) = map (show_obj F) xs"
    unfolding text_unmarshall_args_in_def by (rule split_ltrim [OF text_args_safe [OF assms(1)] False])
  with text_deserialize_in_args_from_ok [OF assms, of "[]" "[]"] that show thesis by (auto simp: text_deserialize_in_args_def)
qed

end

text \<open>The client reads the results.\<close>

lemma text_out_arg_ok:
  assumes "is_out t" and "has_type t y" and "text_safe F y" and "token data i = Some (show_obj F y)"
  shows "text_deserialize_out_arg F (ParamType_out_id t) data i = Some (Some y)"
  using assms
  by (cases t; cases y)
    (simp_all add: has_type_def is_out_def text_safe_def text_deserialize_out_arg_def show_obj_def from_chars_signed_int)

definition text_outs_ok :: "text_floats \<Rightarrow> cpp_type list \<Rightarrow> obj list \<Rightarrow> bool" where
  "text_outs_ok F ts ys \<longleftrightarrow> list_all2 (\<lambda>t y. has_type t y \<and> (is_out t \<longrightarrow> text_safe F y)) ts ys"

lemma text_outs_safe: "text_outs_ok F ts ys \<Longrightarrow> \<forall>y \<in> set (outs ts ys). text_safe F y"
  unfolding text_outs_ok_def by (induction ts ys rule: list_all2_induct) auto

lemma text_deserialize_out_args_from_ok:
  assumes "text_outs_ok F ts ys" and "list_all2 (\<lambda>a y. \<exists>x. m a = Some x \<and> obj_base x = obj_base y) addrs (outs ts ys)"
    and "length pre = length apre"
  shows "text_deserialize_out_args_from F (map ParamType_out_id (filter is_out ts)) (pre @ map (show_obj F) (outs ts ys)) (length pre) (apre @ addrs) m =
           Some (m(addrs [\<mapsto>] outs ts ys))"
  using assms
proof (induction ts ys arbitrary: pre apre addrs m rule: list_induct2')
  case (4 t ts y ys)
  then have ty: "has_type t y" "is_out t \<Longrightarrow> text_safe F y" and ok: "text_outs_ok F ts ys" by (simp_all add: text_outs_ok_def)
  show ?case
  proof (cases "is_out t")
    case False
    with 4(1) [OF ok] 4(3,4) show ?thesis by simp
  next
    case True
    then obtain a as x where a: "addrs = a # as" "m a = Some x" "obj_base x = obj_base y"
      "list_all2 (\<lambda>a y. \<exists>x. m a = Some x \<and> obj_base x = obj_base y) as (outs ts ys)"
      using 4(3) by (auto simp: list_all2_Cons2)
    define m1 where "m1 = m(a \<mapsto> y)"
    have m1: "list_all2 (\<lambda>a y. \<exists>x. m1 a = Some x \<and> obj_base x = obj_base y) as (outs ts ys)"
      using a(2-4) by (auto simp: m1_def elim!: list_all2_mono)
    let ?D = "pre @ map (show_obj F) (outs (t # ts) (y # ys))"
    have "token ?D (length pre) = Some (show_obj F y)" using True by (simp add: token_middle)
    then have "text_deserialize_out_arg F (ParamType_out_id t) ?D (length pre) = Some (Some y)" by (rule text_out_arg_ok [OF True ty(1) ty(2) [OF True]])
    moreover have "(apre @ addrs) ! length pre = a" "length pre < length (apre @ addrs)" using a(1) 4(4) by simp_all
    moreover have "assign_at m a y = Some m1" using a(2,3) by (simp add: assign_at_def m1_def)
    moreover have "text_deserialize_out_args_from F (map ParamType_out_id (filter is_out ts)) ?D (length pre + 1) (apre @ addrs) m1 = Some (m1(as [\<mapsto>] outs ts ys))"
      using 4(1) [OF ok m1, of "pre @ [show_obj F y]" "apre @ [a]"] 4(4) True a(1) by simp
    ultimately show ?thesis using True a(1) by (simp add: m1_def)
  qed
qed (simp_all add: text_outs_ok_def)

section \<open>A call\<close>

definition result_list :: "cpp_type \<Rightarrow> obj option \<Rightarrow> obj list" where
  "result_list R r = (if R = T_void then [] else (case r of None \<Rightarrow> [] | Some x \<Rightarrow> [x]))"

lemma text_serialize_args:
  "actuals_ok ts as xs m \<Longrightarrow> text_in_args F ts as m = Some (kept ts as, ltrim (concat (map (write_text F []) xs)))"
  using textual.serialize_args_ok [of ts as xs m F "[]" "[]"] by (simp add: text_in_args_def)

context allocator
begin

text \<open>The reply has the result and the objects of the reference parameters; what the arguments own is freed.\<close>

lemma text_f_lambda_ok:
  assumes sig: "ParamTraits_valid R Args" and xs: "text_args_ok F Args xs" and f: "remote_typed R Args func xs" and h: "finite (dom h)"
  shows "text_f_lambda F malloc R Args func (codify_in_args Args) (ParamType_r_id R)
           (text_unmarshall_args_in (ltrim (concat (map (write_text F []) xs)))) h =
         Some (ltrim (concat (map (write_text F []) (result_list R (fst (func xs)) @ outs Args (snd (func xs))))), h)"
proof -
  obtain r ys where fx: "func xs = (r, ys)" by (cases "func xs")
  have fmt: "codify_in_args Args = map ParamType_in_id Args" using sig codify_valid by (simp add: ParamTraits_valid_def)
  obtain vs h1 where 1:
    "text_deserialize_in_args F malloc (map ParamType_in_id Args) (text_unmarshall_args_in (ltrim (concat (map (write_text F []) xs)))) h = Some (vs, h1)"
    "get_params Args vs h1 = Some xs" "owns Args vs h h1"
    using text_deserialize_in_args_ok [OF xs h] by metis
  have "list_all2 has_type Args ys" using f fx by (simp add: remote_typed_def)
  from textual.serialize_out_args_ok [OF 1(3) this, of F] obtain vs2 h2 where 2: "assign_params Args ys vs h1 = Some (vs2, h2)"
    "\<And>buf. serialize_out_args (write_text F) (map ParamType_in_id Args) vs2 h2 buf = Some (h, buf @ concat (map (write_text F []) (outs Args ys)))"
    by blast
  have c: "callWithArgs func Args vs h1 = Some (r, vs2, h2)" using 1(2) 2(1) fx by (simp add: callWithArgs_def)
  have r: "result_ok R r" using f fx by (simp add: remote_typed_def)
  show ?thesis
  proof (cases "R = T_void")
    case True
    then show ?thesis using fmt 1(1) c 2(2) fx by (simp add: text_f_lambda_def result_list_def)
  next
    case False
    obtain x v where "r = Some x" "AnyArg_result x = Some v" "serialize_r (write_text F) (ParamType_r_id R) v h2 [] = Some (write_text F [] x)"
      using AnyArg_result_ok [OF r False, of "write_text F" h2 "[]"] by auto
    with False show ?thesis using fmt 1(1) c 2(2) fx by (simp add: text_f_lambda_def result_list_def)
  qed
qed

end

lemma text_deserialize_r_ok:
  assumes "result_ok R r" and "R \<noteq> T_void" and "r = Some x" and "text_safe F x"
  shows "\<exists>v. text_deserialize_r F (ParamType_r_id R) (show_obj F x) = Some \<lparr>rv_valid = True, rv_type = ParamType_r_id R, rv_value = v\<rparr> \<and>
           (\<forall>h. getAs R v h = Some x)"
  using assms(1,2)
  by (cases rule: result_cases)
    (use assms(3,4) in \<open>simp_all add: text_deserialize_r_def show_obj_def text_safe_def from_chars_signed_int AnyArg_of_def ucast_u64\<close>)

lemma text_unmarshall_out_args_ok:
  assumes r: "result_ok R r" and safe: "\<forall>x \<in> set (result_list R r @ ys). text_safe F x"
  obtains r_arg out_args where
      "text_unmarshall_out_args (ParamType_r_id R) (ltrim (concat (map (write_text F []) (result_list R r @ ys)))) = Some (r_arg, out_args)"
    and "ys \<noteq> [] \<Longrightarrow> out_args = map (show_obj F) ys" and "R \<noteq> T_void \<Longrightarrow> \<exists>x. r = Some x \<and> r_arg = show_obj F x"
proof (cases "R = T_void")
  case True
  show thesis
  proof (cases "ys = []")
    case False
    with True split_ltrim [OF safe] show thesis by (intro that [of "[]" "map (show_obj F) ys"]) (simp_all add: text_unmarshall_out_args_def result_list_def)
  qed (use True that in \<open>simp add: text_unmarshall_out_args_def\<close>)
next
  case False
  then obtain x where x: "r = Some x" using r by (auto simp: result_ok_def)
  have "ParamType_r_id R \<noteq> R_VOID" using False by (cases R) simp_all
  with x False split_ltrim [OF safe] show thesis
    by (intro that [of "show_obj F x" "map (show_obj F) ys"]) (simp_all add: text_unmarshall_out_args_def result_list_def token_def)
qed

lemma text_deserialize_out_args_ok:
  assumes "text_outs_ok F ts ys" and "list_all2 (\<lambda>a y. \<exists>x. m a = Some x \<and> obj_base x = obj_base y) addrs (outs ts ys)"
    and "outs ts ys \<noteq> [] \<Longrightarrow> data = map (show_obj F) (outs ts ys)"
  shows "text_deserialize_out_args F (map ParamType_out_id (filter is_out ts)) data addrs m = Some (m(addrs [\<mapsto>] outs ts ys))"
proof (cases "outs ts ys = []")
  case True
  have "filter is_out ts = []" using assms(1) True unfolding text_outs_ok_def by (induction ts ys rule: list_all2_induct) (auto split: if_splits)
  with True assms(2) show ?thesis by (simp add: text_deserialize_out_args_def)
next
  case False
  with text_deserialize_out_args_from_ok [OF assms(1,2), of "[]" "[]"] assms(3) show ?thesis by (simp add: text_deserialize_out_args_def)
qed

end
