(* ===== verification/Text_Properties.thy ===== *)
theory Text_Properties
  imports Text_Serializer Text_Marshaller Wire_Properties
begin

text \<open>
  The properties of the text protocol: the layout of its messages, the round trip of a call through strings, and the string
  utilities it uses.
\<close>

section \<open>Messages\<close>

context byte_link
begin

lemma text_send_layout:
  assumes "Streamer_inv com_ok s" and "ts_active ser"
  shows "\<exists>b t s'. TextSerializer_send C ser s = Some (b, t, s') \<and> Streamer_inv com_ok s' \<and>
            out_stream outq s' @ ts_todo t = out_stream outq s @ ts_todo ser \<and> in_stream inq s' = in_stream inq s \<and>
            (if b then ts_todo t = [] else ts_active t) \<and>
            (tx_count s < 1024 \<longrightarrow> length (ts_todo t) < length (ts_todo ser))"
proof -
  obtain b t s' where "TextSerializer_send C ser s = Some (b, t, s')" "if b then ts_todo t = [] else ts_active t"
    "sent s s' (ts_todo ser) (ts_todo t)"
    using text_send_ok [OF assms] .
  then show ?thesis by (intro exI [of _ b] exI [of _ t] exI [of _ s']) (auto simp: sent_def tx_frame_in_stream)
qed

end

text \<open>C23. The text \<^verbatim>\<open>Serializer::send\<close> may be called at any time, with any room in the buffer: what it writes is the next part of
  the three C strings of the message, identifier, name and arguments, in order; it reports the end exactly when nothing is left, and
  with room in the buffer each call makes progress.\<close>

theorem text_send_writes_layout:
  assumes "byte_link C com_ok inq outq" and "Streamer_inv com_ok s" and "ts_active ser"
  shows "\<exists>b t s'. TextSerializer_send C ser s = Some (b, t, s') \<and> Streamer_inv com_ok s' \<and>
            out_stream outq s' @ ts_todo t = out_stream outq s @ ts_todo ser \<and> in_stream inq s' = in_stream inq s \<and>
            (if b then ts_todo t = [] else ts_active t) \<and>
            (tx_count s < 1024 \<longrightarrow> length (ts_todo t) < length (ts_todo ser))"
  by (rule byte_link.text_send_layout [OF assms])

definition small_text :: TextMessage where
  "small_text = \<lparr>tm_name = str ''int f int'', tm_id = str ''7'', tm_value = str ''-12''\<rparr>"

lemma small_text_ok: "text_ok small_text"
  by (simp add: text_ok_def small_text_def str_def)

lemma small_text_wire: "length (text_wire small_text) = 16"
  by (simp add: text_wire_def small_text_def c_str_def str_def)

theorem text_send_writes_layout_witness:
  "\<exists>b t s'. TextSerializer_send ServerCom (TextSerializer_init (Some small_text) TextSerializer_new) ready_streamer = Some (b, t, s') \<and>
     out_stream (out_content \<circ> srv_sb) s' @ ts_todo t = text_wire small_text \<and> length (ts_todo t) < 16"
proof -
  note a = text_init_active [OF small_text_ok, of TextSerializer_new]
  from text_send_writes_layout [OF srv_bytes.byte_link_axioms ready_streamer_inv a(1)] a(2) show ?thesis by (auto simp: small_text_wire)
qed



section \<open>Calls\<close>

context allocator
begin

lemma text_call_trip:
  assumes as: "actuals_ok Args as xs m" and sig: "ParamTraits_valid R Args" and ptr: "no_const_ptr Args" and xs: "text_args_ok F Args xs"
    and f: "remote_typed R Args func xs" and ys: "text_outs_ok F Args (snd (func xs))"
    and r: "\<forall>x \<in> set (result_list R (fst (func xs))). text_safe F x" and h: "finite (dom h)"
  shows "\<exists>addrs data out r_arg out_args rv.
           text_in_args F Args as m = Some (addrs, data) \<and>
           text_f_lambda F malloc R Args func (codify_in_args Args) (ParamType_r_id R) (text_unmarshall_args_in data) h = Some (out, h) \<and>
           text_unmarshall_out_args (ParamType_r_id R) out = Some (r_arg, out_args) \<and>
           text_deserialize_r F (ParamType_r_id R) r_arg = Some rv \<and>
           (if R = T_void then \<not> rv_valid rv else rv_valid rv \<and> getAs R (rv_value rv) Map.empty = fst (func xs)) \<and>
           text_deserialize_out_args F (codify_out_args Args) out_args addrs m = Some (m(kept Args as [\<mapsto>] outs Args (snd (func xs))))"
proof -
  let ?r = "fst (func xs)" and ?ys = "snd (func xs)"
  have res: "result_ok R ?r" and tys: "list_all2 has_type Args ?ys" using f by (simp_all add: remote_typed_def)
  have valid: "list_all ParamType_valid Args" using sig by (simp add: ParamTraits_valid_def)
  have safe: "\<forall>x \<in> set (result_list R ?r @ outs Args ?ys). text_safe F x" using r text_outs_safe [OF ys] by auto
  obtain r_arg out_args where u:
      "text_unmarshall_out_args (ParamType_r_id R) (ltrim (concat (map (write_text F []) (result_list R ?r @ outs Args ?ys)))) = Some (r_arg, out_args)"
      "outs Args ?ys \<noteq> [] \<Longrightarrow> out_args = map (show_obj F) (outs Args ?ys)" "R \<noteq> T_void \<Longrightarrow> \<exists>x. ?r = Some x \<and> r_arg = show_obj F x"
    by (rule text_unmarshall_out_args_ok [OF res safe]) (rule that, assumption+)
  have "\<exists>rv. text_deserialize_r F (ParamType_r_id R) r_arg = Some rv \<and>
      (if R = T_void then \<not> rv_valid rv else rv_valid rv \<and> getAs R (rv_value rv) Map.empty = ?r)"
  proof (cases "R = T_void")
    case True
    then show ?thesis by (simp add: text_deserialize_r_def)
  next
    case False
    then obtain x where x: "?r = Some x" "r_arg = show_obj F x" using u(3) by auto
    have "text_safe F x" using r x(1) False by (simp add: result_list_def)
    from text_deserialize_r_ok [OF res False x(1) this] show ?thesis using x False by auto
  qed
  then show ?thesis
    using text_serialize_args [OF as, of F] text_f_lambda_ok [OF sig xs f h] u(1)
      text_deserialize_out_args_ok [OF ys kept_typed [OF as tys valid ptr] u(2)] codify_valid(2) [OF valid] by simp
qed

end

text \<open>C22. A call through the text protocol: the string that the client makes of the arguments is split by the server into the same
  objects, the remote function is called on them and the server's memory is given back; of the reply the
  client makes the result of the function and stores each output at the address of its parameter. This is for integers, single
  characters other than white space, strings that are not empty and have no white space, and those floating-point numbers that are read back from what is
  printed.\<close>

theorem text_call_round_trip:
  assumes "allocator malloc" and "actuals_ok Args as xs m" and "ParamTraits_valid R Args" and "no_const_ptr Args" and "text_args_ok F Args xs"
    and "remote_typed R Args func xs" and "text_outs_ok F Args (snd (func xs))"
    and "\<forall>x \<in> set (result_list R (fst (func xs))). text_safe F x" and "finite (dom h)"
  shows "\<exists>addrs data out r_arg out_args rv.
           text_in_args F Args as m = Some (addrs, data) \<and>
           text_f_lambda F malloc R Args func (codify_in_args Args) (ParamType_r_id R) (text_unmarshall_args_in data) h = Some (out, h) \<and>
           text_unmarshall_out_args (ParamType_r_id R) out = Some (r_arg, out_args) \<and>
           text_deserialize_r F (ParamType_r_id R) r_arg = Some rv \<and>
           (if R = T_void then \<not> rv_valid rv else rv_valid rv \<and> getAs R (rv_value rv) Map.empty = fst (func xs)) \<and>
           text_deserialize_out_args F (codify_out_args Args) out_args addrs m = Some (m(kept Args as [\<mapsto>] outs Args (snd (func xs))))"
  by (rule allocator.text_call_trip [OF assms])

text \<open>A function that returns its first argument and changes the string, and a printer of floating-point numbers.\<close>

definition greet :: remote where
  "greet xs = (Some (xs ! 0), [xs ! 0, O_string (str ''hello''), xs ! 2])"

definition bit_floats :: text_floats where
  "bit_floats = \<lparr>show_float = (\<lambda>w. to_string_nat (unat w)), show_double = (\<lambda>w. to_string_nat (unat w)),
     stof = from_chars_unsigned, stod = from_chars_unsigned\<rparr>"

theorem text_call_round_trip_witness:
  "\<exists>addrs data out r_arg out_args rv.
     text_in_args bit_floats [T_int, T_string_ref, T_float] [By_value (O_int (- 5)), Lvalue 20, By_value (O_float 7)] [20 \<mapsto> O_string (str ''x'')] = Some (addrs, data) \<and>
     text_f_lambda bit_floats next_address T_int [T_int, T_string_ref, T_float] greet (codify_in_args [T_int, T_string_ref, T_float]) R_INT
       (text_unmarshall_args_in data) Map.empty = Some (out, Map.empty) \<and>
     text_unmarshall_out_args R_INT out = Some (r_arg, out_args) \<and> text_deserialize_r bit_floats R_INT r_arg = Some rv \<and>
     getAs T_int (rv_value rv) Map.empty = Some (O_int (- 5)) \<and>
     text_deserialize_out_args bit_floats (codify_out_args [T_int, T_string_ref, T_float]) out_args addrs [20 \<mapsto> O_string (str ''x'')] =
       Some [20 \<mapsto> O_string (str ''hello'')]"
proof -
  let ?Args = "[T_int, T_string_ref, T_float]" and ?as = "[By_value (O_int (- 5)), Lvalue 20, By_value (O_float 7)]"
  let ?xs = "[O_int (- 5), O_string (str ''x''), O_float 7]" and ?m = "[20 \<mapsto> O_string (str ''x'')]"
  have 1: "actuals_ok ?Args ?as ?xs ?m" by (simp add: actual_ok_def has_type_def obj_small_def is_reference_def is_pointer_def str_def)
  have 2: "ParamTraits_valid T_int ?Args" "no_const_ptr ?Args" by (simp_all add: ParamTraits_valid_def ReturnType_valid_def no_const_ptr_def)
  have t: "is_token (str ''x'')" "is_token (str ''hello'')" by (simp_all add: is_token_def isspace_def str_def)
  have fl: "text_safe bit_floats (O_float 7)" using from_chars_unsigned_nat [of "7 :: u32"] by (simp add: text_safe_def bit_floats_def)
  have 3: "text_args_ok bit_floats ?Args ?xs" using t fl by (simp add: text_args_ok_def has_type_def) (simp add: text_safe_def)
  have g: "greet ?xs = (Some (O_int (- 5)), [O_int (- 5), O_string (str ''hello''), O_float 7])" by (simp add: greet_def)
  have 4: "remote_typed T_int ?Args greet ?xs" by (simp add: remote_typed_def g result_ok_def ReturnType_valid_def has_type_def)
  have 5: "text_outs_ok bit_floats ?Args (snd (greet ?xs))" using t by (simp add: text_outs_ok_def g has_type_def is_out_def text_safe_def)
  have 6: "\<forall>x \<in> set (result_list T_int (fst (greet ?xs))). text_safe bit_floats x" by (simp add: result_list_def g text_safe_def)
  have k: "kept ?Args ?as = [20]" "outs ?Args (snd (greet ?xs)) = [O_string (str ''hello'')]"
    by (simp_all add: kept_def keeps_def is_reference_def is_pointer_def is_const_noref_def g is_out_def)
  from text_call_round_trip [OF heap.allocator_axioms 1 2 3 4 5 6, of Map.empty] show ?thesis
    unfolding k by (simp add: g) blast
qed

text \<open>C38. A Boolean argument is printed as a digit and read back as a character: the remote function gets the code of the digit, which is
  never \<^verbatim>\<open>false\<close>, whatever the client passes.\<close>

theorem text_bool_always_true:
  "\<exists>data v c. text_in_args F [T_bool] [By_value (O_bool w)] m = Some ([], data) \<and>
     text_deserialize_in_args F malloc (codify_in_args [T_bool]) (text_unmarshall_args_in data) h = Some ([v], h) \<and>
     get_params [T_bool] [v] h = Some [O_bool c] \<and> c \<noteq> 0"
proof -
  let ?c = "if w = 0 then 48 else 49 :: u8"
  have "show_obj F (O_bool w) = [?c]" by (simp add: show_obj_def str_def)
  then have "text_in_args F [T_bool] [By_value (O_bool w)] m = Some ([], [?c])"
    by (simp add: text_in_args_def serialize_args_def serialize_arg_def is_reference_def is_pointer_def write_text_def str_def ltrim_def isspace_def)
  moreover have "text_unmarshall_args_in [?c] = [[?c]]" by (simp add: text_unmarshall_args_in_def split_pieces)
  moreover have "text_deserialize_in_args F malloc (codify_in_args [T_bool]) [[?c]] h = Some ([AnyArg_of ?c], h)"
    by (simp add: text_deserialize_in_args_def codify_in_args_def text_deserialize_in_arg_def token_def read_text_char_def)
  moreover have "get_params [T_bool] [AnyArg_of ?c] h = Some [O_bool ?c]" by (simp add: AnyArg_of_def ucast_u64)
  ultimately show ?thesis by (intro exI [of _ "[?c]"] exI [of _ "AnyArg_of ?c"] exI [of _ ?c]) simp
qed

text \<open>A string with a blank is cut at the blank.\<close>

theorem text_string_cut:
  assumes "is_token u"
  shows "\<exists>data. text_in_args F [T_const_string_ref] [Lvalue a] [a \<mapsto> O_string (u @ 32 # v)] = Some ([], data) \<and>
     text_deserialize_in_args F malloc (codify_in_args [T_const_string_ref]) (text_unmarshall_args_in data) h =
       Some ([Ptr (malloc h)], h(malloc h \<mapsto> O_string u))"
proof -
  have "text_in_args F [T_const_string_ref] [Lvalue a] [a \<mapsto> O_string (u @ 32 # v)] = Some ([], ltrim (32 # u @ 32 # v))"
    by (simp add: text_in_args_def serialize_args_def serialize_arg_def is_reference_def is_pointer_def is_const_noref_def write_text_def str_def show_obj_def)
  moreover have "ltrim (32 # u @ 32 # v) = u @ 32 # v" using ltrim_token [OF assms] by (simp add: ltrim_def isspace_def)
  moreover have "pieces (\<lambda>c. c = 32) (u @ 32 # v) = u # pieces (\<lambda>c. c = 32) v" by (rule pieces_app) (use assms in \<open>auto simp: is_token_def isspace_def\<close>)
  ultimately show ?thesis
    by (simp add: text_unmarshall_args_in_def split_pieces text_deserialize_in_args_def codify_in_args_def text_deserialize_in_arg_def token_def Let_def)
qed

section \<open>Utilities\<close>

text \<open>C27. Splitting a string at blanks gives the pieces, none with a blank in it, that joined with blanks are the string; there is
  one more of them than there are blanks.\<close>

theorem split_inverts_join: "join (split s) = s \<and> 32 \<notin> set (concat (split s)) \<and> length (split s) = Suc (length (filter (\<lambda>c. c = 32) s))"
proof (intro conjI)
  show "join (split s) = s" by (simp add: split_pieces join_pieces)
  show "32 \<notin> set (concat (split s))" using pieces_member [of _ "\<lambda>c. c = 32" s 32] by (auto simp: split_pieces)
  show "length (split s) = Suc (length (filter (\<lambda>c. c = 32) s))" by (simp add: split_pieces length_pieces)
qed

text \<open>The two splitters at a set of delimiters, the one on iterators and the one on positions of a view, agree; they give the
  pieces that are not empty, which together are the string without its delimiters.\<close>

theorem split_versions_agree:
  "splitSV s delims = splitST s delims \<and> [] \<notin> set (splitST s delims) \<and> concat (splitST s delims) = filter (\<lambda>c. c \<notin> set delims) s"
  by (simp add: splitSV_pieces splitST_pieces concat_pieces)

text \<open>\<^verbatim>\<open>adjust_power_2\<close> gives the largest power of two that is not above the number.\<close>

theorem adjust_power_2_floor:
  assumes "0 < n"
  shows "adjust_power_2 n \<le> n \<and> unat n < 2 * unat (adjust_power_2 n) \<and> (\<exists>k. adjust_power_2 n = 2 ^ k)"
proof -
  obtain k where k: "k < 64" "adjust_power_2 n = 2 ^ k" "2 ^ k \<le> unat n" "unat n < 2 ^ Suc k"
    using adjust_power_2_loop_ok [of n 0] assms unsigned_less [of n, where 'a = nat] by (auto simp: adjust_power_2_def)
  from k unat_power_2 [OF k(1)] show ?thesis by (auto simp: word_le_nat_alt)
qed

theorem adjust_power_2_floor_witness: "adjust_power_2 1000 \<le> 1000 \<and> 1000 < 2 * unat (adjust_power_2 1000)"
  using adjust_power_2_floor [of 1000] by simp

end
