(* ===== verification/Test_Cases.thy ===== *)
theory Test_Cases
  imports Main_Program Text_Marshaller
begin

text \<open>
  The test cases of \<^verbatim>\<open>src/src/bmRPCTest.cpp\<close>, for the loop-back link, the binary protocol and 64-bit types: the remote functions
  \<^verbatim>\<open>f0\<close> to \<^verbatim>\<open>f9\<close>, the calls of them, and the function \<^verbatim>\<open>test\<close>. The operations on floating-point numbers are a
  parameter, the record \<open>floats\<close>, of which nothing is assumed. Sums of integers that go into a floating-point number are unbounded; they
  are small here. Console output, and with it the verdicts that the callbacks print and count, is left out.
\<close>

section \<open>The remote functions\<close>

record floats =
  f_add :: "u32 \<Rightarrow> u32 \<Rightarrow> u32"
  d_add :: "u64 \<Rightarrow> u64 \<Rightarrow> u64"
  f_of_int :: "int \<Rightarrow> u32"
  d_of_int :: "int \<Rightarrow> u64"
  d_of_f :: "u32 \<Rightarrow> u64"
  f_of_d :: "u64 \<Rightarrow> u32"
  int_of_f :: "u32 \<Rightarrow> u32"
  long_of_d :: "u64 \<Rightarrow> u64"
  d_eq :: "u64 \<Rightarrow> u64 \<Rightarrow> bool"

text \<open>\<^verbatim>\<open>std::stoi\<close>: white space, a sign and digits; \<open>None\<close> is an exception.\<close>

definition stoi :: "bytes \<Rightarrow> u32 option" where
  "stoi s =
     (case ltrim s of
        [] \<Rightarrow> None
      | c # t \<Rightarrow> if c = 43 then (if t \<noteq> [] \<and> hd t = 45 then None else from_chars_signed t) else from_chars_signed (c # t))"

definition bool_value :: "u8 \<Rightarrow> int" where
  "bool_value b = (if b = 0 then 0 else 1)"

definition f0_srv :: "floats \<Rightarrow> remote" where
  "f0_srv F xs =
     (case xs of
        [O_int a, O_double b, O_float c] \<Rightarrow>
          (None, [O_int a, O_double b, O_float (f_of_d F (d_add F (d_add F (d_of_int F (sint a)) b) (d_of_f F c)))])
      | _ \<Rightarrow> (None, xs))"

definition f1_srv :: remote where
  "f1_srv xs = (None, xs)"

definition f2_srv :: "floats \<Rightarrow> remote" where
  "f2_srv F xs =
     (case xs of
        [O_int a, O_double b, O_double c] \<Rightarrow>
          (let c = d_add F (d_add F (d_of_int F (sint a)) b) c in (Some (O_long (long_of_d F c * 2)), [O_int 123, O_double b, O_double c]))
      | _ \<Rightarrow> (None, xs))"

definition f3_srv :: "floats \<Rightarrow> remote" where
  "f3_srv F xs =
     (case xs of
        [O_char c, O_bool b, O_short s, O_int i, O_long l, O_longlong ll, O_float f, O_double d] \<Rightarrow>
          (Some (O_double (d_add F (d_of_f F (f_add F (f_of_int F (sint c + bool_value b + sint s + sint i + sint l + sint ll)) f)) d)), xs)
      | _ \<Rightarrow> (None, xs))"

definition F4_s2 :: bytes where
  "F4_s2 = str ''F4: hello string''"

definition f4_srv :: "floats \<Rightarrow> remote" where
  "f4_srv F xs =
     (case xs of
        [O_int i, O_long l, O_longlong ll, O_float f, O_double d, O_string s, O_blob v] \<Rightarrow>
          (let i = i + 1; l = l + 1; ll = ll + 1; f = f_add F f 0x3F800000; d = d_add F d 0x3FF0000000000000; s = F4_s2;
               v = map (\<lambda>b. b + 1) v; k = sum_list (map uint v);
               r = d_add F (d_add F (d_of_f F (f_add F (f_of_int F (sint i + sint l + sint ll)) f)) d) (d_of_int F k)
           in (Some (O_float (f_of_d F r)), [O_int i, O_long l, O_longlong ll, O_float f, O_double d, O_string s, O_blob v]))
      | _ \<Rightarrow> (None, xs))"

definition f5_srv :: "floats \<Rightarrow> remote" where
  "f5_srv F xs =
     (case xs of
        [O_int a, O_double b, O_string c] \<Rightarrow>
          (let b = d_add F (d_of_int F (sint a)) b; a = a + 1
           in (map_option (\<lambda>n. O_float (f_of_d F (d_add F (d_of_int F (sint n + sint a)) b))) (stoi c), [O_int a, O_double b, O_string c]))
      | _ \<Rightarrow> (None, xs))"

definition f6_srv :: "floats \<Rightarrow> remote" where
  "f6_srv F xs =
     (case xs of
        [O_int a, O_float b, O_string c] \<Rightarrow>
          (let b = f_add F (f_of_int F (sint a)) b; a = a + 1; c = str ''123''
           in (map_option (\<lambda>n. O_int (int_of_f F (f_add F (f_of_int F (sint n + sint a)) b))) (stoi c), [O_int a, O_float b, O_string c]))
      | _ \<Rightarrow> (None, xs))"

definition f7_srv :: "floats \<Rightarrow> remote" where
  "f7_srv F xs =
     (case xs of
        [O_uchar c, O_bool b, O_ushort s, O_uint i, O_ulong l, O_ulonglong ll, O_float f, O_double d] \<Rightarrow>
          (let j = length (filter id [c = 0x8F, bool_value b = 1, s = 0x8FFF, i = 0x8FFFFFFF, l = 0x8FFFFFFFFFFFFFFF,
                 ll = 0x8FFFFFFFFFFFFFFF, d_eq F (d_of_f F f) 0x404BC00000000000, d_eq F d 0x4050A00000000000])
           in (Some (O_double (d_of_int F (int j))), xs))
      | _ \<Rightarrow> (None, xs))"

text \<open>The string of the test is a number; for another one the exception of \<^verbatim>\<open>stoi\<close> would end the program.\<close>

definition f8_srv :: "floats \<Rightarrow> remote" where
  "f8_srv F xs =
     (case xs of
        [O_int a, O_float b, O_string c] \<Rightarrow>
          (let b = f_add F (f_of_int F (sint a)) b
           in (case stoi c of
                 None \<Rightarrow> (None, xs)
               | Some n \<Rightarrow> (None, [O_int (int_of_f F (f_add F (f_of_int F (sint n + sint a)) b)), O_float b, O_string (str ''123'')])))
      | _ \<Rightarrow> (None, xs))"

definition f9 :: remote where
  "f9 xs =
     (case xs of
        [O_bool b, O_long c] \<Rightarrow>
          (if b \<noteq> 0 then (let c = c + 1 in (Some (O_int (ucast c)), [O_bool b, O_long c])) else (Some (O_int 0), [O_bool b, O_long c]))
      | _ \<Rightarrow> (None, xs))"

section \<open>Signatures and calls\<close>

text \<open>What a function is connected with: its name, its signature and, on the server, its body.\<close>

type_synonym test_function = "bytes \<times> cpp_type \<times> cpp_type list \<times> remote"

definition test_f0 :: "floats \<Rightarrow> test_function" where
  "test_f0 F = (str ''f0'', T_void, [T_int, T_double, T_float_ref], f0_srv F)"

definition test_f1 :: test_function where
  "test_f1 = (str ''f1'', T_void, [T_int], f1_srv)"

definition test_f2 :: "floats \<Rightarrow> test_function" where
  "test_f2 F = (str ''f2'', T_long, [T_int, T_double, T_double_ref], f2_srv F)"

definition test_f3 :: "floats \<Rightarrow> test_function" where
  "test_f3 F = (str ''f3'', T_double, [T_char, T_bool, T_short, T_int, T_long, T_longlong, T_float, T_double], f3_srv F)"

definition test_f4 :: "floats \<Rightarrow> test_function" where
  "test_f4 F = (str ''f4'', T_float, [T_int_ref, T_long_ref, T_longlong_ref, T_float_ref, T_double_ref, T_string_ref, T_blob_ref], f4_srv F)"

definition test_f5 :: "floats \<Rightarrow> test_function" where
  "test_f5 F = (str ''f5'', T_float, [T_int, T_double_ref, T_const_string_ref], f5_srv F)"

definition test_f6 :: "floats \<Rightarrow> test_function" where
  "test_f6 F = (str ''f6'', T_int, [T_int, T_float_ref, T_string_ref], f6_srv F)"

definition test_f7 :: "floats \<Rightarrow> test_function" where
  "test_f7 F = (str ''f7'', T_double, [T_uchar, T_bool, T_ushort, T_uint, T_ulong, T_ulonglong, T_float, T_double], f7_srv F)"

definition test_f8 :: "floats \<Rightarrow> test_function" where
  "test_f8 F = (str ''f8'', T_void, [T_int_ref, T_float_ref, T_string_ref], f8_srv F)"

definition test_f9 :: test_function where
  "test_f9 = (str ''f9'', T_int, [T_bool, T_long_ref], f9)"

text \<open>A call: the number of its callback and the arguments. The static variables of the test are at the addresses below.\<close>

type_synonym test_call = "nat option \<times> actual list"

definition f0_cln :: test_call where
  "f0_cln = (Some 0, [By_value (O_int 64), By_value (O_double 0x40C8218CCCCCCCCD), Lvalue 10])"

definition f1_cln :: test_call where
  "f1_cln = (None, [By_value (O_int 64)])"

definition f2_cln :: test_call where
  "f2_cln = (Some 2, [By_value (O_int 33), By_value (O_double 0x40C81C8CCCCCCCCD), Lvalue 20])"

definition f3_cln :: test_call where
  "f3_cln = (Some 3, [By_value (O_char 97), By_value (O_bool 1), By_value (O_short 11), By_value (O_int 22), By_value (O_long 33),
     By_value (O_longlong 44), By_value (O_float 0x425E6666), By_value (O_double 0x4050A00000000000)])"

definition f4_cln :: test_call where
  "f4_cln = (Some 4, [Lvalue 40, Lvalue 41, Lvalue 42, Lvalue 43, Lvalue 44, Lvalue 45, Lvalue 46])"

definition f5_cln :: test_call where
  "f5_cln = (Some 5, [By_value (O_int 64), Lvalue 50, Lvalue 51])"

definition f6_cln :: test_call where
  "f6_cln = (Some 6, [By_value (O_int 64), Lvalue 60, Lvalue 61])"

definition f7_cln :: test_call where
  "f7_cln = (Some 7, [By_value (O_uchar 0x8F), By_value (O_bool 1), By_value (O_ushort 0x8FFF), By_value (O_uint 0x8FFFFFFF),
     By_value (O_ulong 0x8FFFFFFFFFFFFFFF), By_value (O_ulonglong 0x8FFFFFFFFFFFFFFF), By_value (O_float 0x425E0000),
     By_value (O_double 0x4050A00000000000)])"

definition f8_cln :: test_call where
  "f8_cln = (None, [Lvalue 80, Lvalue 81, Lvalue 82])"

text \<open>The variables with their initial values, and the three counters of the test of the handles.\<close>

definition test_variables :: "(addr \<times> obj) list" where
  "test_variables =
     [(10, O_float 0x425E0000), (20, O_double 0x404BA66666666666),
      (40, O_int 22), (41, O_long 33), (42, O_longlong 44), (43, O_float 0x425E6666), (44, O_double 0x4050A00000000000),
      (45, O_string (str ''hello string'')), (46, O_blob [0x55, 0xAA, 0x64, 0x32]),
      (50, O_double 0x4040C66666666666), (51, O_string (str ''789'')), (60, O_float 0x42063333), (61, O_string (str ''789'')),
      (80, O_int 64), (81, O_float 0x42063333), (82, O_string (str ''789''))]"

definition client_beats :: "nat \<Rightarrow> addr" where
  "client_beats k = 90 + k"

definition test_mem :: "mem \<Rightarrow> bool" where
  "test_mem m \<longleftrightarrow> list_all (\<lambda>(a, x). m a = Some x) (test_variables @ map (\<lambda>k. (client_beats k, O_long 0)) [0, 1, 2])"

definition test_functions :: "floats \<Rightarrow> test_function list" where
  "test_functions F = [test_f0 F, test_f1, test_f2 F, test_f3 F, test_f4 F, test_f5 F, test_f6 F, test_f7 F, test_f8 F]"

definition test_calls :: "test_call list" where
  "test_calls = [f0_cln, f1_cln, f2_cln, f3_cln, f4_cln, f5_cln, f6_cln, f7_cln, f8_cln]"

section \<open>The test\<close>

text \<open>The functions \<^verbatim>\<open>test_f0_srv\<close> to \<^verbatim>\<open>test_f8_srv\<close>, one after the other, and \<^verbatim>\<open>init_test_f0_cln\<close> to \<^verbatim>\<open>init_test_f8_cln\<close>.\<close>

fun test_srv :: "test_function list \<Rightarrow> 'c RpcServer \<Rightarrow> (node option list \<times> 'c RpcServer) option" where
  "test_srv [] server = Some ([], server)"
| "test_srv ((name, R, Args, f) # fns) server =
     do {
       (prpc, server) \<leftarrow> RpcServer_connect name R Args f server;
       (prpcs, server) \<leftarrow> test_srv fns server;
       Some (prpc # prpcs, server)
     }"

fun init_test_cln :: "test_function list \<Rightarrow> 'c RpcClient \<Rightarrow> (RpcHandle list \<times> 'c RpcClient) option" where
  "init_test_cln [] client = Some ([], client)"
| "init_test_cln ((name, R, Args, f) # fns) client =
     do {
       (h, client) \<leftarrow> RpcClient_connect name R Args client;
       (hs, client) \<leftarrow> init_test_cln fns client;
       Some (h # hs, client)
     }"

text \<open>The calls of one round, and the rounds.\<close>

fun test_cln :: "(test_function \<times> RpcHandle \<times> test_call) list \<Rightarrow> 'c RpcClient \<Rightarrow> 'c RpcClient option" where
  "test_cln [] client = Some client"
| "test_cln (((name, R, Args, f), h, cb, args) # cs) client =
     do { (_, client) \<leftarrow> asyncRPC Args h cb args client; test_cln cs client }"

definition TEST_MULTIPLE :: nat where
  "TEST_MULTIPLE = MAX_CLIENT_MSG_BUFFER_SIZE div 9"

primrec test_rounds :: "nat \<Rightarrow> (test_function \<times> RpcHandle \<times> test_call) list \<Rightarrow> 'c RpcClient \<Rightarrow> 'c RpcClient option" where
  "test_rounds 0 cs client = Some client"
| "test_rounds (Suc n) cs client = do { client \<leftarrow> test_cln cs client; test_rounds n cs client }"

text \<open>The handles and pointers that the test keeps, and its state in the loop.\<close>

record test_links =
  pfh :: "RpcHandle list"
  pfrpc :: "node option list"
  f9h :: "nat \<Rightarrow> RpcHandle"
  f9rpc :: "node option"

record test_state =
  t_lb :: Loopback
  enable_client_beats :: "nat \<Rightarrow> bool"
  f9_invokations :: nat

definition f9_connect :: "'c RpcClient \<Rightarrow> ((nat \<Rightarrow> RpcHandle) \<times> 'c RpcClient) option" where
  "f9_connect client =
     do {
       (f9h_0, client) \<leftarrow> RpcClient_connect (str ''f9'') T_int [T_bool, T_long_ref] client;
       (f9h_1, client) \<leftarrow> RpcClient_connect (str ''f9'') T_int [T_bool, T_long_ref] client;
       (f9h_2, client) \<leftarrow> RpcClient_connect (str ''f9'') T_int [T_bool, T_long_ref] client;
       Some ((\<lambda>k. if k = 0 then f9h_0 else if k = 1 then f9h_1 else f9h_2), client)
     }"

definition test_start :: "floats \<Rightarrow> bytes \<Rightarrow> bytes \<Rightarrow> bytes \<Rightarrow> bytes \<Rightarrow> mem \<Rightarrow> mem \<Rightarrow> (test_links \<times> test_state) option" where
  "test_start F stx srx ctx crx hs hc =
     (let st = Loopback_created stx srx ctx crx hs hc
      in do {
        (prpcs, server) \<leftarrow> test_srv (test_functions F) (lb_server st);
        (hnds, client) \<leftarrow> init_test_cln (test_functions F) (lb_client st);
        client \<leftarrow> test_rounds TEST_MULTIPLE (zip (test_functions F) (zip hnds test_calls)) client;
        let client = initLoop client;
        let server = initLoop server;
        (f9h, client) \<leftarrow> f9_connect client;
        (f9rpc, server) \<leftarrow> RpcServer_connect (str ''f9'') T_int [T_bool, T_long_ref] f9 server;
        Some (\<lparr>pfh = hnds, pfrpc = prpcs, f9h = f9h, f9rpc = f9rpc\<rparr>,
              \<lparr>t_lb = st\<lparr>lb_client := client, lb_server := server\<rparr>, enable_client_beats = (\<lambda>k. True), f9_invokations = 0\<rparr>)
      })"

text \<open>The call over one of the three handles; the number of its callback is that of its counter.\<close>

definition MAX_F8_INVOKATIONS :: nat where
  "MAX_F8_INVOKATIONS = 300"

definition f9_call :: "(nat \<Rightarrow> RpcHandle) \<Rightarrow> nat \<Rightarrow> test_state \<Rightarrow> test_state option" where
  "f9_call hnds k ts =
     (if enable_client_beats ts k
      then do {
        (was_called, client) \<leftarrow> asyncRPC [T_bool, T_long_ref] (hnds k) (Some (90 + k)) [By_value (O_bool 1), Lvalue (client_beats k)] (lb_client (t_lb ts));
        let ts = ts\<lparr>t_lb := (t_lb ts)\<lparr>lb_client := client\<rparr>\<rparr>;
        if was_called
        then Some (ts\<lparr>enable_client_beats := (enable_client_beats ts)(k := False), f9_invokations := f9_invokations ts + 1\<rparr>)
        else Some ts
      }
      else Some ts)"

definition f9_calls :: "(nat \<Rightarrow> RpcHandle) \<Rightarrow> test_state \<Rightarrow> test_state option" where
  "f9_calls hnds ts =
     (if f9_invokations ts < MAX_F8_INVOKATIONS
      then do { ts \<leftarrow> f9_call hnds 0 ts; ts \<leftarrow> f9_call hnds 1 ts; f9_call hnds 2 ts }
      else Some ts)"

text \<open>The body of the loop. A callback of \<^verbatim>\<open>f9\<close> that ran in the client's turn enables its handle again.\<close>

definition test_turn :: "(mem \<Rightarrow> addr) \<Rightarrow> (nat \<Rightarrow> RpcHandle) \<Rightarrow> int stream \<Rightarrow> test_state \<Rightarrow> (test_state \<times> int stream) option" where
  "test_turn malloc hnds clk ts =
     do {
       ts \<leftarrow> f9_calls hnds ts;
       (st, clk) \<leftarrow> main_turn malloc clk (t_lb ts);
       let called = fst ` set (drop (length (cln_calls (lb_client (t_lb ts)))) (cln_calls (lb_client st)));
       Some (ts\<lparr>t_lb := st, enable_client_beats := (\<lambda>k. enable_client_beats ts k \<or> 90 + k \<in> called)\<rparr>, clk)
     }"

partial_function (option) test_loop :: "(mem \<Rightarrow> addr) \<Rightarrow> (nat \<Rightarrow> RpcHandle) \<Rightarrow> TimeOutChrono \<Rightarrow> int stream \<Rightarrow> test_state \<Rightarrow> (test_state \<times> int stream) option" where
  "test_loop malloc hnds t clk ts =
     (if expired_impl (shd clk) t then Some (ts, stl clk)
      else do { (ts, clk) \<leftarrow> test_turn malloc hnds (stl clk) ts; test_loop malloc hnds t clk ts })"

text \<open>The functions \<^verbatim>\<open>end_test_f0_cln\<close> to \<^verbatim>\<open>end_test_f8_cln\<close> and \<^verbatim>\<open>end_test_f0_srv\<close> to \<^verbatim>\<open>end_test_f8_srv\<close>.\<close>

fun end_test_cln :: "RpcHandle list \<Rightarrow> 'c RpcClient \<Rightarrow> 'c RpcClient option" where
  "end_test_cln [] client = Some client"
| "end_test_cln (h # hnds) client = do { (_, client) \<leftarrow> RpcClient_disconnect h client; end_test_cln hnds client }"

fun end_test_srv :: "node option list \<Rightarrow> 'c RpcServer \<Rightarrow> 'c RpcServer option" where
  "end_test_srv [] server = Some server"
| "end_test_srv (q # prpcs) server = do { server \<leftarrow> RpcServer_disconnect q server; end_test_srv prpcs server }"

text \<open>The time of the loop, as the preprocessor leaves it.\<close>

definition test_time :: int where
  "test_time =
     (let average_loop_time = ((SERVER_LOOP_TOUT_MS * 2 + CLIENT_LOOP_TOUT_MS * 2) div 2 + 5) * 5
      in average_loop_time * int MAX_CLIENT_MSG_BUFFER_SIZE div 9 + average_loop_time * int MAX_F8_INVOKATIONS div 3)"

text \<open>The test up to the disconnection of the three handles, and all of it.\<close>

definition test_body :: "floats \<Rightarrow> (mem \<Rightarrow> addr) \<Rightarrow> int stream \<Rightarrow> bytes \<Rightarrow> bytes \<Rightarrow> bytes \<Rightarrow> bytes \<Rightarrow> mem \<Rightarrow> mem \<Rightarrow> (test_links \<times> test_state) option" where
  "test_body F malloc clk stx srx ctx crx hs hc =
     do {
       (links, ts) \<leftarrow> test_start F stx srx ctx crx hs hc;
       let tout = start_impl (shd clk) (preset_impl test_time (TimeOutChrono_new 0));
       (ts, clk) \<leftarrow> test_loop malloc (f9h links) tout (stl clk) ts;
       client \<leftarrow> end_test_cln (pfh links) (lb_client (t_lb ts));
       server \<leftarrow> end_test_srv (pfrpc links) (lb_server (t_lb ts));
       Some (links, ts\<lparr>t_lb := (t_lb ts)\<lparr>lb_client := client, lb_server := server\<rparr>\<rparr>)
     }"

definition test :: "floats \<Rightarrow> (mem \<Rightarrow> addr) \<Rightarrow> int stream \<Rightarrow> bytes \<Rightarrow> bytes \<Rightarrow> bytes \<Rightarrow> bytes \<Rightarrow> mem \<Rightarrow> mem \<Rightarrow> test_state option" where
  "test F malloc clk stx srx ctx crx hs hc =
     do {
       (links, ts) \<leftarrow> test_body F malloc clk stx srx ctx crx hs hc;
       (_, client) \<leftarrow> RpcClient_disconnect (f9h links 0) (lb_client (t_lb ts));
       (_, client) \<leftarrow> RpcClient_disconnect (f9h links 1) client;
       (_, client) \<leftarrow> RpcClient_disconnect (f9h links 2) client;
       server \<leftarrow> RpcServer_disconnect (f9rpc links) (lb_server (t_lb ts));
       Some (ts\<lparr>t_lb := (t_lb ts)\<lparr>lb_client := client, lb_server := server\<rparr>\<rparr>)
     }"

end
