(* ===== verification/Test_Setup.thy ===== *)
theory Test_Setup
  imports Test_Cases
begin

text \<open>
  The start of \<^verbatim>\<open>test\<close> (\<^verbatim>\<open>src/src/bmRPCTest.cpp\<close>): the functions are connected on both sides under different names, the calls are well
  typed whatever the operations on floating-point numbers are, and all of them fit the client's queue.
\<close>

section \<open>Well-typed calls\<close>

lemma length_write_obj: "obj_small x \<Longrightarrow> length (write_obj [] x) \<le> 65538"
  by (cases x) (simp_all add: write_obj_def write_int_def write_char_def write_float_def length_write_container obj_small_def)

lemma length_encode: "list_all obj_small xs \<Longrightarrow> length (encode xs) \<le> 65538 * length xs"
  using length_write_obj by (induction xs) (auto simp: encode_def, fastforce)

lemma args_ok_small: "args_ok ts xs \<Longrightarrow> list_all obj_small xs \<and> length xs = length ts"
  by (auto simp: args_ok_def list_all2_conv_all_nth list_all_length)

lemma outs_small: "list_all obj_small xs \<Longrightarrow> list_all obj_small (outs ts xs) \<and> length (outs ts xs) \<le> length xs"
  by (induction ts xs rule: outs.induct) auto

lemma length_encode_result: "result_ok R r \<Longrightarrow> length (encode_result R r) \<le> 65538"
proof (cases "R = T_void")
  case False
  assume "result_ok R r"
  from result_cases [OF this False] show ?thesis
    by cases (simp_all add: encode_result_def write_obj_def write_int_def write_float_def)
qed (simp add: encode_result_def)

text \<open>A call of a function with few parameters fits a message.\<close>

lemma call_typedI:
  assumes sig: "sigs (c_name c) = Some (R, Args, f)" and args: "args_ok Args (c_args c)" "length Args \<le> 1000"
    and f: "remote_typed R Args f (c_args c)" "args_ok Args (snd (f (c_args c)))" and name: "0 \<notin> set (c_name c)" "length (c_name c) \<le> 1000"
  shows "call_typed sigs c"
proof -
  have i: "length (encode (c_args c)) \<le> 65538 * length Args" using length_encode args_ok_small [OF args(1)] by metis
  have "list_all obj_small (outs Args (snd (f (c_args c))))" "length (outs Args (snd (f (c_args c)))) \<le> length Args"
    using outs_small [of "snd (f (c_args c))" Args] args_ok_small [OF f(2)] by simp_all
  then have "length (encode (outs Args (snd (f (c_args c))))) \<le> 65538 * length Args" using length_encode [of "outs Args (snd (f (c_args c)))"] by linarith
  moreover have "length (encode_result R (fst (f (c_args c)))) \<le> 65538" using f(1) length_encode_result by (simp add: remote_typed_def)
  ultimately have "msg_ok (reply sigs c)" using name args(2) by (simp add: msg_ok_def reply_def sig c_result_def c_outs_def)
  moreover have "msg_ok (request c)" using i name args(2) by (simp add: msg_ok_def request_def)
  ultimately show ?thesis using assms by (auto simp: call_typed_def)
qed

text \<open>The variables that a call of the test needs, and what its function makes of them.\<close>

definition ready :: "mem \<Rightarrow> test_function \<Rightarrow> test_call \<Rightarrow> bool" where
  "ready m fn cl \<longleftrightarrow>
     (case (fn, cl) of ((name, R, Args, f), (cb, as)) \<Rightarrow>
        \<exists>xs. actuals_ok Args as xs m \<and> remote_typed R Args f xs \<and> args_ok Args (snd (f xs)) \<and>
          (\<forall>a \<in> set (kept Args as). a < 90) \<and> (\<forall>b. cb = Some b \<longrightarrow> b < 90))"

lemma stoi_values: "stoi (str ''789'') = Some 789" "stoi (str ''123'') = Some 123"
  by code_simp+

lemmas typing = ready_def actual_ok_def has_type_def obj_small_def is_reference_def is_pointer_def kept_def keeps_def is_const_noref_def
  remote_typed_def result_ok_def ReturnType_valid_def args_ok_def

lemma test_memD:
  assumes "test_mem m"
  shows "m 10 = Some (O_float 0x425E0000)" "m 20 = Some (O_double 0x404BA66666666666)"
    "m 40 = Some (O_int 22)" "m 41 = Some (O_long 33)" "m 42 = Some (O_longlong 44)" "m 43 = Some (O_float 0x425E6666)"
    "m 44 = Some (O_double 0x4050A00000000000)" "m 45 = Some (O_string (str ''hello string''))" "m 46 = Some (O_blob [0x55, 0xAA, 0x64, 0x32])"
    "m 50 = Some (O_double 0x4040C66666666666)" "m 51 = Some (O_string (str ''789''))" "m 60 = Some (O_float 0x42063333)"
    "m 61 = Some (O_string (str ''789''))" "m 80 = Some (O_int 64)" "m 81 = Some (O_float 0x42063333)" "m 82 = Some (O_string (str ''789''))"
    and "k < 3 \<Longrightarrow> m (client_beats k) = Some (O_long 0)"
proof -
  show "m 10 = Some (O_float 0x425E0000)" "m 20 = Some (O_double 0x404BA66666666666)"
    "m 40 = Some (O_int 22)" "m 41 = Some (O_long 33)" "m 42 = Some (O_longlong 44)" "m 43 = Some (O_float 0x425E6666)"
    "m 44 = Some (O_double 0x4050A00000000000)" "m 45 = Some (O_string (str ''hello string''))" "m 46 = Some (O_blob [0x55, 0xAA, 0x64, 0x32])"
    "m 50 = Some (O_double 0x4040C66666666666)" "m 51 = Some (O_string (str ''789''))" "m 60 = Some (O_float 0x42063333)"
    "m 61 = Some (O_string (str ''789''))" "m 80 = Some (O_int 64)" "m 81 = Some (O_float 0x42063333)" "m 82 = Some (O_string (str ''789''))"
    using assms by (simp_all add: test_mem_def test_variables_def)
  assume "k < 3"
  then have "k = 0 \<or> k = 1 \<or> k = 2" by auto
  then show "m (client_beats k) = Some (O_long 0)" using assms by (auto simp: test_mem_def)
qed

lemma ready_f0: "test_mem m \<Longrightarrow> ready m (test_f0 F) f0_cln"
  using test_memD [of m] by (auto simp: typing test_f0_def f0_cln_def f0_srv_def intro!: exI [of _ "[O_int 64, O_double 0x40C8218CCCCCCCCD, O_float 0x425E0000]"])

lemma ready_f1: "ready m test_f1 f1_cln"
  by (auto simp: typing test_f1_def f1_cln_def f1_srv_def intro!: exI [of _ "[O_int 64]"])

lemma ready_f2: "test_mem m \<Longrightarrow> ready m (test_f2 F) f2_cln"
  using test_memD [of m] by (auto simp: typing Let_def test_f2_def f2_cln_def f2_srv_def intro!: exI [of _ "[O_int 33, O_double 0x40C81C8CCCCCCCCD, O_double 0x404BA66666666666]"])

lemma ready_f3: "ready m (test_f3 F) f3_cln"
  by (auto simp: typing test_f3_def f3_cln_def f3_srv_def
      intro!: exI [of _ "[O_char 97, O_bool 1, O_short 11, O_int 22, O_long 33, O_longlong 44, O_float 0x425E6666, O_double 0x4050A00000000000]"])

lemma ready_f4: "test_mem m \<Longrightarrow> ready m (test_f4 F) f4_cln"
  using test_memD [of m] by (auto simp: typing Let_def test_f4_def f4_cln_def f4_srv_def F4_s2_def str_def
      intro!: exI [of _ "[O_int 22, O_long 33, O_longlong 44, O_float 0x425E6666, O_double 0x4050A00000000000, O_string (str ''hello string''), O_blob [0x55, 0xAA, 0x64, 0x32]]"])

lemma ready_f5: "test_mem m \<Longrightarrow> ready m (test_f5 F) f5_cln"
  using test_memD [of m] stoi_values by (auto simp: typing Let_def test_f5_def f5_cln_def f5_srv_def str_def
      intro!: exI [of _ "[O_int 64, O_double 0x4040C66666666666, O_string (str ''789'')]"])

lemma ready_f6: "test_mem m \<Longrightarrow> ready m (test_f6 F) f6_cln"
  using test_memD [of m] stoi_values by (auto simp: typing Let_def test_f6_def f6_cln_def f6_srv_def str_def
      intro!: exI [of _ "[O_int 64, O_float 0x42063333, O_string (str ''789'')]"])

lemma ready_f7: "ready m (test_f7 F) f7_cln"
  by (auto simp: typing Let_def test_f7_def f7_cln_def f7_srv_def simp del: filter.simps
      intro!: exI [of _ "[O_uchar 0x8F, O_bool 1, O_ushort 0x8FFF, O_uint 0x8FFFFFFF, O_ulong 0x8FFFFFFFFFFFFFFF, O_ulonglong 0x8FFFFFFFFFFFFFFF,
        O_float 0x425E0000, O_double 0x4050A00000000000]"])

lemma ready_f8: "test_mem m \<Longrightarrow> ready m (test_f8 F) f8_cln"
  using test_memD [of m] stoi_values by (auto simp: typing Let_def test_f8_def f8_cln_def f8_srv_def str_def
      intro!: exI [of _ "[O_int 64, O_float 0x42063333, O_string (str ''789'')]"])

lemma ready_all: "test_mem m \<Longrightarrow> list_all2 (ready m) (test_functions F) test_calls"
  by (simp add: test_functions_def test_calls_def ready_f0 ready_f1 ready_f2 ready_f3 ready_f4 ready_f5 ready_f6 ready_f7 ready_f8)

section \<open>Connecting\<close>

fun fn_name :: "test_function \<Rightarrow> bytes" where
  "fn_name (name, R, Args, f) = full_name R name Args"

fun connectable :: "test_function \<Rightarrow> bool" where
  "connectable (name, R, Args, f) \<longleftrightarrow> Args \<noteq> [] \<and> ParamTraits_valid R Args \<and> no_const_ptr Args \<and> length Args \<le> 1000 \<and>
     0 \<notin> set (full_name R name Args) \<and> length (full_name R name Args) \<le> 1000"

fun add_sig :: "test_function \<Rightarrow> signatures \<Rightarrow> signatures" where
  "add_sig (name, R, Args, f) sigs = sigs(full_name R name Args \<mapsto> (R, Args, f))"

definition test_sigs :: "floats \<Rightarrow> signatures" where
  "test_sigs F = fold add_sig (test_functions F @ [test_f9]) Map.empty"

lemma add_sig_other: "name \<noteq> fn_name fn \<Longrightarrow> add_sig fn sigs name = sigs name"
  by (cases fn) simp

lemma fold_add_sig_other: "name \<notin> fn_name ` set fns \<Longrightarrow> fold add_sig fns sigs name = sigs name"
  by (induction fns arbitrary: sigs) (simp_all add: add_sig_other)

lemma fold_add_sig:
  assumes "distinct (map fn_name fns)" and "(name, R, Args, f) \<in> set fns"
  shows "fold add_sig fns sigs (full_name R name Args) = Some (R, Args, f)"
  using assms
proof (induction fns arbitrary: sigs)
  case (Cons fn fns)
  show ?case
  proof (cases "fn = (name, R, Args, f)")
    case True
    with Cons.prems(1) have "full_name R name Args \<notin> fn_name ` set fns" by auto
    with True show ?thesis by (simp add: fold_add_sig_other)
  next
    case False
    with Cons show ?thesis by simp
  qed
qed simp

text \<open>The names under which the functions are registered are different from each other and from the names that \<^verbatim>\<open>connect\<close> looks for.\<close>

lemma test_names:
  "map fn_name (test_functions F @ [test_f9]) =
     [str ''void f0 int double float&'', str ''void f1 int'', str ''long f2 int double double&'',
      str ''double f3 char bool short int long longlong float double'',
      str ''float f4 int& long& longlong& float& double& string& vector<unsigned char>&'', str ''float f5 int double& conststring&'',
      str ''int f6 int float& string&'', str ''double f7 uchar bool ushort uint ulong ulonglong float double'',
      str ''void f8 int& float& string&'', str ''int f9 bool long&'']"
  by (simp add: test_functions_def test_f0_def test_f1_def test_f2_def test_f3_def test_f4_def test_f5_def test_f6_def test_f7_def test_f8_def test_f9_def
      full_name_def stringify_def string_composer_def str_def)

lemma test_functions_connectable: "list_all connectable (test_functions F @ [test_f9])"
  by (simp add: test_functions_def test_f0_def test_f1_def test_f2_def test_f3_def test_f4_def test_f5_def test_f6_def test_f7_def test_f8_def test_f9_def
      full_name_def stringify_def string_composer_def str_def ParamTraits_valid_def ReturnType_valid_def no_const_ptr_def)


lemma test_distinct: "distinct (map fn_name (test_functions F @ [test_f9]))"
  unfolding test_names by (simp add: str_def)

lemma test_plain: "fst ` set (test_functions F @ [test_f9]) \<inter> fn_name ` set (test_functions F @ [test_f9]) = {}"
  unfolding set_map [symmetric] test_names
  by (simp add: test_functions_def test_f0_def test_f1_def test_f2_def test_f3_def test_f4_def test_f5_def test_f6_def test_f7_def test_f8_def test_f9_def str_def)

lemma test_sigs_name: "(name, R, Args, f) \<in> set (test_functions F @ [test_f9]) \<Longrightarrow> test_sigs F (full_name R name Args) = Some (R, Args, f)"
  unfolding test_sigs_def by (rule fold_add_sig [OF test_distinct])

text \<open>What a connection adds to the map of names.\<close>

lemma insert_map:
  "Registry_insert getName x r = Some (q, r') \<Longrightarrow> functions_map r (getName x) = None \<Longrightarrow> functions_map r' = (functions_map r)(getName x \<mapsto> q)"
  by (auto simp: Registry_insert_def Let_def)

lemma server_connect_map:
  assumes "RpcServer_connect name R Args f p = Some (q, p')" and "functions_map (srv_registry p) (full_name R name Args) = None"
  shows "functions_map (srv_registry p') = (functions_map (srv_registry p))(full_name R name Args \<mapsto> q)"
  using assms by (auto simp: RpcServer_connect_def full_name_def Let_def elim!: bind_SomeE dest!: insert_map)

lemma client_connect_map:
  assumes "RpcClient_connect name R Args p = Some (q, p')" and "functions_map (cln_registry p) (full_name R name Args) = None"
    and "functions_map (cln_registry p) name = None"
  shows "functions_map (cln_registry p') = (functions_map (cln_registry p))(full_name R name Args \<mapsto> q)"
    and "map_option st_n_handles (deref (cln_registry p') q) = Some 1"
proof -
  obtain sargs where s: "stringify Args = Some sargs" using assms(1,3) by (auto simp: RpcClient_connect_def Registry_find_def elim!: bind_SomeE)
  then show "functions_map (cln_registry p') = (functions_map (cln_registry p))(full_name R name Args \<mapsto> q)"
    using assms by (auto simp: RpcClient_connect_def Registry_find_def full_name_def Let_def elim!: bind_SomeE dest!: insert_map)
  show "map_option st_n_handles (deref (cln_registry p') q) = Some 1"
    using assms s by (auto simp: RpcClient_connect_def Registry_find_def full_name_def Let_def Registry_insert_def deref_def elim!: bind_SomeE)
qed

text \<open>The pointers to the connected functions.\<close>

definition linked :: "'a FunctionsRegistry \<Rightarrow> test_function list \<Rightarrow> node list \<Rightarrow> bool" where
  "linked r fns qs \<longleftrightarrow> list_all2 (\<lambda>fn q. functions_map r (fn_name fn) = Some (Some q)) fns qs"

lemma test_srv_ok:
  assumes "server_has sigs p" and "list_all connectable fns" and "distinct (map fn_name fns)"
    and "\<forall>fn \<in> set fns. functions_map (srv_registry p) (fn_name fn) = None"
  shows "\<exists>qs p'. test_srv fns p = Some (map Some qs, p') \<and> p' = p\<lparr>srv_registry := srv_registry p'\<rparr> \<and> server_has (fold add_sig fns sigs) p' \<and>
           linked (srv_registry p') fns qs \<and>
           (\<forall>n. n \<notin> fn_name ` set fns \<longrightarrow> functions_map (srv_registry p') n = functions_map (srv_registry p) n)"
  using assms
proof (induction fns arbitrary: sigs p)
  case Nil
  then show ?case by (intro exI [of _ "[]"] exI [of _ p]) (simp add: linked_def)
next
  case (Cons fn fns)
  obtain name R Args f where fn: "fn = (name, R, Args, f)" by (cases fn)
  have v: "Args \<noteq> []" "ParamTraits_valid R Args" and new: "functions_map (srv_registry p) (full_name R name Args) = None"
    using Cons.prems(2,4) by (simp_all add: fn)
  obtain q p1 where p1: "RpcServer_connect name R Args f p = Some (Some q, p1)" "p1 = p\<lparr>srv_registry := srv_registry p1\<rparr>"
    "server_has (sigs(full_name R name Args \<mapsto> (R, Args, f))) p1"
    by (rule server_connects [OF Cons.prems(1) v new, of f]) (rule that, assumption+)
  note m = server_connect_map [OF p1(1) new]
  have "full_name R name Args \<notin> fn_name ` set fns" using Cons.prems(3) by (simp add: fn)
  then have "fn_name g \<noteq> full_name R name Args" if "g \<in> set fns" for g using imageI [OF that, of fn_name] by metis
  then have "\<forall>fn \<in> set fns. functions_map (srv_registry p1) (fn_name fn) = None" using Cons.prems(4) by (simp add: m)
  then obtain qs p' where p': "test_srv fns p1 = Some (map Some qs, p')" "p' = p1\<lparr>srv_registry := srv_registry p'\<rparr>"
    "server_has (fold add_sig fns (sigs(full_name R name Args \<mapsto> (R, Args, f)))) p'" "linked (srv_registry p') fns qs"
    "\<forall>n. n \<notin> fn_name ` set fns \<longrightarrow> functions_map (srv_registry p') n = functions_map (srv_registry p1) n"
    using Cons.IH [OF p1(3)] Cons.prems(2,3) unfolding list.set list.map list.pred_inject distinct.simps by blast
  have "p' = p\<lparr>srv_registry := srv_registry p'\<rparr>" by (subst p'(2), subst p1(2)) simp
  moreover have "linked (srv_registry p') (fn # fns) (q # qs)" using p'(4,5) Cons.prems(3) by (simp add: linked_def m fn)
  ultimately show ?case using p1(1) p'(1,3,5) by (intro exI [of _ "q # qs"] exI [of _ p']) (simp add: fn m)
qed

lemma init_test_cln_ok:
  assumes "client_has sigs cs p" and "list_all connectable fns" and "distinct (map fn_name fns)" and "fst ` set fns \<inter> fn_name ` set fns = {}"
    and "\<forall>fn \<in> set fns. functions_map (cln_registry p) (fn_name fn) = None \<and> functions_map (cln_registry p) (fst fn) = None"
    and "\<forall>(name, R, Args, f) \<in> set fns. sigs (full_name R name Args) = Some (R, Args, f)"
  shows "\<exists>qs p'. init_test_cln fns p = Some (map Some qs, p') \<and> p' = p\<lparr>cln_registry := cln_registry p'\<rparr> \<and> client_has sigs cs p' \<and>
           linked (cln_registry p') fns qs \<and>
           (\<forall>n. n \<notin> fn_name ` set fns \<longrightarrow> functions_map (cln_registry p') n = functions_map (cln_registry p) n)"
  using assms
proof (induction fns arbitrary: p)
  case Nil
  then show ?case by (intro exI [of _ "[]"] exI [of _ p]) (simp add: linked_def)
next
  case (Cons fn fns)
  obtain name R Args f where fn: "fn = (name, R, Args, f)" by (cases fn)
  have v: "Args \<noteq> []" "ParamTraits_valid R Args" and sig: "sigs (full_name R name Args) = Some (R, Args, f)"
    and new: "functions_map (cln_registry p) (full_name R name Args) = None" "functions_map (cln_registry p) name = None"
    using Cons.prems(2,5,6) by (simp_all add: fn)
  obtain q p1 where p1: "RpcClient_connect name R Args p = Some (Some q, p1)" "p1 = p\<lparr>cln_registry := cln_registry p1\<rparr>" "client_has sigs cs p1"
    by (rule client_connects [OF Cons.prems(1) v sig new]) (rule that, assumption+)
  note m = client_connect_map(1) [OF p1(1) new]
  have "full_name R name Args \<notin> fn_name ` set fns" "full_name R name Args \<notin> fst ` set fns" using Cons.prems(3,4) by (simp_all add: fn)
  then have "fn_name g \<noteq> full_name R name Args \<and> fst g \<noteq> full_name R name Args" if "g \<in> set fns" for g
    using imageI [OF that, of fn_name] imageI [OF that, of fst] by metis
  then have "\<forall>fn \<in> set fns. functions_map (cln_registry p1) (fn_name fn) = None \<and> functions_map (cln_registry p1) (fst fn) = None"
    using Cons.prems(5) by (simp add: m)
  then obtain qs p' where p': "init_test_cln fns p1 = Some (map Some qs, p')" "p' = p1\<lparr>cln_registry := cln_registry p'\<rparr>"
    "client_has sigs cs p'" "linked (cln_registry p') fns qs"
    "\<forall>n. n \<notin> fn_name ` set fns \<longrightarrow> functions_map (cln_registry p') n = functions_map (cln_registry p1) n"
    using Cons.IH [OF p1(3)] Cons.prems(2-4,6) by (auto simp: fn)
  have "p' = p\<lparr>cln_registry := cln_registry p'\<rparr>" by (subst p'(2), subst p1(2)) simp
  moreover have "linked (cln_registry p') (fn # fns) (q # qs)" using p'(4,5) Cons.prems(3) by (simp add: linked_def m fn)
  ultimately show ?case using p1(1) p'(1,3,5) by (intro exI [of _ "q # qs"] exI [of _ p']) (simp add: fn m)
qed

section \<open>The calls\<close>

text \<open>A call that has nothing to do with the test of the handles.\<close>

definition apart :: "call \<Rightarrow> bool" where
  "apart c \<longleftrightarrow> (\<forall>a \<in> set (c_addresses c). a < 90) \<and> (\<forall>b. c_callback c = Some b \<longrightarrow> b < 90)"

text \<open>The call \<open>c\<close> is a call of \<open>fn\<close> as \<open>cl\<close> makes it when the variables are as in \<open>m\<close>.\<close>

definition call_of :: "mem \<Rightarrow> test_function \<Rightarrow> test_call \<Rightarrow> call \<Rightarrow> bool" where
  "call_of m fn cl c \<longleftrightarrow>
     (case (fn, cl) of ((name, R, Args, f), (cb, as)) \<Rightarrow>
        c_name c = full_name R name Args \<and> c_callback c = cb \<and> c_addresses c = kept Args as \<and> actuals_ok Args as (c_args c) m)"

definition called :: "mem \<Rightarrow> test_function \<times> RpcHandle \<times> test_call \<Rightarrow> call \<Rightarrow> bool" where
  "called m t c \<longleftrightarrow> (case t of (fn, h, cl) \<Rightarrow> call_of m fn cl c)"

definition callable :: "signatures \<Rightarrow> u8 ClientCom RpcClient \<Rightarrow> test_function \<times> RpcHandle \<times> test_call \<Rightarrow> bool" where
  "callable sigs p t \<longleftrightarrow>
     (case t of (fn, h, cl) \<Rightarrow> ready (cln_mem p) fn cl \<and> connectable fn \<and> sigs (fn_name fn) = Some (snd fn) \<and>
        (\<exists>q. h = Some q \<and> functions_map (cln_registry p) (fn_name fn) = Some (Some q)))"

lemma callable_keeps:
  "callable sigs p t \<Longrightarrow> functions_map (cln_registry p') = functions_map (cln_registry p) \<Longrightarrow> cln_mem p' = cln_mem p \<Longrightarrow> callable sigs p' t"
  by (simp add: callable_def)

lemma assign_map: "assign r q x = Some r' \<Longrightarrow> functions_map r' = functions_map r"
  by (auto simp: assign_def elim!: bind_SomeE)

lemma asyncRPC_map: "asyncRPC Args h cb as p = Some (b, p') \<Longrightarrow> functions_map (cln_registry p') = functions_map (cln_registry p)"
  by (auto simp: asyncRPC_def Let_def elim!: bind_SomeE dest!: assign_map split: if_splits)

text \<open>The requests \<open>new\<close> that calls add to the client.\<close>

definition queues :: "signatures \<Rightarrow> call list \<Rightarrow> call list \<Rightarrow> u8 ClientCom RpcClient \<Rightarrow> u8 ClientCom RpcClient \<Rightarrow> bool" where
  "queues sigs cs new p p' \<longleftrightarrow> client_has sigs (cs @ new) p' \<and> tx_msg_buffer p' = tx_msg_buffer p @ map request new \<and>
     p' = p\<lparr>cln_registry := cln_registry p', tx_msg_buffer := tx_msg_buffer p'\<rparr> \<and> functions_map (cln_registry p') = functions_map (cln_registry p) \<and> list_all apart new"

lemma queues_Nil: "client_has sigs cs p \<Longrightarrow> queues sigs cs [] p p"
  by (simp add: queues_def)

lemma queuesD:
  assumes "queues sigs cs new p p'"
  shows "client_has sigs (cs @ new) p'" and "tx_msg_buffer p' = tx_msg_buffer p @ map request new" and "list_all apart new"
    and "functions_map (cln_registry p') = functions_map (cln_registry p)" and "p' = p\<lparr>cln_registry := cln_registry p', tx_msg_buffer := tx_msg_buffer p'\<rparr>"
    and "cln_mem p' = cln_mem p" and "cln_calls p' = cln_calls p" and "rx_msg_buffer p' = rx_msg_buffer p"
proof -
  show e: "p' = p\<lparr>cln_registry := cln_registry p', tx_msg_buffer := tx_msg_buffer p'\<rparr>" using assms unfolding queues_def by blast
  show "cln_mem p' = cln_mem p" "cln_calls p' = cln_calls p" "rx_msg_buffer p' = rx_msg_buffer p" by (subst e, simp)+
qed (use assms in \<open>unfold queues_def, blast+\<close>)

lemma queues_trans:
  assumes "queues sigs cs xs p q" and "queues sigs (cs @ xs) ys q r"
  shows "queues sigs cs (xs @ ys) p r"
proof -
  have "r = p\<lparr>cln_registry := cln_registry r, tx_msg_buffer := tx_msg_buffer r\<rparr>"
    by (subst queuesD(5) [OF assms(2)], subst queuesD(5) [OF assms(1)]) simp
  then show ?thesis using queuesD(1-4) [OF assms(1)] queuesD(1-4) [OF assms(2)] by (auto simp: queues_def)
qed

lemma test_call_ok:
  assumes has: "client_has sigs cs p" and t: "callable sigs p ((name, R, Args, f), h, cb, as)" and room: "\<not> tx_msg_full p"
  obtains c p' where "asyncRPC Args h cb as p = Some (True, p')" and "queues sigs cs [c] p p'" and "called (cln_mem p) ((name, R, Args, f), h, cb, as) c"
proof -
  obtain xs where xs: "actuals_ok Args as xs (cln_mem p)" "remote_typed R Args f xs" "args_ok Args (snd (f xs))"
    "\<forall>a \<in> set (kept Args as). a < 90" "\<forall>b. cb = Some b \<longrightarrow> b < 90"
    using t by (auto simp: callable_def ready_def)
  obtain q where q: "h = Some q" "functions_map (cln_registry p) (full_name R name Args) = Some (Some q)" using t by (auto simp: callable_def)
  have v: "connectable (name, R, Args, f)" "sigs (full_name R name Args) = Some (R, Args, f)" using t by (auto simp: callable_def)
  have ok: "registry_ok st_id (cln_registry p)" using has by (simp add: client_has_def)
  obtain stub where st: "deref (cln_registry p) (Some q) = Some stub" "st_id stub = full_name R name Args" using registry_map_node [OF ok q(2)] .
  define c where "c = \<lparr>c_name = st_id stub, c_id = st_invokations stub + 1, c_callback = cb, c_addresses = kept Args as, c_args = xs\<rparr>"
  have sig: "sigs (st_id stub) = Some (R, Args, f)" using v(2) st(2) by simp
  have "call_typed sigs c" using v xs actuals_args_ok [OF xs(1)] st(2) by (intro call_typedI) (auto simp: c_def)
  then obtain p' where p': "asyncRPC Args (Some q) cb as p = Some (True, p')" "client_has sigs (cs @ [c]) p'" "tx_msg_buffer p' = tx_msg_buffer p @ [request c]"
    "p' = p\<lparr>cln_registry := cln_registry p', tx_msg_buffer := tx_msg_buffer p'\<rparr>"
    using client_asks [OF has st(1) room sig xs(1) _ c_def] v(1) by (metis connectable.simps)
  then have "queues sigs cs [c] p p'" using asyncRPC_map [OF p'(1)] xs(4,5) by (simp add: queues_def apart_def c_def)
  moreover have "called (cln_mem p) ((name, R, Args, f), h, cb, as) c" using st(2) xs(1) by (simp add: called_def call_of_def c_def)
  ultimately show thesis using p'(1) q(1) that by blast
qed

lemma test_cln_ok:
  assumes "client_has sigs cs p" and "list_all (callable sigs p) ts" and "length (tx_msg_buffer p) + length ts \<le> 513"
  shows "\<exists>new p'. test_cln ts p = Some p' \<and> queues sigs cs new p p' \<and> list_all2 (called (cln_mem p)) ts new"
  using assms
proof (induction ts arbitrary: cs p)
  case Nil
  then show ?case by (simp add: queues_Nil)
next
  case (Cons t ts)
  obtain name R Args f h cb as where t: "t = ((name, R, Args, f), h, cb, as)" by (cases t) auto
  have call: "callable sigs p ((name, R, Args, f), h, cb, as)" "\<not> tx_msg_full p"
    using Cons.prems(2,3) by (simp_all add: t tx_msg_full_def MAX_CLIENT_MSG_BUFFER_SIZE_def)
  obtain c p1 where p1: "asyncRPC Args h cb as p = Some (True, p1)" "queues sigs cs [c] p p1" "called (cln_mem p) ((name, R, Args, f), h, cb, as) c"
    by (rule test_call_ok [OF Cons.prems(1) call]) (rule that, assumption+)
  note q = queuesD [OF p1(2)]
  have "list_all (callable sigs p1) ts" using Cons.prems(2) callable_keeps [OF _ q(4,6)] by (auto simp: list_all_iff)
  then obtain new p' where p': "test_cln ts p1 = Some p'" "queues sigs (cs @ [c]) new p1 p'" "list_all2 (called (cln_mem p)) ts new"
    using Cons.IH [OF q(1)] Cons.prems(3) by (auto simp: q(2,6))
  show ?case using p1(1,3) p'(1,3) queues_trans [OF p1(2) p'(2)] by (intro exI [of _ "c # new"] exI [of _ p']) (simp add: t)
qed

lemma test_rounds_ok:
  assumes "client_has sigs cs p" and "list_all (callable sigs p) ts" and "length (tx_msg_buffer p) + n * length ts \<le> 513"
  shows "\<exists>new p'. test_rounds n ts p = Some p' \<and> queues sigs cs new p p' \<and> list_all2 (called (cln_mem p)) (concat (replicate n ts)) new"
  using assms
proof (induction n arbitrary: cs p)
  case 0
  then show ?case by (simp add: queues_Nil)
next
  case (Suc n)
  have "length (tx_msg_buffer p) + length ts \<le> 513" using Suc.prems(3) by simp
  then obtain new p1 where p1: "test_cln ts p = Some p1" "queues sigs cs new p p1" "list_all2 (called (cln_mem p)) ts new" using test_cln_ok [OF Suc.prems(1,2)] by blast
  note q = queuesD [OF p1(2)] and len = list_all2_lengthD [OF p1(3)]
  have "list_all (callable sigs p1) ts" using Suc.prems(2) callable_keeps [OF _ q(4,6)] by (auto simp: list_all_iff)
  then obtain new2 p' where p': "test_rounds n ts p1 = Some p'" "queues sigs (cs @ new) new2 p1 p'" "list_all2 (called (cln_mem p)) (concat (replicate n ts)) new2"
    using Suc.IH [OF q(1)] Suc.prems(3) len by (auto simp: q(2,6))
  show ?case using p1(1,3) p'(1,3) queues_trans [OF p1(2) p'(2)] by (intro exI [of _ "new @ new2"] exI [of _ p']) (simp add: list_all2_appendI)
qed

section \<open>The start of the test\<close>

text \<open>The calls that the test makes when the variables are as in \<open>m\<close>.\<close>

definition test_called :: "floats \<Rightarrow> mem \<Rightarrow> call list \<Rightarrow> bool" where
  "test_called F m new \<longleftrightarrow> list_all2 (\<lambda>(fn, cl). call_of m fn cl) (concat (replicate TEST_MULTIPLE (zip (test_functions F) test_calls))) new"

lemma called_handles:
  assumes "list_all2 (called m) (concat (replicate n (zip fns (zip hs cls)))) new" and "length hs = length fns" and "length cls = length fns"
  shows "list_all2 (\<lambda>(fn, cl). call_of m fn cl) (concat (replicate n (zip fns cls))) new"
proof -
  have "map (\<lambda>(fn, h, cl). (fn, cl)) (zip fns (zip hs cls)) = zip fns cls"
    using assms(2,3) by (intro nth_equalityI) simp_all
  then have "concat (replicate n (zip fns cls)) = map (\<lambda>(fn, h, cl). (fn, cl)) (concat (replicate n (zip fns (zip hs cls))))"
    by (simp add: map_concat)
  moreover have "called m = (\<lambda>x. call_of m (fst x) (snd (snd x)))" by (intro ext) (simp add: called_def case_prod_unfold)
  ultimately show ?thesis using assms(1) by (simp add: list_all2_map1 case_prod_unfold)
qed

definition f9_name :: bytes where
  "f9_name = fn_name test_f9"

abbreviation f9_args :: "cpp_type list" where
  "f9_args \<equiv> [T_bool, T_long_ref]"

lemma f9_name_full: "full_name T_int (str ''f9'') f9_args = f9_name"
  by (simp add: f9_name_def test_f9_def)

lemma f9_connectable: "connectable test_f9"
  using test_functions_connectable [of undefined] by simp

lemma f9_valid: "ParamTraits_valid T_int f9_args" "no_const_ptr f9_args"
  using f9_connectable by (simp_all add: test_f9_def)

text \<open>The three handles are one pointer, to a stub that counts one handle.\<close>

lemma f9_connect_ok:
  assumes has: "client_has sigs cs p" and sig: "sigs f9_name = Some (T_int, f9_args, f9)"
    and new: "functions_map (cln_registry p) f9_name = None" "functions_map (cln_registry p) (str ''f9'') = None" and ne: "f9_name \<noteq> str ''f9''"
  obtains q p' where "f9_connect p = Some (\<lambda>k. Some q, p')" and "p' = p\<lparr>cln_registry := cln_registry p'\<rparr>" and "client_has sigs cs p'"
    and "functions_map (cln_registry p') = (functions_map (cln_registry p))(f9_name \<mapsto> Some q)"
    and "map_option st_n_handles (deref (cln_registry p') (Some q)) = Some 1"
proof -
  obtain q p' where p': "RpcClient_connect (str ''f9'') T_int f9_args p = Some (Some q, p')" "p' = p\<lparr>cln_registry := cln_registry p'\<rparr>" "client_has sigs cs p'"
    by (rule client_connects [OF has _ f9_valid(1), where name = "str ''f9''", unfolded f9_name_full, OF _ sig new]) (simp, rule that, assumption+)
  note m = client_connect_map [OF p'(1), unfolded f9_name_full, OF new]
  obtain sargs where s: "stringify f9_args = Some sargs" using stringify_Some [of f9_args] by auto
  then have id: "ParamType_name T_int @ str '' '' @ str ''f9'' @ str '' '' @ sargs = f9_name" by (simp add: f9_name_full [symmetric] full_name_def)
  have "RpcClient_connect (str ''f9'') T_int f9_args p' = Some (Some q, p')"
    using new(2) ne id by (simp add: RpcClient_connect_def Registry_find_def s m(1) Registry_insert_def)
  with p'(1) have "f9_connect p = Some (\<lambda>k. Some q, p')" by (simp add: f9_connect_def fun_eq_iff)
  from this p'(2,3) m show thesis by (rule that)
qed

lemma created_peers:
  fixes stx srx ctx crx :: bytes and hs hc :: mem
  defines "st \<equiv> Loopback_created stx srx ctx crx hs hc"
  shows "finite (dom hs) \<Longrightarrow> server_has Map.empty (lb_server st)" and "client_has sigs [] (lb_client st)"
    and "functions_map (srv_registry (lb_server st)) n = None" and "functions_map (cln_registry (lb_client st)) n = None"
    and "tx_msg_buffer (lb_client st) = []" and "rx_msg_buffer (lb_client st) = []" and "rx_msg_buffer (lb_server st) = []"
    and "cln_mem (lb_client st) = hc" and "cln_calls (lb_client st) = []"
  by (simp_all add: st_def Loopback_created_def Let_def RpcServer_new_def RpcClient_new_def server_has_def client_has_def registry_ok_new registered_def
      FunctionsRegistry_new_def [THEN arg_cong [of _ _ functions_map]])

lemma has_initLoop [simp]: "server_has sigs (initLoop p) = server_has sigs p" "client_has sigs cs (initLoop c) = client_has sigs cs c"
  "srv_registry (initLoop p) = srv_registry p" "cln_registry (initLoop c) = cln_registry c" "cln_mem (initLoop c) = cln_mem c"
  "cln_calls (initLoop c) = cln_calls c" "tx_msg_buffer (initLoop x) = tx_msg_buffer x" "rx_msg_buffer (initLoop x) = rx_msg_buffer x"
  by (simp_all add: initLoop_def server_has_def client_has_def)

text \<open>A peer that got functions and requests before its loop started.\<close>

lemma link_inv_started:
  assumes link: "link_inv (Loopback_new stx srx ctx crx hs hc) [] []" and ok: "\<forall>m \<in> set ms. msg_ok m"
  defines "st \<equiv> Loopback_created stx srx ctx crx hs hc"
  assumes c: "c = (initLoop (lb_client st))\<lparr>cln_registry := r, tx_msg_buffer := ms\<rparr>" and s: "s = (initLoop (lb_server st))\<lparr>srv_registry := r'\<rparr>"
  shows "link_inv (st\<lparr>lb_client := c, lb_server := s\<rparr>) ms []"
proof -
  let ?st = "Loopback_new stx srx ctx crx hs hc"
  have n: "?st = st\<lparr>lb_client := initLoop (lb_client st), lb_server := initLoop (lb_server st)\<rparr>" by (simp add: Loopback_new_def st_def Let_def)
  have tx: "tx_state_ok (lb_client ?st)" "tx_state_ok (lb_server ?st)" using link by (simp_all add: link_inv_def)
  have b: "tx_msg_buffer c = tx_msg_buffer (lb_client ?st) @ ms" using created_peers(5) by (simp add: c n st_def)
  have i: "m_init_serializer c = m_init_serializer (lb_client ?st)" "m_serializer c = m_serializer (lb_client ?st)" by (simp_all add: c n)
  have "link_inv (?st\<lparr>lb_client := c\<rparr>) ([] @ ms) []"
    by (rule link_inv_queue_cln [OF link ok _ _ _ tx_push [OF tx(1) ok b i]]) (simp_all add: c n)
  then have "link_inv (?st\<lparr>lb_client := c\<rparr>) ms []" by simp
  from link_inv_queue_srv [OF this, of "[]" s] tx(2) have "link_inv (?st\<lparr>lb_client := c, lb_server := s\<rparr>) ms []"
    by (simp add: s n tx_todo_def tx_state_ok_def)
  then show ?thesis by (simp add: n)
qed

lemma test_lists: "length (test_functions F) = 9" "length test_calls = 9" "TEST_MULTIPLE = 56"
  by (simp_all add: test_functions_def test_calls_def TEST_MULTIPLE_def MAX_CLIENT_MSG_BUFFER_SIZE_def)

lemma test_fresh: "f9_name \<notin> fn_name ` set (test_functions F)" "str ''f9'' \<notin> fn_name ` set (test_functions F)" "f9_name \<noteq> str ''f9''"
proof -
  show "f9_name \<notin> fn_name ` set (test_functions F)" using test_distinct [of F] by (simp add: f9_name_def)
  have "str ''f9'' \<notin> fn_name ` set (test_functions F @ [test_f9])" using test_plain [of F] by (auto simp: test_f9_def)
  then show "str ''f9'' \<notin> fn_name ` set (test_functions F)" "f9_name \<noteq> str ''f9''" by (auto simp: f9_name_def)
qed

lemma test_connected:
  fixes stx srx ctx crx :: bytes and hs hc :: mem
  assumes hs: "finite (dom hs)" and hc: "test_mem hc"
  defines "st \<equiv> Loopback_created stx srx ctx crx hs hc"
  obtains kq p hq c new d where "test_srv (test_functions F) (lb_server st) = Some (map Some kq, p)" and "p = (lb_server st)\<lparr>srv_registry := srv_registry p\<rparr>"
    and "server_has (fold add_sig (test_functions F) Map.empty) p" and "linked (srv_registry p) (test_functions F) kq"
    and "functions_map (srv_registry p) f9_name = None"
    and "init_test_cln (test_functions F) (lb_client st) = Some (map Some hq, c)"
    and "test_rounds TEST_MULTIPLE (zip (test_functions F) (zip (map Some hq) test_calls)) c = Some d" and "queues (test_sigs F) [] new c d"
    and "test_called F hc new" and "linked (cln_registry d) (test_functions F) hq" and "c = (lb_client st)\<lparr>cln_registry := cln_registry c\<rparr>"
    and "functions_map (cln_registry d) f9_name = None" and "functions_map (cln_registry d) (str ''f9'') = None"
proof -
  note new = created_peers [where stx = stx and srx = srx and ctx = ctx and crx = crx and hs = hs and hc = hc, folded st_def]
  have con: "list_all connectable (test_functions F)" "distinct (map fn_name (test_functions F))"
    "fst ` set (test_functions F) \<inter> fn_name ` set (test_functions F) = {}"
    using test_functions_connectable [of F] test_distinct [of F] test_plain [of F] by auto
  have sigs: "test_sigs F (fn_name fn) = Some (snd fn)" if "fn \<in> set (test_functions F)" for fn
    using test_sigs_name [of "fst fn" "fst (snd fn)" "fst (snd (snd fn))" "snd (snd (snd fn))" F] that by (cases fn) simp
  obtain kq p where p: "test_srv (test_functions F) (lb_server st) = Some (map Some kq, p)" "p = (lb_server st)\<lparr>srv_registry := srv_registry p\<rparr>"
    "server_has (fold add_sig (test_functions F) Map.empty) p" "linked (srv_registry p) (test_functions F) kq"
    "\<forall>n. n \<notin> fn_name ` set (test_functions F) \<longrightarrow> functions_map (srv_registry p) n = functions_map (srv_registry (lb_server st)) n"
    using test_srv_ok [OF new(1) [OF hs] con(1,2)] new(3) by blast
  have all: "\<forall>(name, R, Args, f) \<in> set (test_functions F). test_sigs F (full_name R name Args) = Some (R, Args, f)" by (auto dest: sigs)
  have none: "\<forall>fn \<in> set (test_functions F). functions_map (cln_registry (lb_client st)) (fn_name fn) = None \<and> functions_map (cln_registry (lb_client st)) (fst fn) = None"
    using new(4) by simp
  obtain hq c where c: "init_test_cln (test_functions F) (lb_client st) = Some (map Some hq, c)" "c = (lb_client st)\<lparr>cln_registry := cln_registry c\<rparr>"
    "client_has (test_sigs F) [] c" "linked (cln_registry c) (test_functions F) hq"
    "\<forall>n. n \<notin> fn_name ` set (test_functions F) \<longrightarrow> functions_map (cln_registry c) n = functions_map (cln_registry (lb_client st)) n"
    using init_test_cln_ok [OF new(2) con none all] by blast
  have mc: "cln_mem c = hc" "tx_msg_buffer c = []" by (subst c(2), simp add: new)+
  have len: "length hq = 9" using c(4) test_lists(1) by (auto simp: linked_def dest: list_all2_lengthD)
  have ts: "list_all (callable (test_sigs F) c) (zip (test_functions F) (zip (map Some hq) test_calls))"
    using c(4) con(1) ready_all [OF hc, of F] sigs len test_lists(1,2)
    by (auto simp: list_all_length list_all2_conv_all_nth callable_def linked_def mc)
  obtain new d where d: "test_rounds TEST_MULTIPLE (zip (test_functions F) (zip (map Some hq) test_calls)) c = Some d" "queues (test_sigs F) [] new c d"
    "list_all2 (called hc) (concat (replicate TEST_MULTIPLE (zip (test_functions F) (zip (map Some hq) test_calls)))) new"
    using test_rounds_ok [OF c(3) ts, where n = TEST_MULTIPLE] len test_lists mc by auto
  have new504: "test_called F hc new" unfolding test_called_def by (rule called_handles [OF d(3)]) (simp_all add: len test_lists)
  have m: "functions_map (cln_registry d) = functions_map (cln_registry c)" using d(2) by (rule queuesD)
  show thesis
    by (rule that [OF p(1-4) _ c(1) d(1,2) new504 _ c(2)]) (use p(5) c(4,5) new(3,4) test_fresh(1,2) [of F] in \<open>simp_all add: linked_def m\<close>)
qed

lemma linked_snoc: "linked r (fns @ [fn]) (qs @ [q]) \<longleftrightarrow> linked r fns qs \<and> functions_map r (fn_name fn) = Some (Some q)"
  unfolding linked_def by (subst list_all2_rev [symmetric]) auto

lemma linked_keeps: "linked r fns qs \<Longrightarrow> keeps_nodes r r' \<Longrightarrow> linked r' fns qs"
  by (auto simp: linked_def keeps_nodes_def elim: list_all2_mono)

lemma keeps_new: "functions_map r' = (functions_map r)(name \<mapsto> q) \<Longrightarrow> functions_map r name = None \<Longrightarrow> keeps_nodes r r'"
  by (auto simp: keeps_nodes_def)

text \<open>The test starts: 504 requests are queued, and both sides have the ten functions.\<close>

lemma test_start_ok:
  assumes "length stx = 1024" and "length srx = 1024" and "length ctx = 1024" and "length crx = 1024" and "finite (dom hs)" and "test_mem hc"
  obtains hq q kq k new st where "test_start F stx srx ctx crx hs hc =
      Some (\<lparr>pfh = map Some hq, pfrpc = map Some kq, f9h = (\<lambda>k. Some q), f9rpc = Some k\<rparr>,
            \<lparr>t_lb = st, enable_client_beats = (\<lambda>k. True), f9_invokations = 0\<rparr>)"
    and "loop_inv (test_sigs F) [] new st" and "list_all apart new" and "test_called F hc new" and "cln_mem (lb_client st) = hc" and "cln_calls (lb_client st) = []"
    and "linked (cln_registry (lb_client st)) (test_functions F @ [test_f9]) (hq @ [q])" and "linked (srv_registry (lb_server st)) (test_functions F @ [test_f9]) (kq @ [k])"
    and "map_option st_n_handles (deref (cln_registry (lb_client st)) (Some q)) = Some 1"
proof -
  define st where "st = Loopback_created stx srx ctx crx hs hc"
  note base = created_peers [where stx = stx and srx = srx and ctx = ctx and crx = crx and hs = hs and hc = hc, folded st_def]
  obtain kq p hq c new d where t: "test_srv (test_functions F) (lb_server st) = Some (map Some kq, p)" "p = (lb_server st)\<lparr>srv_registry := srv_registry p\<rparr>"
    "server_has (fold add_sig (test_functions F) Map.empty) p" "linked (srv_registry p) (test_functions F) kq" "functions_map (srv_registry p) f9_name = None"
    "init_test_cln (test_functions F) (lb_client st) = Some (map Some hq, c)"
    "test_rounds TEST_MULTIPLE (zip (test_functions F) (zip (map Some hq) test_calls)) c = Some d" "queues (test_sigs F) [] new c d"
    "test_called F hc new" "linked (cln_registry d) (test_functions F) hq" "c = (lb_client st)\<lparr>cln_registry := cln_registry c\<rparr>"
    "functions_map (cln_registry d) f9_name = None" "functions_map (cln_registry d) (str ''f9'') = None"
    by (rule test_connected [OF assms(5,6), where stx = stx and srx = srx and ctx = ctx and crx = crx and F = F, folded st_def]) (rule that, assumption+)
  note qd = queuesD [OF t(8)]
  have has: "client_has (test_sigs F) new (initLoop d)" using qd(1) by simp
  have sig: "test_sigs F f9_name = Some (T_int, f9_args, f9)" using test_sigs_name [of "str ''f9''" T_int f9_args f9 F] by (simp add: test_f9_def f9_name_full)
  obtain q e where e: "f9_connect (initLoop d) = Some (\<lambda>k. Some q, e)" "e = (initLoop d)\<lparr>cln_registry := cln_registry e\<rparr>" "client_has (test_sigs F) new e"
    "functions_map (cln_registry e) = (functions_map (cln_registry (initLoop d)))(f9_name \<mapsto> Some q)"
    "map_option st_n_handles (deref (cln_registry e) (Some q)) = Some 1"
    by (rule f9_connect_ok [OF has sig]) (use t(12,13) test_fresh(3) in \<open>simp_all\<close>)
  have f9n: "functions_map (srv_registry (initLoop p)) (full_name T_int (str ''f9'') f9_args) = None" using t(5) by (simp add: f9_name_full)
  have sp: "server_has (fold add_sig (test_functions F) Map.empty) (initLoop p)" using t(3) by simp
  obtain k s where s: "RpcServer_connect (str ''f9'') T_int f9_args f9 (initLoop p) = Some (Some k, s)" "s = (initLoop p)\<lparr>srv_registry := srv_registry s\<rparr>"
    "server_has ((fold add_sig (test_functions F) Map.empty)(full_name T_int (str ''f9'') f9_args \<mapsto> (T_int, f9_args, f9))) s"
    by (rule server_connects [OF sp _ f9_valid(1) f9n, of f9]) (simp, rule that, assumption+)
  note sm = server_connect_map [OF s(1) f9n, unfolded f9_name_full]
  let ?st = "st\<lparr>lb_client := e, lb_server := s\<rparr>"
  have start: "test_start F stx srx ctx crx hs hc = Some (\<lparr>pfh = map Some hq, pfrpc = map Some kq, f9h = (\<lambda>k. Some q), f9rpc = Some k\<rparr>,
      \<lparr>t_lb = ?st, enable_client_beats = (\<lambda>k. True), f9_invokations = 0\<rparr>)"
    using t(1,6,7) e(1) s(1) by (simp add: test_start_def st_def [symmetric] Let_def)
  have tx: "tx_msg_buffer d = map request new" using qd(2) base(5) by (subst (asm) t(11)) simp
  have ee: "e = (initLoop (lb_client st))\<lparr>cln_registry := cln_registry e, tx_msg_buffer := map request new\<rparr>"
    by (subst e(2), subst qd(5), subst t(11)) (simp add: initLoop_def tx)
  have ss: "s = (initLoop (lb_server st))\<lparr>srv_registry := srv_registry s\<rparr>" by (subst s(2), subst t(2)) (simp add: initLoop_def)
  have "\<forall>m \<in> set (map request new). msg_ok m" using has by (auto simp: client_has_def call_typed_def)
  from link_inv_started [OF link_inv_new [OF assms(1-4), of hs hc] this, folded st_def, OF ee ss] have link: "link_inv ?st (map request new) []" .
  have fe: "cln_mem e = hc" "cln_calls e = []" "rx_msg_buffer e = []" by (subst ee, simp add: base)+
  have "rx_msg_buffer s = []" by (subst ss) (simp add: base)
  moreover have "server_has (test_sigs F) s" using s(3) by (simp add: test_sigs_def test_f9_def)
  ultimately have "loop_inv (test_sigs F) [] new ?st" using link e(3) fe by (simp add: loop_inv_def)
  moreover have "linked (cln_registry e) (test_functions F @ [test_f9]) (hq @ [q])"
    using linked_keeps [OF t(10)] keeps_new [OF e(4)] t(12) e(4) by (simp add: linked_snoc f9_name_def)
  moreover have "linked (srv_registry s) (test_functions F @ [test_f9]) (kq @ [k])"
    using linked_keeps [OF t(4)] keeps_new [OF sm] t(5) sm by (simp add: linked_snoc f9_name_def)
  ultimately show thesis using that [of hq kq q k ?st new] qd(3) t(9) e(5) fe start by simp
qed

end
