(* ===== verification/Test_Run.thy ===== *)
theory Test_Run
  imports Test_Setup
begin

text \<open>
  The loop and the end of \<^verbatim>\<open>test\<close> (\<^verbatim>\<open>src/src/bmRPCTest.cpp\<close>). The invariant of the loop is that of the link, and for each of the three
  counters of the test of the handles: at most one call for it is on its way, which carries its value, and its callback has run with the values
  one, two and so on up to it.
\<close>

section \<open>Handles\<close>

text \<open>Calls and replies leave the number of handles of a stub.\<close>

definition keeps_handles :: "Stub FunctionsRegistry \<Rightarrow> Stub FunctionsRegistry \<Rightarrow> bool" where
  "keeps_handles r r' \<longleftrightarrow> (\<forall>q. map_option st_n_handles (deref r' q) = map_option st_n_handles (deref r q))"

lemma keeps_handles_trans: "keeps_handles r s \<Longrightarrow> keeps_handles s t \<Longrightarrow> keeps_handles r t"
  by (simp add: keeps_handles_def)

lemma keeps_handles_refl [simp]: "keeps_handles r r"
  by (simp add: keeps_handles_def)

lemma map_of_assign: "map_of (map (\<lambda>(a, y). (a, if a = q then x else y)) l) b = map_option (\<lambda>z. if b = q then x else z) (map_of l b)"
  by (induction l) auto

lemma assign_handles:
  assumes "assign r q x = Some r'" and "deref r q = Some y" and "st_n_handles x = st_n_handles y"
  shows "keeps_handles r r'"
proof -
  obtain a where a: "q = Some a" "map_of (functions_list r) a = Some y" using assms(2) by (auto simp: deref_def elim!: bind_SomeE)
  have "map_option st_n_handles (map_of (functions_list r') b) = map_option st_n_handles (map_of (functions_list r) b)" for b
    using assms(1,3) a by (cases "map_of (functions_list r) b") (auto simp: assign_def map_of_assign)
  then show ?thesis by (auto simp: keeps_handles_def deref_def split: Option.bind_split)
qed

lemma get_handles: "Registry_get name r = (q, r') \<Longrightarrow> keeps_handles r r'"
  by (auto simp: Registry_get_def keeps_handles_def deref_def split: option.splits)

lemma asyncRPC_handles: "asyncRPC Args h cb as p = Some (b, p') \<Longrightarrow> keeps_handles (cln_registry p) (cln_registry p')"
  by (auto simp: asyncRPC_def Let_def elim!: bind_SomeE dest!: assign_handles split: if_splits)

lemma dispatch_handles: "unmarshall_and_dispatch msg st m = Some (st', m', calls) \<Longrightarrow> st_n_handles st' = st_n_handles st"
  by (auto simp: unmarshall_and_dispatch_def Let_def elim!: bind_SomeE)

lemma deliver_msg_handles: "deliver_msg m p = Some p' \<Longrightarrow> keeps_handles (cln_registry p) (cln_registry p')"
  by (auto simp: deliver_msg_def Let_def split: prod.splits elim!: bind_SomeE
      dest!: assign_handles [OF _ _ dispatch_handles] get_handles intro: keeps_handles_trans)

lemma deliver_msgs_handles: "deliver_msgs ms p = Some p' \<Longrightarrow> keeps_handles (cln_registry p) (cln_registry p')"
proof (induction ms arbitrary: p)
  case (Cons m ms)
  then obtain q where "deliver_msg m p = Some q" "deliver_msgs ms (q\<lparr>rx_msg_buffer := ms\<rparr>) = Some p'" by (auto elim!: bind_SomeE)
  with Cons.IH [of "q\<lparr>rx_msg_buffer := ms\<rparr>"] deliver_msg_handles [of m p q] show ?case by (auto intro: keeps_handles_trans)
qed simp

lemma main_turn_handles:
  assumes "main_turn malloc clk st = Some (st', clk')"
  shows "keeps_handles (cln_registry (lb_client st)) (cln_registry (lb_client st'))"
proof -
  obtain a c1 c2 where t: "server_turn malloc clk st = Some (a, c1)" "client_turn c1 a = Some (st', c2)"
    using assms by (auto simp: main_turn_def elim!: bind_SomeE)
  obtain p c3 q where p: "tx_phase ClientCom CLIENT_LOOP_TOUT_MS c1 (lb_cln a) = Some (p, c3)"
    "rx_phase ClientCom CLIENT_LOOP_TOUT_MS c3 p = Some (q, c2)" "deliver_msgs (rx_msg_buffer q) q = Some (lb_client st')"
    using t(2) by (auto simp: client_turn_def RpcClient_doLoop_def elim!: bind_SomeE)
  have "cln_registry q = cln_registry (lb_client a)"
    using tx_phase_framed [OF p(1)] rx_phase_framed [OF p(2)] cln_more [of p "lb_cln a"] cln_more [of q p] by (simp add: framed_def)
  moreover have "lb_client a = lb_client st" using t(1) by (auto simp: server_turn_def elim!: bind_SomeE)
  ultimately show ?thesis using deliver_msgs_handles [OF p(3)] by simp
qed

section \<open>The counters\<close>

text \<open>The call over a handle, the calls on their way for a counter, and the values its callback got.\<close>

definition f9_request :: "nat \<Rightarrow> nat \<Rightarrow> u16 \<Rightarrow> call" where
  "f9_request k n i = \<lparr>c_name = f9_name, c_id = i, c_callback = Some (90 + k), c_addresses = [client_beats k], c_args = [O_bool 1, O_long (of_nat n)]\<rparr>"

definition flying :: "nat \<Rightarrow> call list \<Rightarrow> call list" where
  "flying k cs = filter (\<lambda>c. c_callback c = Some (90 + k)) cs"

definition beats :: "nat \<Rightarrow> callbacks \<Rightarrow> ReturnValue list" where
  "beats k calls = map snd (filter (\<lambda>c. fst c = 90 + k) calls)"

lemma flying_append [simp]: "flying k (xs @ ys) = flying k xs @ flying k ys"
  by (simp add: flying_def)

lemma beats_append [simp]: "beats k (xs @ ys) = beats k xs @ beats k ys"
  by (simp add: beats_def)

lemma beats_called: "90 + k \<in> fst ` set calls \<longleftrightarrow> beats k calls \<noteq> []"
  by (force simp: beats_def filter_empty_conv)

lemma beats_answered: "list_all2 (answered sigs) cs rvs \<Longrightarrow> list_all2 (answered sigs) (flying k cs) (beats k (concat (map2 c_calls cs rvs)))"
  by (induction rule: list_all2_induct) (auto simp: flying_def beats_def c_calls_def split: option.splits)

lemma store_cong: "m a = m' a \<Longrightarrow> store sigs c m a = store sigs c m' a"
  by (simp add: store_def map_upds_def map_add_def split: option.split)

lemma store_other: "a \<notin> set (c_addresses c) \<Longrightarrow> store sigs c m a = m a"
  by (simp add: store_def)

lemma fold_store_flying:
  assumes "\<forall>c \<in> set cs. c_callback c \<noteq> Some (90 + k) \<longrightarrow> a \<notin> set (c_addresses c)" and "m a = m' a"
  shows "fold (store sigs) cs m a = fold (store sigs) (flying k cs) m' a"
  using assms
proof (induction cs arbitrary: m m')
  case (Cons c cs)
  show ?case
  proof (cases "c_callback c = Some (90 + k)")
    case True
    with Cons.IH [of "store sigs c m" "store sigs c m'"] store_cong [of m a m' sigs c] Cons.prems show ?thesis by (simp add: flying_def)
  next
    case False
    with Cons.IH [of "store sigs c m" m'] Cons.prems show ?thesis by (simp add: flying_def store_other)
  qed
qed (simp add: flying_def)

lemma test_sigs_f9: "test_sigs F f9_name = Some (T_int, f9_args, f9)"
  using test_sigs_name [of "str ''f9''" T_int f9_args f9 F] by (simp add: test_f9_def f9_name_full)

lemma f9_value: "f9 [O_bool 1, O_long (of_nat n)] = (Some (O_int (of_nat (Suc n))), [O_bool 1, O_long (of_nat (Suc n))])"
proof -
  have "(ucast (of_nat (Suc n) :: u64) :: u32) = of_nat (Suc n)" by transfer simp
  then show ?thesis by (simp add: f9_def Let_def add.commute)
qed

lemma f9_request_answered: "answered (test_sigs F) (f9_request k n i) rv \<longleftrightarrow> return_value T_int (Some (O_int (of_nat (Suc n)))) rv"
  by (simp add: answered_def f9_request_def test_sigs_f9 f9_value)

lemma f9_request_store: "store (test_sigs F) (f9_request k n i) m (client_beats k) = Some (O_long (of_nat (Suc n)))"
  by (simp add: store_def f9_request_def c_outs_def test_sigs_f9 f9_value is_out_def)


text \<open>A counter with value \<open>n\<close>: it waits for no call or for one that carries \<open>n\<close>, and its callback got one to \<open>n\<close>.\<close>

definition beat_ok :: "test_state \<Rightarrow> call list \<Rightarrow> nat \<Rightarrow> nat \<Rightarrow> bool" where
  "beat_ok ts cs k n \<longleftrightarrow>
     (\<exists>i. flying k cs = (if enable_client_beats ts k then [] else [f9_request k n i])) \<and>
     cln_mem (lb_client (t_lb ts)) (client_beats k) = Some (O_long (of_nat n)) \<and>
     list_all2 (\<lambda>i. return_value T_int (Some (O_int (of_nat i)))) [1..<Suc n] (beats k (cln_calls (lb_client (t_lb ts))))"

text \<open>A call that does not belong to a counter leaves it.\<close>

definition beat_apart :: "nat \<Rightarrow> call \<Rightarrow> bool" where
  "beat_apart k c \<longleftrightarrow> c_callback c \<noteq> Some (90 + k) \<longrightarrow> client_beats k \<notin> set (c_addresses c)"

definition beat_next :: "test_state \<Rightarrow> Loopback \<Rightarrow> test_state" where
  "beat_next ts st = ts\<lparr>t_lb := st, enable_client_beats := (\<lambda>k. enable_client_beats ts k \<or>
     90 + k \<in> fst ` set (drop (length (cln_calls (lb_client (t_lb ts)))) (cln_calls (lb_client st))))\<rparr>"

lemma beat_turn:
  assumes ok: "beat_ok ts (dn @ cs) k n" and ap: "\<forall>c \<in> set (dn @ cs). beat_apart k c" and dn: "completed (test_sigs F) dn (t_lb ts) st"
  shows "\<exists>n'. beat_ok (beat_next ts st) cs k n' \<and>
           n' + (if enable_client_beats (beat_next ts st) k then 0 else 1) = n + (if enable_client_beats ts k then 0 else 1)"
proof -
  let ?sigs = "test_sigs F"
  obtain rvs where rvs: "list_all2 (answered ?sigs) dn rvs"
    "cln_calls (lb_client st) = cln_calls (lb_client (t_lb ts)) @ concat (map2 c_calls dn rvs)"
    "cln_mem (lb_client st) = fold (store ?sigs) dn (cln_mem (lb_client (t_lb ts)))"
    using dn by (auto simp: completed_def)
  let ?new = "beats k (concat (map2 c_calls dn rvs))"
  have new: "list_all2 (answered ?sigs) (flying k dn) ?new" by (rule beats_answered [OF rvs(1)])
  have en: "enable_client_beats (beat_next ts st) k \<longleftrightarrow> enable_client_beats ts k \<or> ?new \<noteq> []" unfolding beats_called [symmetric] by (simp add: beat_next_def rvs(2))
  have m: "cln_mem (lb_client st) (client_beats k) = fold (store ?sigs) (flying k dn) (cln_mem (lb_client (t_lb ts))) (client_beats k)"
    unfolding rvs(3) using ap by (intro fold_store_flying) (auto simp: beat_apart_def)
  have b: "beats k (cln_calls (lb_client st)) = beats k (cln_calls (lb_client (t_lb ts))) @ ?new" by (simp add: rvs(2))
  obtain i where fl: "flying k dn @ flying k cs = (if enable_client_beats ts k then [] else [f9_request k n i])"
    and old: "cln_mem (lb_client (t_lb ts)) (client_beats k) = Some (O_long (of_nat n))"
      "list_all2 (\<lambda>i. return_value T_int (Some (O_int (of_nat i)))) [1..<Suc n] (beats k (cln_calls (lb_client (t_lb ts))))"
    using ok by (auto simp: beat_ok_def)
  show ?thesis
  proof (cases "flying k dn")
    case Nil
    with new have "?new = []" by simp
    with Nil fl old m b en show ?thesis by (intro exI [of _ n]) (auto simp: beat_ok_def beat_next_def)
  next
    case (Cons c l)
    with fl have c: "\<not> enable_client_beats ts k" "c = f9_request k n i" "l = []" "flying k cs = []" by (auto split: if_splits)
    with new Cons obtain rv where rv: "?new = [rv]" "return_value T_int (Some (O_int (of_nat (Suc n)))) rv"
      by (auto simp: list_all2_Cons1 f9_request_answered)
    have "list_all2 (\<lambda>i. return_value T_int (Some (O_int (of_nat i)))) ([1..<Suc n] @ [Suc n]) (beats k (cln_calls (lb_client st)))"
      unfolding b rv(1) using old(2) rv(2) by (intro list_all2_appendI) simp_all
    moreover have "cln_mem (lb_client st) (client_beats k) = Some (O_long (of_nat (Suc n)))"
      unfolding m Cons c(3) using f9_request_store [of F k n i] by (simp add: c(2))
    ultimately show ?thesis using c(1,4) en rv(1) by (intro exI [of _ "Suc n"]) (auto simp: beat_ok_def beat_next_def)
  qed
qed

section \<open>The loop\<close>

definition waiting :: "test_state \<Rightarrow> nat \<Rightarrow> nat" where
  "waiting ts k = (if enable_client_beats ts k then 0 else 1)"

definition handles_inv :: "test_state \<Rightarrow> call list \<Rightarrow> (nat \<Rightarrow> nat) \<Rightarrow> bool" where
  "handles_inv ts cs n \<longleftrightarrow> (\<forall>k < 3. beat_ok ts cs k (n k) \<and> (\<forall>c \<in> set cs. beat_apart k c)) \<and>
     f9_invokations ts = (\<Sum>k < 3. n k + waiting ts k)"

text \<open>A call over one of the handles.\<close>

lemma f9_actuals: "m (client_beats k) = Some (O_long w) \<Longrightarrow> actuals_ok f9_args [By_value (O_bool 1), Lvalue (client_beats k)] [O_bool 1, O_long w] m"
  "kept f9_args [By_value (O_bool 1), Lvalue (client_beats k)] = [client_beats k]"
  by (simp_all add: actual_ok_def has_type_def obj_small_def is_reference_def is_pointer_def kept_def keeps_def is_const_noref_def)

lemma f9_name_small: "0 \<notin> set f9_name" "length f9_name \<le> 1000"
  using f9_connectable by (simp_all add: f9_name_def test_f9_def)

lemma f9_request_typed: "call_typed (test_sigs F) (f9_request k n i)"
  by (intro call_typedI [of _ _ T_int f9_args f9])
    (auto simp: f9_request_def test_sigs_f9 f9_value args_ok_def has_type_def obj_small_def remote_typed_def result_ok_def ReturnType_valid_def f9_name_small)

lemma beat_ok_same:
  "beat_ok ts cs j n \<Longrightarrow> flying j cs' = flying j cs \<Longrightarrow> enable_client_beats ts' j = enable_client_beats ts j \<Longrightarrow>
   cln_mem (lb_client (t_lb ts')) = cln_mem (lb_client (t_lb ts)) \<Longrightarrow> cln_calls (lb_client (t_lb ts')) = cln_calls (lb_client (t_lb ts)) \<Longrightarrow> beat_ok ts' cs' j n"
  by (simp add: beat_ok_def)

lemma sum_three: "(\<Sum>k < 3. f k) = f 0 + f 1 + f (2::nat)" for f :: "nat \<Rightarrow> nat"
  by (simp add: numeral_3_eq_3 numeral_2_eq_2)

lemma less_three: "k < 3 \<longleftrightarrow> k = 0 \<or> k = 1 \<or> k = (2::nat)"
  by auto

lemma handles_inv_call:
  assumes h: "handles_inv ts cs n" and k: "k < 3" "enable_client_beats ts k"
    and ts': "ts' = ts\<lparr>t_lb := (t_lb ts)\<lparr>lb_client := p\<rparr>, enable_client_beats := (enable_client_beats ts)(k := False), f9_invokations := f9_invokations ts + 1\<rparr>"
    and p: "cln_mem p = cln_mem (lb_client (t_lb ts))" "cln_calls p = cln_calls (lb_client (t_lb ts))"
  shows "handles_inv ts' (cs @ [f9_request k (n k) i]) n"
proof -
  let ?c = "f9_request k (n k) i"
  have "beat_ok ts' (cs @ [?c]) j (n j) \<and> beat_apart j ?c" if "j < 3" for j
  proof (cases "j = k")
    case True
    have "beat_ok ts cs k (n k)" using h k by (simp add: handles_inv_def)
    moreover have "flying k [?c] = [?c]" "beat_apart k ?c" by (simp_all add: flying_def f9_request_def beat_apart_def)
    ultimately show ?thesis using True k(2) p by (auto simp: beat_ok_def ts')
  next
    case False
    then have "flying j (cs @ [?c]) = flying j cs" "beat_apart j ?c" by (simp_all add: flying_def f9_request_def beat_apart_def client_beats_def)
    moreover have "beat_ok ts cs j (n j)" using h that by (simp add: handles_inv_def)
    ultimately show ?thesis using False p by (auto simp: ts' intro!: beat_ok_same [of ts cs])
  qed
  moreover have "(\<Sum>j < 3. n j + waiting ts' j) = (\<Sum>j < 3. n j + waiting ts j) + 1"
    using k unfolding sum_three less_three by (auto simp: ts' waiting_def)
  ultimately show ?thesis using h by (simp add: handles_inv_def ts')
qed

text \<open>A call for a counter. What such calls change: the requests \<open>xs\<close> are queued.\<close>

definition is_beat :: "call \<Rightarrow> bool" where
  "is_beat c \<longleftrightarrow> (\<exists>k. c_callback c = Some (90 + k)) \<and> (\<forall>a \<in> set (c_addresses c). 90 \<le> a)"

lemma is_beat_apart: "is_beat c \<Longrightarrow> \<not> apart c"
  by (auto simp: is_beat_def apart_def)

lemma f9_request_beat: "is_beat (f9_request k n i)"
  by (simp add: is_beat_def f9_request_def client_beats_def)

definition asks :: "test_state \<Rightarrow> call list \<Rightarrow> test_state \<Rightarrow> bool" where
  "asks ts xs ts' \<longleftrightarrow> list_all is_beat xs \<and> lb_server (t_lb ts') = lb_server (t_lb ts) \<and>
     cln_mem (lb_client (t_lb ts')) = cln_mem (lb_client (t_lb ts)) \<and> cln_calls (lb_client (t_lb ts')) = cln_calls (lb_client (t_lb ts)) \<and>
     srv_in (t_lb ts') = srv_in (t_lb ts) \<and> srv_left (t_lb ts') = srv_left (t_lb ts) + wire_size (map request xs) \<and> cln_left (t_lb ts') = cln_left (t_lb ts) \<and>
     keeps_nodes (cln_registry (lb_client (t_lb ts))) (cln_registry (lb_client (t_lb ts'))) \<and>
     keeps_handles (cln_registry (lb_client (t_lb ts))) (cln_registry (lb_client (t_lb ts')))"

lemma asks_refl: "asks ts [] ts"
  by (simp add: asks_def)

lemma asks_trans: "asks ts xs a \<Longrightarrow> asks a ys b \<Longrightarrow> asks ts (xs @ ys) b"
  by (auto simp: asks_def intro: keeps_nodes_trans keeps_handles_trans)

lemma asks_node: "asks ts xs a \<Longrightarrow> functions_map (cln_registry (lb_client (t_lb ts))) name = Some (Some q) \<Longrightarrow> functions_map (cln_registry (lb_client (t_lb a))) name = Some (Some q)"
  by (simp add: asks_def keeps_nodes_def)

lemma queued_sizes:
  assumes "m_streamer p = m_streamer (lb_client st)" and "tx_todo p = tx_todo (lb_client st) @ wire m"
  shows "srv_in (st\<lparr>lb_client := p\<rparr>) = srv_in st" and "srv_left (st\<lparr>lb_client := p\<rparr>) = srv_left st + wire_size [m]"
    and "cln_left (st\<lparr>lb_client := p\<rparr>) = cln_left st"
  using assms by (simp_all add: srv_in_def srv_left_def cln_left_def cln_in_def with_streams wire_size_def)

lemma f9_call_ok:
  assumes inv: "loop_inv (test_sigs F) reps reqs (t_lb ts)" and h: "handles_inv ts (reps @ reqs) n" and k: "k < 3"
    and q: "functions_map (cln_registry (lb_client (t_lb ts))) f9_name = Some (Some q)"
  obtains ts' xs where "f9_call (\<lambda>k. Some q) k ts = Some ts'" and "loop_inv (test_sigs F) reps (reqs @ xs) (t_lb ts')" and "handles_inv ts' (reps @ reqs @ xs) n"
    and "f9_invokations ts' \<le> f9_invokations ts + 1" and "asks ts xs ts'"
proof -
  let ?p = "lb_client (t_lb ts)"
  let ?as = "[By_value (O_bool 1), Lvalue (client_beats k)]"
  consider "\<not> enable_client_beats ts k" | "enable_client_beats ts k" "tx_msg_full ?p" | "enable_client_beats ts k" "\<not> tx_msg_full ?p" by blast
  then show thesis
  proof cases
    case 1
    with inv h show thesis by (intro that [of ts "[]"]) (simp_all add: f9_call_def asks_refl)
  next
    case 2
    then have "f9_call (\<lambda>k. Some q) k ts = Some (ts\<lparr>t_lb := (t_lb ts)\<lparr>lb_client := ?p\<rparr>\<rparr>)" by (simp add: f9_call_def asyncRPC_def)
    then have "f9_call (\<lambda>k. Some q) k ts = Some ts" by simp
    with inv h show thesis by (intro that [of ts "[]"]) (simp_all add: asks_refl)
  next
    case 3
    have has: "client_has (test_sigs F) (reps @ reqs) ?p" using inv by (simp add: loop_inv_def)
    then have ok: "registry_ok st_id (cln_registry ?p)" by (simp add: client_has_def)
    obtain stub where st: "deref (cln_registry ?p) (Some q) = Some stub" "st_id stub = f9_name" using registry_map_node [OF ok q] .
    have b: "beat_ok ts (reps @ reqs) k (n k)" using h k by (simp add: handles_inv_def)
    define c where "c = f9_request k (n k) (st_invokations stub + 1)"
    have c: "c = \<lparr>c_name = st_id stub, c_id = st_invokations stub + 1, c_callback = Some (90 + k), c_addresses = kept f9_args ?as,
        c_args = [O_bool 1, O_long (of_nat (n k))]\<rparr>" "call_typed (test_sigs F) c"
      using f9_request_typed by (simp_all add: c_def f9_request_def st(2) f9_actuals(2))
    have sig: "test_sigs F (st_id stub) = Some (T_int, f9_args, f9)" by (simp add: st(2) test_sigs_f9)
    have m: "cln_mem ?p (client_beats k) = Some (O_long (of_nat (n k)))" using b by (simp add: beat_ok_def)
    obtain p where p: "asyncRPC f9_args (Some q) (Some (90 + k)) ?as ?p = Some (True, p)" "loop_inv (test_sigs F) reps (reqs @ [c]) ((t_lb ts)\<lparr>lb_client := p\<rparr>)"
      "cln_mem p = cln_mem ?p" "cln_calls p = cln_calls ?p" "m_streamer p = m_streamer ?p" "tx_todo p = tx_todo ?p @ wire (request c)"
      by (rule client_calls [OF inv st(1) 3(2) sig f9_actuals(1) [where m = "cln_mem ?p", OF m] f9_valid(2) c]) (rule that, assumption+)
    let ?ts = "ts\<lparr>t_lb := (t_lb ts)\<lparr>lb_client := p\<rparr>, enable_client_beats := (enable_client_beats ts)(k := False), f9_invokations := f9_invokations ts + 1\<rparr>"
    have "f9_call (\<lambda>k. Some q) k ts = Some ?ts" using 3(1) p(1) by (simp add: f9_call_def)
    moreover have "handles_inv ?ts (reps @ reqs @ [c]) n"
      using handles_inv_call [OF h k 3(1) refl p(3,4), of "st_invokations stub + 1"] by (simp add: c_def)
    moreover have "asks ts [c] ?ts"
      using p(3,4) queued_sizes [OF p(5,6)] asyncRPC_keeps [OF p(1)] asyncRPC_handles [OF p(1)] by (simp add: asks_def c_def f9_request_beat)
    ultimately show thesis using p(2) by (intro that [of ?ts "[c]"]) simp_all
  qed
qed

lemma f9_calls_ok:
  assumes inv: "loop_inv (test_sigs F) reps reqs (t_lb ts)" and h: "handles_inv ts (reps @ reqs) n" and le: "f9_invokations ts \<le> 302"
    and q: "functions_map (cln_registry (lb_client (t_lb ts))) f9_name = Some (Some q)"
  obtains ts' xs where "f9_calls (\<lambda>k. Some q) ts = Some ts'" and "loop_inv (test_sigs F) reps (reqs @ xs) (t_lb ts')" and "handles_inv ts' (reps @ reqs @ xs) n"
    and "f9_invokations ts' \<le> 302" and "asks ts xs ts'"
proof (cases "f9_invokations ts < MAX_F8_INVOKATIONS")
  case False
  with assms show thesis by (intro that [of ts "[]"]) (simp_all add: f9_calls_def asks_refl)
next
  case True
  obtain a xa where a: "f9_call (\<lambda>k. Some q) 0 ts = Some a" "loop_inv (test_sigs F) reps (reqs @ xa) (t_lb a)" "handles_inv a (reps @ reqs @ xa) n"
    "f9_invokations a \<le> f9_invokations ts + 1" "asks ts xa a"
    by (rule f9_call_ok [OF inv h, of 0 q]) (use q in auto)
  obtain b xb where b: "f9_call (\<lambda>k. Some q) 1 a = Some b" "loop_inv (test_sigs F) reps ((reqs @ xa) @ xb) (t_lb b)" "handles_inv b (reps @ (reqs @ xa) @ xb) n"
    "f9_invokations b \<le> f9_invokations a + 1" "asks a xb b"
    by (rule f9_call_ok [OF a(2,3) _ asks_node [OF a(5) q], of 1]) auto
  obtain c xc where c: "f9_call (\<lambda>k. Some q) 2 b = Some c" "loop_inv (test_sigs F) reps (((reqs @ xa) @ xb) @ xc) (t_lb c)" "handles_inv c (reps @ ((reqs @ xa) @ xb) @ xc) n"
    "f9_invokations c \<le> f9_invokations b + 1" "asks b xc c"
    by (rule f9_call_ok [OF b(2,3) _ asks_node [OF asks_trans [OF a(5) b(5)] q], of 2]) auto
  have "f9_calls (\<lambda>k. Some q) ts = Some c" using True a(1) b(1) c(1) by (simp add: f9_calls_def)
  moreover have "f9_invokations c \<le> 302" using True a(4) b(4) c(4) by (simp add: MAX_F8_INVOKATIONS_def)
  ultimately show thesis using c(2,3) asks_trans [OF asks_trans [OF a(5) b(5)] c(5)] by (intro that [of c "(xa @ xb) @ xc"]) simp_all
qed

lemma handles_inv_turn:
  assumes h: "handles_inv ts (dn @ cs) n" and dn: "completed (test_sigs F) dn (t_lb ts) st"
  shows "\<exists>n'. handles_inv (beat_next ts st) cs n'"
proof -
  have "\<exists>m. beat_ok (beat_next ts st) cs k m \<and> m + waiting (beat_next ts st) k = n k + waiting ts k" if "k < 3" for k
    using beat_turn [OF _ _ dn, of cs k "n k"] h that by (simp add: handles_inv_def waiting_def)
  then obtain n' where n': "k < 3 \<Longrightarrow> beat_ok (beat_next ts st) cs k (n' k) \<and> n' k + waiting (beat_next ts st) k = n k + waiting ts k" for k
    by metis
  have "(\<Sum>k < 3. n' k + waiting (beat_next ts st) k) = (\<Sum>k < 3. n k + waiting ts k)" using n' by (intro sum.cong) simp_all
  moreover have "f9_invokations (beat_next ts st) = f9_invokations ts" by (simp add: beat_next_def)
  ultimately have "handles_inv (beat_next ts st) cs n'" using n' h by (simp add: handles_inv_def)
  then show ?thesis by blast
qed

text \<open>
  The calls of the other functions: those of them that are still on their way come before all calls for the counters, and those that were answered
  have called their callbacks and stored their outputs.
\<close>

definition todo :: "call list \<Rightarrow> call list" where
  "todo cs = filter apart cs"

definition others :: "callbacks \<Rightarrow> callbacks" where
  "others calls = filter (\<lambda>c. fst c < 90) calls"

definition results :: "floats \<Rightarrow> mem \<Rightarrow> call list \<Rightarrow> u8 ClientCom RpcClient \<Rightarrow> bool" where
  "results F m dn p \<longleftrightarrow>
     (\<exists>rvs. list_all2 (answered (test_sigs F)) dn rvs \<and> others (cln_calls p) = concat (map2 c_calls dn rvs)) \<and>
     (\<forall>a < 90. cln_mem p a = fold (store (test_sigs F)) dn m a)"

definition others_inv :: "floats \<Rightarrow> mem \<Rightarrow> call list \<Rightarrow> call list \<Rightarrow> u8 ClientCom RpcClient \<Rightarrow> bool" where
  "others_inv F m new cs p \<longleftrightarrow> (\<exists>dn nw. cs = todo cs @ nw \<and> list_all is_beat nw \<and> new = dn @ todo cs \<and> results F m dn p)"

lemma todo_append [simp]: "todo (xs @ ys) = todo xs @ todo ys"
  by (simp add: todo_def)

lemma todo_todo [simp]: "todo (todo xs) = todo xs"
  by (simp add: todo_def)

lemma todo_beats [simp]: "list_all is_beat xs \<Longrightarrow> todo xs = []"
  by (auto simp: todo_def filter_empty_conv list_all_iff dest: is_beat_apart)

lemma others_append [simp]: "others (xs @ ys) = others xs @ others ys"
  by (simp add: others_def)

lemma todo_id: "todo xs = xs \<longleftrightarrow> list_all apart xs"
  by (simp add: todo_def list_all_iff filter_id_conv)

lemma others_todo: "list_all2 P cs rvs \<Longrightarrow> list_all apart cs \<Longrightarrow> others (concat (map2 c_calls cs rvs)) = concat (map2 c_calls cs rvs)"
  by (induction rule: list_all2_induct) (auto simp: others_def c_calls_def apart_def split: option.split)

lemma others_beats: "list_all2 P cs rvs \<Longrightarrow> list_all is_beat cs \<Longrightarrow> others (concat (map2 c_calls cs rvs)) = []"
  by (induction rule: list_all2_induct) (auto simp: others_def c_calls_def is_beat_def split: option.split)

lemma fold_store_beats: "list_all is_beat cs \<Longrightarrow> a < 90 \<Longrightarrow> fold (store sigs) cs m a = m a"
proof (induction cs arbitrary: m)
  case (Cons c cs)
  then have "a \<notin> set (c_addresses c)" by (auto simp: is_beat_def)
  with Cons show ?case by (simp add: store_other)
qed simp

lemma fold_store_cong: "m a = m' a \<Longrightarrow> fold (store sigs) cs m a = fold (store sigs) cs m' a"
proof (induction cs arbitrary: m m')
  case (Cons c cs)
  from store_cong [of m a m' sigs c] Cons.prems show ?case by (auto intro: Cons.IH)
qed simp

text \<open>The first of the calls \<open>os @ nw\<close> are completed.\<close>

lemma first_completed:
  assumes "dn @ cs = os @ nw"
  obtains d1 d2 os' nw' where "dn = d1 @ d2" and "cs = os' @ nw'" and "os = d1 @ os'" and "nw = d2 @ nw'"
proof (cases "length os \<le> length dn")
  case True
  then obtain d2 where "dn = os @ d2" "nw = d2 @ cs" using assms by (auto simp: append_eq_append_conv2)
  then show thesis by (intro that [of os d2 "[]" cs]) simp_all
next
  case False
  then obtain os' where "os = dn @ os'" "cs = os' @ nw" using assms by (auto simp: append_eq_append_conv2)
  then show thesis by (intro that [of dn "[]" os' nw]) simp_all
qed

lemma results_turn:
  assumes r: "results F m dn (lb_client st)" and d: "list_all apart d1" "list_all is_beat d2" and c: "completed (test_sigs F) (d1 @ d2) st st'"
  shows "results F m (dn @ d1) (lb_client st')"
proof -
  let ?sigs = "test_sigs F"
  obtain rvs where rvs: "list_all2 (answered ?sigs) dn rvs" "others (cln_calls (lb_client st)) = concat (map2 c_calls dn rvs)"
    "\<And>a. a < 90 \<Longrightarrow> cln_mem (lb_client st) a = fold (store ?sigs) dn m a"
    using r by (auto simp: results_def)
  obtain vs where vs: "list_all2 (answered ?sigs) (d1 @ d2) vs" "cln_calls (lb_client st') = cln_calls (lb_client st) @ concat (map2 c_calls (d1 @ d2) vs)"
    "cln_mem (lb_client st') = fold (store ?sigs) (d1 @ d2) (cln_mem (lb_client st))"
    using c by (auto simp: completed_def)
  obtain v1 v2 where v: "vs = v1 @ v2" "list_all2 (answered ?sigs) d1 v1" "list_all2 (answered ?sigs) d2 v2" using vs(1) by (auto simp: list_all2_append1)
  note len = list_all2_lengthD [OF rvs(1)] list_all2_lengthD [OF v(2)]
  have "others (cln_calls (lb_client st')) = concat (map2 c_calls (dn @ d1) (rvs @ v1))"
    using others_todo [OF v(2) d(1)] others_beats [OF v(3) d(2)] len by (simp add: vs(2) v(1) rvs(2))
  moreover have "cln_mem (lb_client st') a = fold (store ?sigs) (dn @ d1) m a" if "a < 90" for a
    using fold_store_beats [OF d(2) that] fold_store_cong [of "cln_mem (lb_client st)" a "fold (store ?sigs) dn m" ?sigs d1] rvs(3) [OF that] by (simp add: vs(3))
  ultimately show ?thesis using list_all2_appendI [OF rvs(1) v(2)] unfolding results_def by blast
qed

lemma others_inv_turn:
  assumes "others_inv F m new (dn @ cs) (lb_client st)" and "completed (test_sigs F) dn st st'"
  shows "others_inv F m new cs (lb_client st')"
proof -
  obtain d nw where o: "dn @ cs = todo (dn @ cs) @ nw" "list_all is_beat nw" "new = d @ todo (dn @ cs)" "results F m d (lb_client st)"
    using assms(1) by (auto simp: others_inv_def)
  obtain d1 d2 os' nw' where f: "dn = d1 @ d2" "cs = os' @ nw'" "todo (dn @ cs) = d1 @ os'" "nw = d2 @ nw'" by (rule first_completed [OF o(1)])
  have b: "list_all is_beat d2" "list_all is_beat nw'" using o(2) f(4) by simp_all
  have "list_all apart (d1 @ os')" unfolding todo_id [symmetric] f(3) [symmetric] by (rule todo_todo)
  then have t: "list_all apart d1" "list_all apart os'" by simp_all
  have "results F m (d @ d1) (lb_client st')" by (rule results_turn [OF o(4) t(1) b(1) assms(2) [unfolded f(1)]])
  then show ?thesis using f b t o(3) by (auto simp: others_inv_def simp flip: todo_id)
qed

lemma others_inv_asks:
  assumes "others_inv F m new cs p" and "list_all is_beat xs" and "cln_mem p' = cln_mem p" and "cln_calls p' = cln_calls p"
  shows "others_inv F m new (cs @ xs) p'"
proof -
  obtain dn nw where o: "cs = todo cs @ nw" "list_all is_beat nw" "new = dn @ todo cs" "results F m dn p" using assms(1) by (auto simp: others_inv_def)
  have "cs @ xs = todo (cs @ xs) @ nw @ xs" using o(1) assms(2) by simp
  moreover have "results F m dn p'" using o(4) assms(3,4) by (simp add: results_def)
  ultimately show ?thesis using o(2,3) assms(2) unfolding others_inv_def by (intro exI [of _ dn] exI [of _ "nw @ xs"]) simp
qed

text \<open>The invariant of the loop.\<close>

record test_nodes =
  hq :: "node list"
  q9 :: node
  kq :: "node list"
  k9 :: node
  calls_made :: "call list"
  mem_before :: mem

definition test_inv :: "floats \<Rightarrow> test_nodes \<Rightarrow> test_state \<Rightarrow> (nat \<Rightarrow> nat) \<Rightarrow> call list \<Rightarrow> call list \<Rightarrow> bool" where
  "test_inv F N ts n reps reqs \<longleftrightarrow>
     loop_inv (test_sigs F) reps reqs (t_lb ts) \<and> handles_inv ts (reps @ reqs) n \<and> others_inv F (mem_before N) (calls_made N) (reps @ reqs) (lb_client (t_lb ts)) \<and>
     f9_invokations ts \<le> 302 \<and>
     linked (cln_registry (lb_client (t_lb ts))) (test_functions F @ [test_f9]) (hq N @ [q9 N]) \<and>
     linked (srv_registry (lb_server (t_lb ts))) (test_functions F @ [test_f9]) (kq N @ [k9 N]) \<and>
     map_option st_n_handles (deref (cln_registry (lb_client (t_lb ts))) (Some (q9 N))) = Some 1"

lemma linked_f9: "linked r (test_functions F @ [test_f9]) (qs @ [q]) \<Longrightarrow> functions_map r f9_name = Some (Some q)"
  by (simp add: linked_snoc f9_name_def)

lemma test_inv_asks:
  assumes inv: "test_inv F N ts n reps reqs"
  obtains a xs where "f9_calls (\<lambda>k. Some (q9 N)) ts = Some a" and "test_inv F N a n reps (reqs @ xs)" and "asks ts xs a"
proof -
  have i: "loop_inv (test_sigs F) reps reqs (t_lb ts)" "handles_inv ts (reps @ reqs) n" "f9_invokations ts \<le> 302"
    "functions_map (cln_registry (lb_client (t_lb ts))) f9_name = Some (Some (q9 N))" using inv linked_f9 by (auto simp: test_inv_def)
  obtain a xs where a: "f9_calls (\<lambda>k. Some (q9 N)) ts = Some a" "loop_inv (test_sigs F) reps (reqs @ xs) (t_lb a)" "handles_inv a (reps @ reqs @ xs) n"
    "f9_invokations a \<le> 302" "asks ts xs a"
    by (rule f9_calls_ok [OF i]) (rule that, assumption+)
  have "others_inv F (mem_before N) (calls_made N) ((reps @ reqs) @ xs) (lb_client (t_lb a))"
    by (rule others_inv_asks [of F _ _ _ "lb_client (t_lb ts)"]) (use inv a(5) in \<open>simp_all add: test_inv_def asks_def\<close>)
  then show thesis using inv a linked_keeps by (intro that [of a xs]) (auto simp: test_inv_def asks_def keeps_handles_def)
qed

lemma test_inv_turn:
  assumes inv: "test_inv F N a n reps reqs" and m: "main_turn malloc clk (t_lb a) = Some (st, clk')" and split: "reps @ reqs = dn @ reps' @ reqs'"
    and l: "loop_inv (test_sigs F) reps' reqs' st" and c: "completed (test_sigs F) dn (t_lb a) st"
  shows "\<exists>n'. test_inv F N (beat_next a st) n' reps' reqs'"
proof -
  have i: "handles_inv a (dn @ reps' @ reqs') n" "others_inv F (mem_before N) (calls_made N) (dn @ reps' @ reqs') (lb_client (t_lb a))"
    using inv by (simp_all add: test_inv_def split)
  obtain n' where "handles_inv (beat_next a st) (reps' @ reqs') n'" using handles_inv_turn [OF i(1) c] ..
  moreover have "map_option st_n_handles (deref (cln_registry (lb_client st)) (Some (q9 N))) = Some 1"
    using inv main_turn_handles [OF m] by (simp add: test_inv_def keeps_handles_def)
  moreover have "linked (cln_registry (lb_client st)) (test_functions F @ [test_f9]) (hq N @ [q9 N])"
    using inv main_turn_keeps(2) [OF m] linked_keeps unfolding test_inv_def by blast
  moreover have "linked (srv_registry (lb_server st)) (test_functions F @ [test_f9]) (kq N @ [k9 N])"
    using inv main_turn_keeps(1) [OF m] linked_keeps unfolding test_inv_def by blast
  ultimately show ?thesis using inv l others_inv_turn [OF i(2) c] by (auto simp: test_inv_def beat_next_def)
qed

context allocator
begin

lemma test_turn_ok:
  assumes inv: "test_inv F N ts n reps reqs" and clk: "clock_runs clk"
  obtains ts' j n' reps' reqs' where "test_turn malloc (\<lambda>k. Some (q9 N)) clk ts = Some (ts', sleep_for 5 (sdrop j clk))" and "test_inv F N ts' n' reps' reqs'"
    and "length (todo (reps' @ reqs')) \<le> length (todo (reps @ reqs))"
proof -
  obtain a xs where a: "f9_calls (\<lambda>k. Some (q9 N)) ts = Some a" "test_inv F N a n reps (reqs @ xs)" "asks ts xs a" by (rule test_inv_asks [OF inv])
  have "loop_inv (test_sigs F) reps (reqs @ xs) (t_lb a)" using a(2) by (simp add: test_inv_def)
  then obtain st j dn reps' reqs' where m: "main_turn malloc clk (t_lb a) = Some (st, sleep_for 5 (sdrop j clk))" "reps @ reqs @ xs = dn @ reps' @ reqs'"
    "loop_inv (test_sigs F) reps' reqs' st" "completed (test_sigs F) dn (t_lb a) st"
    using main_turn_ok [OF _ clk] by metis
  have "test_turn malloc (\<lambda>k. Some (q9 N)) clk ts = Some (beat_next a st, sleep_for 5 (sdrop j clk))"
    using a(1) m(1) by (simp add: test_turn_def beat_next_def Let_def)
  moreover have "todo (reps @ reqs) = todo (dn @ reps' @ reqs')" using a(3) unfolding m(2) [symmetric] by (simp add: asks_def)
  ultimately show thesis using test_inv_turn [OF a(2) m] that by fastforce
qed

lemma test_loop_ok:
  assumes "test_inv F N ts n reps reqs" and "clock_runs clk" and "clock_mono clk" and "0 < m_tout_preset t" and "expired_impl (clk !! e) t"
  shows "\<exists>ts' clk' n' reps' reqs'. test_loop malloc (\<lambda>k. Some (q9 N)) t clk ts = Some (ts', clk') \<and> test_inv F N ts' n' reps' reqs' \<and>
           length (todo (reps' @ reqs')) \<le> length (todo (reps @ reqs))"
  using assms
proof (induction e arbitrary: ts n reps reqs clk rule: less_induct)
  case (less e)
  show ?case
  proof (cases "expired_impl (shd clk) t")
    case True
    with less.prems(1) show ?thesis by (auto simp: test_loop.simps [of malloc _ t clk ts])
  next
    case False
    then have e: "0 < e" using less.prems(5) by (cases e) auto
    obtain a j n' reps' reqs' where a: "test_turn malloc (\<lambda>k. Some (q9 N)) (stl clk) ts = Some (a, sleep_for 5 (sdrop j (stl clk)))"
      "test_inv F N a n' reps' reqs'" "length (todo (reps' @ reqs')) \<le> length (todo (reps @ reqs))"
      by (rule test_turn_ok [OF less.prems(1) clock_runs_stl [OF less.prems(2)]]) (rule that, assumption+)
    let ?clk = "sleep_for 5 (sdrop (Suc j) clk)"
    have runs: "clock_runs ?clk" "clock_mono ?clk" using less.prems(2,3) by (simp_all add: clock_runs_sleep_for clock_runs_sdrop clock_mono_sleep_for clock_mono_sdrop del: sdrop.simps)
    have "e - Suc j < e" using e by simp
    from less.IH [OF this a(2) runs less.prems(4) expired_later [OF less.prems(3-5)]]
    show ?thesis using False a(1,3) by (fastforce simp: test_loop.simps [of malloc _ t clk ts])
  qed
qed

end

section \<open>The end of the test\<close>

lemma end_test_cln_ok:
  assumes "registry_ok st_id (cln_registry p)" and "linked (cln_registry p) fns qs" and "distinct (map fn_name fns)" and "name \<notin> fn_name ` set fns"
  shows "\<exists>p'. end_test_cln (map Some qs) p = Some p' \<and> p' = p\<lparr>cln_registry := cln_registry p'\<rparr> \<and> registry_ok st_id (cln_registry p') \<and>
           functions_map (cln_registry p') name = functions_map (cln_registry p) name \<and> registered (cln_registry p') name = registered (cln_registry p) name"
  using assms
proof (induction fns arbitrary: qs p)
  case (Cons fn fns)
  obtain q qs' where q: "qs = q # qs'" "functions_map (cln_registry p) (fn_name fn) = Some (Some q)" "linked (cln_registry p) fns qs'"
    using Cons.prems(2) by (auto simp: linked_def list_all2_Cons1)
  obtain a where a: "RpcClient_disconnect (Some q) p = Some (None, a)" "a = p\<lparr>cln_registry := cln_registry a\<rparr>" "registry_ok st_id (cln_registry a)"
    "\<And>n. n \<noteq> fn_name fn \<Longrightarrow> functions_map (cln_registry a) n = functions_map (cln_registry p) n \<and> registered (cln_registry a) n = registered (cln_registry p) n"
    by (rule client_disconnect_ok [OF Cons.prems(1) q(2)]) (rule that, assumption+)
  have "fn_name fn \<notin> fn_name ` set fns" "name \<noteq> fn_name fn" using Cons.prems(3,4) by auto
  then have "linked (cln_registry a) fns qs'" using q(3) a(4) unfolding linked_def
    by (auto simp: list_all2_conv_all_nth) (metis image_eqI nth_mem)
  then obtain p' where p': "end_test_cln (map Some qs') a = Some p'" "p' = a\<lparr>cln_registry := cln_registry p'\<rparr>" "registry_ok st_id (cln_registry p')"
    "functions_map (cln_registry p') name = functions_map (cln_registry a) name" "registered (cln_registry p') name = registered (cln_registry a) name"
    using Cons.IH [OF a(3), of qs'] Cons.prems(3,4) by auto
  have "p' = p\<lparr>cln_registry := cln_registry p'\<rparr>" by (subst p'(2), subst a(2)) simp
  then show ?case using a(1) p'(1,3-5) a(4) [OF \<open>name \<noteq> fn_name fn\<close>] q(1) by (intro exI [of _ p']) simp
qed (auto simp: linked_def)

lemma end_test_srv_ok:
  assumes "registry_ok sk_id (srv_registry p)" and "linked (srv_registry p) fns qs" and "distinct (map fn_name fns)"
  shows "\<exists>p'. end_test_srv (map Some qs) p = Some p'"
  using assms
proof (induction fns arbitrary: qs p)
  case (Cons fn fns)
  obtain q qs' where q: "qs = q # qs'" "functions_map (srv_registry p) (fn_name fn) = Some (Some q)" "linked (srv_registry p) fns qs'"
    using Cons.prems(2) by (auto simp: linked_def list_all2_Cons1)
  obtain a where a: "RpcServer_disconnect (Some q) p = Some a" "registry_ok sk_id (srv_registry a)"
    "functions_map (srv_registry a) = (functions_map (srv_registry p))(fn_name fn := None)"
    by (rule server_disconnect_ok [OF Cons.prems(1) q(2)]) (rule that, assumption+)
  have "fn_name fn \<notin> fn_name ` set fns" using Cons.prems(3) by auto
  then have "linked (srv_registry a) fns qs'" using q(3) unfolding linked_def a(3)
    by (auto simp: list_all2_conv_all_nth) (metis image_eqI nth_mem)
  with Cons.IH [OF a(2), of qs'] Cons.prems(3) a(1) q(1) show ?case by auto
qed (auto simp: linked_def)

text \<open>After the loop and the disconnections of the other functions the counters are as in the loop, and the stub of \<^verbatim>\<open>f9\<close> counts one handle;
  the calls \<open>dn\<close> of the other functions were answered.\<close>

definition links_of :: "test_nodes \<Rightarrow> test_links" where
  "links_of N = \<lparr>pfh = map Some (hq N), pfrpc = map Some (kq N), f9h = (\<lambda>k. Some (q9 N)), f9rpc = Some (k9 N)\<rparr>"

definition test_end :: "floats \<Rightarrow> test_nodes \<Rightarrow> test_state \<Rightarrow> (nat \<Rightarrow> nat) \<Rightarrow> call list \<Rightarrow> bool" where
  "test_end F N ts n dn \<longleftrightarrow> registry_ok st_id (cln_registry (lb_client (t_lb ts))) \<and>
     functions_map (cln_registry (lb_client (t_lb ts))) f9_name = Some (Some (q9 N)) \<and>
     map_option st_n_handles (deref (cln_registry (lb_client (t_lb ts))) (Some (q9 N))) = Some 1 \<and>
     (\<forall>k < 3. cln_mem (lb_client (t_lb ts)) (client_beats k) = Some (O_long (of_nat (n k))) \<and>
        list_all2 (\<lambda>i. return_value T_int (Some (O_int (of_nat i)))) [1..<Suc (n k)] (beats k (cln_calls (lb_client (t_lb ts))))) \<and>
     f9_invokations ts = (\<Sum>k < 3. n k + waiting ts k) \<and> f9_invokations ts \<le> 302 \<and> results F (mem_before N) dn (lb_client (t_lb ts))"

lemma test_ends:
  assumes inv: "test_inv F N ts n reps reqs"
  obtains c s dn where "end_test_cln (map Some (hq N)) (lb_client (t_lb ts)) = Some c" and "end_test_srv (map Some (kq N)) (lb_server (t_lb ts)) = Some s"
    and "test_end F N (ts\<lparr>t_lb := (t_lb ts)\<lparr>lb_client := c, lb_server := s\<rparr>\<rparr>) n dn" and "calls_made N = dn @ todo (reps @ reqs)"
proof -
  let ?p = "lb_client (t_lb ts)"
  have i: "loop_inv (test_sigs F) reps reqs (t_lb ts)" "handles_inv ts (reps @ reqs) n" "f9_invokations ts \<le> 302"
    "linked (cln_registry ?p) (test_functions F @ [test_f9]) (hq N @ [q9 N])"
    "linked (srv_registry (lb_server (t_lb ts))) (test_functions F @ [test_f9]) (kq N @ [k9 N])"
    "map_option st_n_handles (deref (cln_registry ?p) (Some (q9 N))) = Some 1"
    using inv unfolding test_inv_def by blast+
  obtain dn where dn: "calls_made N = dn @ todo (reps @ reqs)" "results F (mem_before N) dn ?p" using inv unfolding test_inv_def others_inv_def by blast
  have ok: "registry_ok st_id (cln_registry ?p)" "registry_ok sk_id (srv_registry (lb_server (t_lb ts)))"
    using i(1) by (simp_all add: loop_inv_def client_has_def server_has_def)
  have l: "linked (cln_registry ?p) (test_functions F) (hq N)" "linked (srv_registry (lb_server (t_lb ts))) (test_functions F) (kq N)"
    "distinct (map fn_name (test_functions F))"
    using i(4,5) test_distinct [of F] by (simp_all add: linked_snoc)
  obtain c where c: "end_test_cln (map Some (hq N)) ?p = Some c" "c = ?p\<lparr>cln_registry := cln_registry c\<rparr>" "registry_ok st_id (cln_registry c)"
    "functions_map (cln_registry c) f9_name = functions_map (cln_registry ?p) f9_name" "registered (cln_registry c) f9_name = registered (cln_registry ?p) f9_name"
    using end_test_cln_ok [OF ok(1) l(1,3) test_fresh(1)] by blast
  obtain s where s: "end_test_srv (map Some (kq N)) (lb_server (t_lb ts)) = Some s" using end_test_srv_ok [OF ok(2) l(2,3)] by blast
  have q: "functions_map (cln_registry ?p) f9_name = Some (Some (q9 N))" by (rule linked_f9 [OF i(4)])
  have "deref (cln_registry c) (Some (q9 N)) = deref (cln_registry ?p) (Some (q9 N))" using c(4,5) q by (simp add: registered_def deref_nodes)
  moreover have m: "cln_mem c = cln_mem ?p" "cln_calls c = cln_calls ?p" by (subst c(2), simp)+
  moreover have "results F (mem_before N) dn c" using dn(2) m by (simp add: results_def)
  moreover have "waiting (ts\<lparr>t_lb := x\<rparr>) k = waiting ts k" for x k by (simp add: waiting_def)
  ultimately show thesis using c(1,3,4) s q i(2,3,6) dn(1) by (intro that [of c s dn]) (auto simp: test_end_def handles_inv_def beat_ok_def)
qed

lemma f9_disconnect_twice:
  assumes "test_end F N ts n dn"
  shows "\<exists>c. RpcClient_disconnect (f9h (links_of N) 0) (lb_client (t_lb ts)) = Some (None, c) \<and> RpcClient_disconnect (f9h (links_of N) 1) c = None"
proof -
  let ?p = "lb_client (t_lb ts)"
  have t: "registry_ok st_id (cln_registry ?p)" "functions_map (cln_registry ?p) f9_name = Some (Some (q9 N))"
    "map_option st_n_handles (deref (cln_registry ?p) (Some (q9 N))) = Some 1" using assms by (simp_all add: test_end_def)
  obtain c where "RpcClient_disconnect (Some (q9 N)) ?p = Some (None, c)" "map_option st_n_handles (deref (cln_registry ?p) (Some (q9 N))) = Some 1 \<Longrightarrow> deref (cln_registry c) (Some (q9 N)) = None"
    by (rule client_disconnect_ok [OF t(1,2)]) (rule that, assumption+)
  with t(3) show ?thesis by (auto simp: RpcClient_disconnect_def links_of_def)
qed

section \<open>The test\<close>

lemma test_started:
  assumes bufs: "length stx = 1024" "length srx = 1024" "length ctx = 1024" "length crx = 1024" and hs: "finite (dom hs)" and hc: "test_mem hc"
  obtains N ts where "test_start F stx srx ctx crx hs hc = Some (links_of N, ts)" and "test_inv F N ts (\<lambda>k. 0) [] (calls_made N)"
    and "test_called F hc (calls_made N)" and "list_all apart (calls_made N)" and "mem_before N = hc"
proof -
  obtain hq q kq k new st where st: "test_start F stx srx ctx crx hs hc =
      Some (\<lparr>pfh = map Some hq, pfrpc = map Some kq, f9h = (\<lambda>k. Some q), f9rpc = Some k\<rparr>,
            \<lparr>t_lb = st, enable_client_beats = (\<lambda>k. True), f9_invokations = 0\<rparr>)"
    "loop_inv (test_sigs F) [] new st" "list_all apart new" "test_called F hc new" "cln_mem (lb_client st) = hc" "cln_calls (lb_client st) = []"
    "linked (cln_registry (lb_client st)) (test_functions F @ [test_f9]) (hq @ [q])" "linked (srv_registry (lb_server st)) (test_functions F @ [test_f9]) (kq @ [k])"
    "map_option st_n_handles (deref (cln_registry (lb_client st)) (Some q)) = Some 1"
    by (rule test_start_ok [OF bufs hs hc, of F]) (rule that, assumption+)
  let ?N = "\<lparr>hq = hq, q9 = q, kq = kq, k9 = k, calls_made = new, mem_before = hc\<rparr>"
  let ?ts = "\<lparr>t_lb = st, enable_client_beats = (\<lambda>k. True), f9_invokations = 0\<rparr>"
  have "flying k new = [] \<and> (\<forall>c \<in> set new. beat_apart k c)" for k
    using st(3) by (auto simp: list_all_iff apart_def flying_def filter_empty_conv beat_apart_def client_beats_def)
  then have "handles_inv ?ts new (\<lambda>k. 0)"
    using test_memD(17) [OF hc] st(5,6) by (simp add: handles_inv_def beat_ok_def beats_def waiting_def)
  moreover have "others_inv F hc new new (lb_client st)"
    using st(3,5,6) by (auto simp: others_inv_def results_def others_def simp flip: todo_id)
  ultimately have "test_inv F ?N ?ts (\<lambda>k. 0) [] new" using st(2,7-9) by (simp add: test_inv_def)
  then show thesis using st(1,3,4) by (intro that [of ?N ?ts]) (simp_all add: links_of_def)
qed

lemma test_body_by:
  assumes "test_start F stx srx ctx crx hs hc = Some (links_of N, ts)"
    and "test_loop malloc (\<lambda>k. Some (q9 N)) (start_impl (shd clk) (preset_impl test_time (TimeOutChrono_new 0))) (stl clk) ts = Some (ts', clk')"
    and "test_inv F N ts' n reps reqs"
  obtains ts'' dn where "test_body F malloc clk stx srx ctx crx hs hc = Some (links_of N, ts'')" and "test_end F N ts'' n dn" and "calls_made N = dn @ todo (reps @ reqs)"
proof -
  obtain c s dn where c: "end_test_cln (map Some (hq N)) (lb_client (t_lb ts')) = Some c" "end_test_srv (map Some (kq N)) (lb_server (t_lb ts')) = Some s"
    "test_end F N (ts'\<lparr>t_lb := (t_lb ts')\<lparr>lb_client := c, lb_server := s\<rparr>\<rparr>) n dn" "calls_made N = dn @ todo (reps @ reqs)"
    by (rule test_ends [OF assms(3)]) (rule that, assumption+)
  then show thesis using assms(1,2) by (intro that [OF _ c(3,4)]) (simp add: test_body_def Let_def links_of_def)
qed

lemma test_time_value: "test_time = 11766"
  by (simp add: test_time_def SERVER_LOOP_TOUT_MS_def CLIENT_LOOP_TOUT_MS_def MAX_CLIENT_MSG_BUFFER_SIZE_def MAX_F8_INVOKATIONS_def)

context allocator
begin

lemma test_body_ok:
  assumes start: "length stx = 1024" "length srx = 1024" "length ctx = 1024" "length crx = 1024" "finite (dom hs)" "test_mem hc"
    and clk: "clock_runs clk" "clock_mono clk"
  shows "\<exists>N ts n dn. test_body F malloc clk stx srx ctx crx hs hc = Some (links_of N, ts) \<and> test_end F N ts n dn"
proof -
  obtain N ts where s: "test_start F stx srx ctx crx hs hc = Some (links_of N, ts)" "test_inv F N ts (\<lambda>k. 0) [] (calls_made N)"
    by (rule test_started [OF start])
  let ?t = "start_impl (shd clk) (preset_impl test_time (TimeOutChrono_new 0))"
  have t: "0 < m_tout_preset ?t" by (simp add: start_impl_def preset_impl_def test_time_value)
  obtain e where e: "expired_impl (stl clk !! e) ?t" using clock_runs_expires [OF clock_runs_stl [OF clk(1)] t] ..
  have mono: "clock_mono (stl clk)" using clock_mono_sdrop [OF clk(2), of 1] by simp
  obtain ts' clk' n reps reqs where l: "test_loop malloc (\<lambda>k. Some (q9 N)) ?t (stl clk) ts = Some (ts', clk')" "test_inv F N ts' n reps reqs"
    using test_loop_ok [OF s(2) clock_runs_stl [OF clk(1)] mono t e] by blast
  show ?thesis by (rule test_body_by [OF s(1) l]) blast
qed

lemma test_freed:
  assumes "length stx = 1024" "length srx = 1024" "length ctx = 1024" "length crx = 1024" and "finite (dom hs)" and "test_mem hc"
    and "clock_runs clk" "clock_mono clk"
  shows "test F malloc clk stx srx ctx crx hs hc = None"
proof -
  obtain N ts n dn where b: "test_body F malloc clk stx srx ctx crx hs hc = Some (links_of N, ts)" "test_end F N ts n dn" using test_body_ok [OF assms] by blast
  obtain c where "RpcClient_disconnect (f9h (links_of N) 0) (lb_client (t_lb ts)) = Some (None, c)" "RpcClient_disconnect (f9h (links_of N) 1) c = None"
    using f9_disconnect_twice [OF b(2)] by blast
  with b(1) show ?thesis by (simp add: test_def)
qed

end

section \<open>Properties\<close>


text \<open>C8. In the test of the handles each counter ends with the number of replies that its callback got, the callback got the values one, two and
  so on up to it, in this order, and at most one call for each counter is still on its way; there are at most 302 calls.\<close>

theorem test_handles_count:
  assumes "allocator malloc" and "length stx = 1024" and "length srx = 1024" and "length ctx = 1024" and "length crx = 1024" and "finite (dom hs)"
    and "test_mem hc" and "clock_runs clk" and "clock_mono clk"
  shows "\<exists>links ts n. test_body F malloc clk stx srx ctx crx hs hc = Some (links, ts) \<and>
    (\<forall>k < 3. cln_mem (lb_client (t_lb ts)) (client_beats k) = Some (O_long (of_nat (n k))) \<and>
       list_all2 (\<lambda>i. return_value T_int (Some (O_int (of_nat i)))) [1..<Suc (n k)] (beats k (cln_calls (lb_client (t_lb ts))))) \<and>
    f9_invokations ts = (\<Sum>k < 3. n k + (if enable_client_beats ts k then 0 else 1)) \<and> f9_invokations ts \<le> 302"
  using allocator.test_body_ok [OF assms, of F] unfolding test_end_def waiting_def by blast

definition zero_bytes :: bytes where
  "zero_bytes = replicate 1024 0"

definition test_variables_mem :: mem where
  "test_variables_mem = map_of (test_variables @ map (\<lambda>k. (client_beats k, O_long 0)) [0, 1, 2])"

definition zero_floats :: floats where
  "zero_floats = \<lparr>f_add = (\<lambda>x y. 0), d_add = (\<lambda>x y. 0), f_of_int = (\<lambda>x. 0), d_of_int = (\<lambda>x. 0), d_of_f = (\<lambda>x. 0), f_of_d = (\<lambda>x. 0),
     int_of_f = (\<lambda>x. 0), long_of_d = (\<lambda>x. 0), d_eq = (\<lambda>x y. x = y)\<rparr>"

lemma test_start_values: "length zero_bytes = 1024" "finite (dom (Map.empty :: mem))" "test_mem test_variables_mem" "clock_mono (ticks 1000000)"
  by (simp_all add: zero_bytes_def test_mem_def test_variables_mem_def test_variables_def client_beats_def clock_mono_def)


theorem test_handles_count_witness:
  "\<exists>links ts n. test_body zero_floats next_address (ticks 1000000) zero_bytes zero_bytes zero_bytes zero_bytes Map.empty test_variables_mem = Some (links, ts) \<and>
     cln_mem (lb_client (t_lb ts)) 90 = Some (O_long (of_nat n))"
proof -
  have "\<exists>links ts n. test_body zero_floats next_address (ticks 1000000) zero_bytes zero_bytes zero_bytes zero_bytes Map.empty test_variables_mem = Some (links, ts) \<and>
      (\<forall>k < 3. cln_mem (lb_client (t_lb ts)) (client_beats k) = Some (O_long (of_nat (n k))))"
    using test_handles_count [OF heap.allocator_axioms test_start_values(1,1,1,1,2,3) ticks_runs test_start_values(4), of zero_floats] by fastforce
  moreover have "client_beats 0 = 90" by (simp add: client_beats_def)
  ultimately show ?thesis by (metis zero_less_numeral)
qed

end
