(* ===== verification/Test_Answers.thy ===== *)
theory Test_Answers
  imports Test_Run
begin

text \<open>
  The test cases (\<^verbatim>\<open>src/src/bmRPCTest.cpp\<close>) with a prompt clock: the time of the loop is enough for the bytes of the 504 requests and of
  their replies, so that all of them are answered, and the variables hold what the functions made of them.
\<close>

section \<open>The bytes of the messages\<close>

definition value_sizes :: "mem \<Rightarrow> test_function \<Rightarrow> test_call \<Rightarrow> nat \<times> nat \<Rightarrow> bool" where
  "value_sizes m fn cl s \<longleftrightarrow>
     (case (fn, cl) of ((name, R, Args, f), (cb, as)) \<Rightarrow>
        \<forall>xs. actuals_ok Args as xs m \<longrightarrow> length (encode xs) \<le> fst s \<and> length (encode_result R (fst (f xs)) @ encode (outs Args (snd (f xs)))) \<le> snd s \<and>
          length (outs Args (snd (f xs))) = length (kept Args as))"

lemma actuals_Nil: "actuals_ok [] [] xs m \<longleftrightarrow> xs = []"
  by (cases xs) simp_all

lemma actuals_Cons: "actuals_ok (t # ts) (a # as) xs m \<longleftrightarrow> (\<exists>y ys. xs = y # ys \<and> actual_ok t a y m \<and> actuals_ok ts as ys m)"
  by (cases xs) simp_all

lemmas sizing = actuals_Nil actuals_Cons value_sizes_def typing encode_def encode_result_def write_obj_def write_int_def write_char_def write_float_def
  length_write_container is_out_def list_all2_Cons1 list_all2_Cons2

lemma sizes_f0: "test_mem m \<Longrightarrow> value_sizes m (test_f0 F) f0_cln (16, 4)"
  using test_memD [of m] by (auto simp: sizing test_f0_def f0_cln_def f0_srv_def)

lemma sizes_f1: "value_sizes m test_f1 f1_cln (4, 0)"
  by (auto simp: sizing test_f1_def f1_cln_def f1_srv_def)

lemma sizes_f2: "test_mem m \<Longrightarrow> value_sizes m (test_f2 F) f2_cln (20, 16)"
  using test_memD [of m] by (auto simp: sizing Let_def test_f2_def f2_cln_def f2_srv_def)

lemma sizes_f3: "value_sizes m (test_f3 F) f3_cln (36, 8)"
  by (auto simp: sizing test_f3_def f3_cln_def f3_srv_def)

lemma sizes_f4: "test_mem m \<Longrightarrow> value_sizes m (test_f4 F) f4_cln (52, 60)"
  using test_memD [of m] by (auto simp: sizing Let_def test_f4_def f4_cln_def f4_srv_def F4_s2_def str_def)

lemma sizes_f5: "test_mem m \<Longrightarrow> value_sizes m (test_f5 F) f5_cln (17, 12)"
  using test_memD [of m] stoi_values by (auto simp: sizing Let_def test_f5_def f5_cln_def f5_srv_def str_def)

lemma sizes_f6: "test_mem m \<Longrightarrow> value_sizes m (test_f6 F) f6_cln (13, 13)"
  using test_memD [of m] stoi_values by (auto simp: sizing Let_def test_f6_def f6_cln_def f6_srv_def str_def)

lemma sizes_f7: "value_sizes m (test_f7 F) f7_cln (36, 8)"
  by (auto simp: sizing Let_def test_f7_def f7_cln_def f7_srv_def simp del: filter.simps)

lemma sizes_f8: "test_mem m \<Longrightarrow> value_sizes m (test_f8 F) f8_cln (13, 13)"
  using test_memD [of m] stoi_values by (auto simp: sizing Let_def test_f8_def f8_cln_def f8_srv_def str_def)

lemma sizes_all:
  assumes m: "test_mem m"
  shows "list_all2 (\<lambda>fn cl. \<exists>s. value_sizes m fn cl s) (test_functions F) test_calls"
  unfolding test_functions_def test_calls_def
  by (intro list.rel_intros exI) (rule sizes_f0 [OF m] sizes_f1 sizes_f2 [OF m] sizes_f3 sizes_f4 [OF m] sizes_f5 [OF m] sizes_f6 [OF m] sizes_f7 sizes_f8 [OF m])+

text \<open>The bytes of the nine requests of a round and of their replies.\<close>

definition round_bytes :: "(nat \<times> nat) list" where
  "round_bytes = [(52, 40), (26, 22), (57, 53), (103, 75), (138, 146), (61, 56), (49, 49), (108, 80), (51, 51)]"

definition message_sizes :: "floats \<Rightarrow> mem \<Rightarrow> nat \<times> nat \<Rightarrow> test_function \<times> test_call \<Rightarrow> bool" where
  "message_sizes F m s t \<longleftrightarrow>
     (\<forall>c. call_of m (fst t) (snd t) c \<longrightarrow> length (wire (request c)) \<le> fst s \<and> length (wire (reply (test_sigs F) c)) \<le> snd s)"

lemma message_sizesI:
  assumes "value_sizes m fn cl (a, b)" and "fn \<in> set (test_functions F)" and "length (fn_name fn) = k"
  shows "message_sizes F m (11 + k + a, 11 + k + b) (fn, cl)"
proof -
  obtain name R Args f cb as where fn: "fn = (name, R, Args, f)" "cl = (cb, as)" by (cases fn; cases cl)
  have "test_sigs F (full_name R name Args) = Some (R, Args, f)" using assms(2) by (intro test_sigs_name) (simp add: fn)
  then show ?thesis using assms(1,3)
    by (auto simp: message_sizes_def value_sizes_def call_of_def fn wire_def c_str_def request_def reply_def c_result_def c_outs_def)
qed

lemma round_sizes: "test_mem m \<Longrightarrow> list_all2 (message_sizes F m) round_bytes (zip (test_functions F) test_calls)"
proof -
  assume m: "test_mem m"
  have "map length (map fn_name (test_functions F @ [test_f9])) = [25, 11, 26, 56, 75, 33, 25, 61, 27, 17]"
    unfolding test_names by (simp add: str_def)
  then have n: "length (fn_name (test_f0 F)) = 25" "length (fn_name test_f1) = 11" "length (fn_name (test_f2 F)) = 26" "length (fn_name (test_f3 F)) = 56"
    "length (fn_name (test_f4 F)) = 75" "length (fn_name (test_f5 F)) = 33" "length (fn_name (test_f6 F)) = 25" "length (fn_name (test_f7 F)) = 61"
    "length (fn_name (test_f8 F)) = 27"
    by (simp_all add: test_functions_def)
  note s = message_sizesI [OF sizes_f0 [OF m]] message_sizesI [OF sizes_f1] message_sizesI [OF sizes_f2 [OF m]] message_sizesI [OF sizes_f3]
    message_sizesI [OF sizes_f4 [OF m]] message_sizesI [OF sizes_f5 [OF m]] message_sizesI [OF sizes_f6 [OF m]] message_sizesI [OF sizes_f7]
    message_sizesI [OF sizes_f8 [OF m]]
  show ?thesis
    using s(1) [OF _ n(1)] s(2) [OF _ n(2)] s(3) [OF _ n(3)] s(4) [OF _ n(4)] s(5) [OF _ n(5)] s(6) [OF _ n(6)] s(7) [OF _ n(7)]
      s(8) [OF _ n(8)] s(9) [OF _ n(9)]
    by (simp add: round_bytes_def test_functions_def test_calls_def)
qed

lemma list_all2_replicate: "list_all2 P xs ys \<Longrightarrow> list_all2 P (concat (replicate n xs)) (concat (replicate n ys))"
  by (induction n) (simp_all add: list_all2_appendI)

lemma wire_size_bound: "list_all2 (\<lambda>n c. length (wire (g c)) \<le> n) ns cs \<Longrightarrow> wire_size (map g cs) \<le> sum_list ns"
  by (induction rule: list_all2_induct) (simp_all add: wire_size_def)

lemma sum_list_rounds: "sum_list (concat (replicate n ns)) = n * sum_list ns" for ns :: "nat list"
  by (induction n) simp_all

lemma test_bytes:
  assumes "test_mem m" and "test_called F m new"
  shows "wire_size (map request new) \<le> 36120" and "wire_size (map (reply (test_sigs F)) new) \<le> 32032"
proof -
  let ?P = "\<lambda>s c. length (wire (request c)) \<le> fst s \<and> length (wire (reply (test_sigs F) c)) \<le> snd s"
  have "list_all2 ?P (concat (replicate TEST_MULTIPLE round_bytes)) new"
  proof (rule list_all2_trans [OF _ list_all2_replicate [OF round_sizes [OF assms(1), of F]] assms(2) [unfolded test_called_def]])
    fix s c and t :: "test_function \<times> test_call"
    assume "message_sizes F m s t" and "(case t of (fn, cl) \<Rightarrow> call_of m fn cl) c"
    then show "?P s c" by (cases t) (simp add: message_sizes_def)
  qed
  then have "list_all2 (\<lambda>n c. length (wire (request c)) \<le> n) (map fst (concat (replicate TEST_MULTIPLE round_bytes))) new"
    "list_all2 (\<lambda>n c. length (wire (reply (test_sigs F) c)) \<le> n) (map snd (concat (replicate TEST_MULTIPLE round_bytes))) new"
    by (auto simp: list_all2_map1 elim: list_all2_mono)
  from this [THEN wire_size_bound] show "wire_size (map request new) \<le> 36120" "wire_size (map (reply (test_sigs F)) new) \<le> 32032"
    by (simp_all add: round_bytes_def test_lists(3) map_concat sum_list_rounds)
qed

section \<open>The loop in time\<close>

lemma turns_left_asks:
  assumes "reps @ reqs = os @ nw" and "srv_left st' = srv_left st + wire_size (map request xs)" and "cln_left st' = cln_left st"
  shows "turns_left sigs os reps (reqs @ xs) st' = turns_left sigs os reps reqs st"
proof -
  have "length os - length reps \<le> length reqs" using arg_cong [OF assms(1), of length] by simp
  then show ?thesis using assms(2,3) by (simp add: turns_left_def)
qed

lemma turns_left_total:
  assumes inv: "loop_inv sigs reps reqs st" and e: "reps @ reqs = os @ nw"
  shows "turns_left sigs os reps reqs st \<le> turns_for (wire_size (map request os)) + turns_for (wire_size (map (reply sigs) os))"
proof (cases "length os \<le> length reps")
  case True
  then obtain xs where xs: "reps = os @ xs" using e by (auto simp: append_eq_append_conv2)
  have "cln_left st - wire_size (map (reply sigs) xs) \<le> wire_size (map (reply sigs) os)" using loop_inv_left(2) [OF inv] xs by simp
  then show ?thesis unfolding xs turns_left_reply using turns_for_mono trans_le_add2 by blast
next
  case False
  then obtain o2 where o2: "os = reps @ o2" "reqs = o2 @ nw" "o2 \<noteq> []" using e by (auto simp: append_eq_append_conv2)
  have "srv_left st - wire_size (map request nw) \<le> wire_size (map request os)" using loop_inv_left(1) [OF inv] o2 by simp
  then have "turns_for (srv_left st - wire_size (map request nw)) \<le> turns_for (wire_size (map request os))" by (rule turns_for_mono)
  then show ?thesis unfolding o2(1,2) turns_left_request [OF o2(3)] by linarith
qed

text \<open>The turns that the calls of the other functions still need.\<close>

definition others_left :: "floats \<Rightarrow> call list \<Rightarrow> call list \<Rightarrow> test_state \<Rightarrow> nat" where
  "others_left F reps reqs ts =
     (if todo (reps @ reqs) = [] then 0 else turns_left (test_sigs F) (todo (reps @ reqs)) reps reqs (t_lb ts))"

lemma others_left_bound:
  assumes inv: "test_inv F N ts n reps reqs"
  shows "others_left F reps reqs ts \<le> turns_for (wire_size (map request (calls_made N))) + turns_for (wire_size (map (reply (test_sigs F)) (calls_made N)))"
proof -
  obtain dn nw where o: "reps @ reqs = todo (reps @ reqs) @ nw" "calls_made N = dn @ todo (reps @ reqs)" using inv unfolding test_inv_def others_inv_def by blast
  have "loop_inv (test_sigs F) reps reqs (t_lb ts)" using inv by (simp add: test_inv_def)
  note b = turns_left_total [OF this o(1)]
  have "turns_for (wire_size (map request (todo (reps @ reqs)))) \<le> turns_for (wire_size (map request (calls_made N)))"
    "turns_for (wire_size (map (reply (test_sigs F)) (todo (reps @ reqs)))) \<le> turns_for (wire_size (map (reply (test_sigs F)) (calls_made N)))"
    unfolding o(2) map_append wire_size_append by (intro turns_for_mono, simp)+
  then show ?thesis using b unfolding others_left_def by auto
qed

lemma others_left_pos:
  assumes inv: "test_inv F N ts n reps reqs" and "todo (reps @ reqs) \<noteq> []"
  shows "0 < others_left F reps reqs ts"
proof -
  obtain nw where "reps @ reqs = todo (reps @ reqs) @ nw" using inv unfolding test_inv_def others_inv_def by blast
  with assms turns_left_pos [of "test_sigs F" reps reqs "t_lb ts" "todo (reps @ reqs)" nw] show ?thesis
    by (simp add: others_left_def test_inv_def del: todo_append)
qed

lemma todo_rest:
  assumes "dn @ cs = todo os @ nw" and "list_all is_beat nw"
  shows "length (todo os) \<le> length dn \<Longrightarrow> todo cs = []" and "todo os = dn @ os' \<Longrightarrow> todo cs = os'"
proof -
  assume "length (todo os) \<le> length dn"
  then have "nw = drop (length (todo os)) dn @ cs" using arg_cong [OF assms(1), of "drop (length (todo os))"] by simp
  then have "list_all is_beat cs" using assms(2) by (metis list_all_append)
  then show "todo cs = []" by simp
next
  assume o: "todo os = dn @ os'"
  then have "todo (dn @ os') = dn @ os'" using todo_todo [of os] by simp
  then have "todo os' = os'" unfolding todo_id by simp
  moreover have "cs = os' @ nw" using assms(1) o by simp
  ultimately show "todo cs = os'" using assms(2) by simp
qed

context allocator
begin

lemma test_turn_nearer:
  assumes inv: "test_inv F N ts n reps reqs" and clk: "loop_timely clk"
  obtains ts' j n' reps' reqs' where "test_turn malloc (\<lambda>k. Some (q9 N)) clk ts = Some (ts', sleep_for 5 (sdrop j clk))" and "test_inv F N ts' n' reps' reqs'"
    and "pushed [] (t_lb ts')" and "pushed [] (t_lb ts) \<Longrightarrow> others_left F reps' reqs' ts' \<le> others_left F reps reqs ts - 1"
    and "prompt clk \<Longrightarrow> shd (sleep_for 5 (sdrop j clk)) < shd clk + 26000000"
proof -
  let ?os = "todo (reps @ reqs)"
  obtain a xs where a: "f9_calls (\<lambda>k. Some (q9 N)) ts = Some a" "test_inv F N a n reps (reqs @ xs)" "asks ts xs a" by (rule test_inv_asks [OF inv])
  obtain nw where nw: "reps @ reqs = ?os @ nw" "list_all is_beat nw" using inv unfolding test_inv_def others_inv_def by blast
  have l: "loop_inv (test_sigs F) reps (reqs @ xs) (t_lb a)" using a(2) by (simp add: test_inv_def)
  have e: "reps @ reqs @ xs = ?os @ nw @ xs" by (metis nw(1) append.assoc)
  obtain st j dn reps' reqs' where m: "main_turn malloc clk (t_lb a) = Some (st, sleep_for 5 (sdrop j clk))" "reps @ reqs @ xs = dn @ reps' @ reqs'"
    "loop_inv (test_sigs F) reps' reqs' st" "completed (test_sigs F) dn (t_lb a) st" "pushed [] st"
    "pushed (nw @ xs) (t_lb a) \<Longrightarrow> nearer (test_sigs F) ?os reps (reqs @ xs) (t_lb a) dn reps' reqs' st"
    by (rule main_turn_nearer [OF l clk e]) (rule that, assumption+)
  obtain n' where n': "test_inv F N (beat_next a st) n' reps' reqs'" using test_inv_turn [OF a(2) m(1-4)] by blast
  have turn: "test_turn malloc (\<lambda>k. Some (q9 N)) clk ts = Some (beat_next a st, sleep_for 5 (sdrop j clk))"
    using a(1) m(1) by (simp add: test_turn_def beat_next_def Let_def)
  have sizes: "srv_in (t_lb a) = srv_in (t_lb ts)" "srv_left (t_lb a) = srv_left (t_lb ts) + wire_size (map request xs)" "cln_left (t_lb a) = cln_left (t_lb ts)"
    "list_all is_beat (nw @ xs)" using a(3) nw(2) by (simp_all add: asks_def)
  have "others_left F reps' reqs' (beat_next a st) \<le> others_left F reps reqs ts - 1" if p: "pushed [] (t_lb ts)"
  proof -
    have "pushed (nw @ xs) (t_lb a)" using p sizes(1,2) by (intro pushed_append) (auto simp: pushed_def)
    note near = m(6) [OF this, unfolded nearer_def turns_left_asks [OF nw(1) sizes(2,3)]]
    have split: "dn @ reps' @ reqs' = todo (reps @ reqs) @ nw @ xs" using e m(2) by metis
    show ?thesis
    proof (cases "length ?os \<le> length dn")
      case True
      then show ?thesis using todo_rest(1) [OF split sizes(4)] by (simp add: others_left_def)
    next
      case False
      then obtain os' where o: "?os = dn @ os'" "turns_left (test_sigs F) os' reps' reqs' st < turns_left (test_sigs F) ?os reps reqs (t_lb ts)" using near by blast
      have "todo (reps' @ reqs') = os'" by (rule todo_rest(2) [OF split sizes(4) o(1)])
      moreover have "?os \<noteq> []" using False by auto
      ultimately show ?thesis using o(2) by (auto simp: others_left_def beat_next_def simp del: todo_append)
    qed
  qed
  moreover have "pushed [] (t_lb (beat_next a st))" using m(5) by (simp add: beat_next_def)
  ultimately show thesis using main_turn_time [OF m(1)] by (intro that [OF turn n'])
qed

lemma test_loop_answers:
  assumes "test_inv F N ts n reps reqs" and "prompt clk" and "pushed [] (t_lb ts)" and "others_left F reps reqs ts \<le> T"
    and "0 < m_tout_preset t" and "shd clk + int T * 26019000 < m_start t + m_tout_preset t * 1000000"
  shows "\<exists>ts' clk' n' reps' reqs'. test_loop malloc (\<lambda>k. Some (q9 N)) t clk ts = Some (ts', clk') \<and> test_inv F N ts' n' reps' reqs' \<and> todo (reps' @ reqs') = []"
  using assms
proof (induction T arbitrary: ts n reps reqs clk)
  case 0
  have runs: "clock_runs clk" "clock_mono clk" using 0(2) prompt_mono by (simp_all add: prompt_def)
  obtain e where e: "expired_impl (clk !! e) t" using clock_runs_expires [OF runs(1) 0(5)] ..
  have "todo (reps @ reqs) = []" using 0(4) others_left_pos [OF 0(1)] by auto
  then show ?case using test_loop_ok [OF 0(1) runs 0(5) e] by fastforce
next
  case (Suc T)
  have run: "\<not> expired_impl (shd clk) t" using Suc.prems(5,6) by (auto simp: expired_iff)
  note p1 = prompt_stl [OF Suc.prems(2)]
  obtain a j n' reps' reqs' where a: "test_turn malloc (\<lambda>k. Some (q9 N)) (stl clk) ts = Some (a, sleep_for 5 (sdrop j (stl clk)))" "test_inv F N a n' reps' reqs'"
    "pushed [] (t_lb a)" "pushed [] (t_lb ts) \<Longrightarrow> others_left F reps' reqs' a \<le> others_left F reps reqs ts - 1"
    "prompt (stl clk) \<Longrightarrow> shd (sleep_for 5 (sdrop j (stl clk))) < shd (stl clk) + 26000000"
    by (rule test_turn_nearer [OF Suc.prems(1) prompt_timely [OF p1]]) (rule that, assumption+)
  let ?clk = "sleep_for 5 (sdrop j (stl clk))"
  have "others_left F reps' reqs' a \<le> T" using a(4) [OF Suc.prems(3)] Suc.prems(4) by linarith
  moreover have "shd ?clk + int T * 26019000 < m_start t + m_tout_preset t * 1000000"
    using a(5) [OF p1] prompt_step [OF Suc.prems(2)] Suc.prems(6) by simp
  ultimately show ?case using Suc.IH [OF a(2) prompt_sleep_for [OF prompt_sdrop [OF p1]] a(3) _ Suc.prems(5)] run a(1)
    by (simp add: test_loop.simps [of malloc _ t clk ts])
qed

end

section \<open>The answers\<close>

text \<open>What the function returns and stores for the call when the variables are as in \<open>m\<close>.\<close>

definition returns :: "mem \<Rightarrow> test_function \<Rightarrow> test_call \<Rightarrow> ReturnValue \<Rightarrow> bool" where
  "returns m fn cl rv \<longleftrightarrow>
     (case (fn, cl) of ((name, R, Args, f), (cb, as)) \<Rightarrow> \<exists>xs. actuals_ok Args as xs m \<and> return_value R (fst (f xs)) rv)"

definition stores :: "mem \<Rightarrow> test_function \<Rightarrow> test_call \<Rightarrow> mem \<Rightarrow> bool" where
  "stores m fn cl m' \<longleftrightarrow>
     (case (fn, cl) of ((name, R, Args, f), (cb, as)) \<Rightarrow> \<exists>xs. actuals_ok Args as xs m \<and> map m' (kept Args as) = map Some (outs Args (snd (f xs))))"

abbreviation test_round :: "floats \<Rightarrow> (test_function \<times> test_call) list" where
  "test_round F \<equiv> zip (test_functions F) test_calls"

lemma test_round_sigs:
  assumes "(fn, cl) \<in> set (test_round F)"
  shows "test_sigs F (fn_name fn) = Some (snd fn)"
proof -
  obtain name R Args f where fn: "fn = (name, R, Args, f)" by (cases fn)
  have "(name, R, Args, f) \<in> set (test_functions F @ [test_f9])" using assms unfolding fn by (auto dest: set_zip_leftD)
  from test_sigs_name [OF this] show ?thesis by (simp add: fn)
qed

lemma set_rounds: "set (concat (replicate n xs)) \<subseteq> set xs"
  by (induction n) auto

lemma called_returns:
  assumes "list_all2 (\<lambda>(fn, cl). call_of m fn cl) ts cs" and "list_all2 (answered (test_sigs F)) cs rvs" and "set ts \<subseteq> set (test_round F)"
  shows "list_all2 (\<lambda>(fn, cl) (b, rv). fst cl = Some b \<and> returns m fn cl rv) (filter (\<lambda>(fn, cl). fst cl \<noteq> None) ts) (concat (map2 c_calls cs rvs))"
  using assms
proof (induction ts arbitrary: cs rvs)
  case (Cons t ts)
  obtain name R Args f cb as where t: "t = ((name, R, Args, f), (cb, as))" by (cases t) auto
  obtain c cs' rv rvs' where l: "cs = c # cs'" "rvs = rv # rvs'" "call_of m (name, R, Args, f) (cb, as) c" "answered (test_sigs F) c rv"
    "list_all2 (\<lambda>(fn, cl). call_of m fn cl) ts cs'" "list_all2 (answered (test_sigs F)) cs' rvs'"
    using Cons.prems(1,2) by (auto simp: list_all2_Cons1 t)
  have "test_sigs F (full_name R name Args) = Some (R, Args, f)" using test_round_sigs [of "(name, R, Args, f)" "(cb, as)" F] Cons.prems(3) by (simp add: t)
  then have "returns m (name, R, Args, f) (cb, as) rv" using l(3,4) by (auto simp: returns_def call_of_def answered_def)
  then show ?case using Cons.IH [OF l(5,6)] Cons.prems(3) l(1-3) by (auto simp: t call_of_def c_calls_def split: option.split)
qed simp

text \<open>Of calls that store at the same addresses the last one counts; here they all store the same.\<close>

lemma map_upds_stored: "distinct as \<Longrightarrow> length ys = length as \<Longrightarrow> map (m(as [\<mapsto>] ys)) as = map Some ys"
  by (induction as arbitrary: ys m) (auto simp: length_Suc_conv map_upds_apply_nontin)

lemma map_upds_apart: "set as \<inter> set bs = {} \<Longrightarrow> map (m(bs [\<mapsto>] ys)) as = map m as"
  by (auto intro!: map_upds_apply_nontin)

lemma fold_store_same:
  assumes "\<forall>c \<in> set cs. c_addresses c = as \<and> c_outs sigs c = ys \<or> set as \<inter> set (c_addresses c) = {}"
    and "\<exists>c \<in> set cs. c_addresses c = as \<and> c_outs sigs c = ys" and "distinct as" and "length ys = length as"
  shows "map (fold (store sigs) cs m) as = map Some ys"
  using assms(1,2)
proof (induction cs rule: rev_induct)
  case (snoc c cs)
  show ?case
  proof (cases "c_addresses c = as \<and> c_outs sigs c = ys")
    case True
    then show ?thesis using map_upds_stored [OF assms(3,4)] by (simp add: store_def)
  next
    case False
    then have "set as \<inter> set (c_addresses c) = {}" "\<exists>c \<in> set cs. c_addresses c = as \<and> c_outs sigs c = ys" using snoc.prems by auto
    moreover from this have "map (store sigs c (fold (store sigs) cs m)) as = map (fold (store sigs) cs m) as" unfolding store_def by (intro map_upds_apart)
    ultimately show ?thesis using snoc.IH snoc.prems(1) by simp
  qed
qed simp

lemma actuals_unique: "actuals_ok ts as xs m \<Longrightarrow> actuals_ok ts as ys m \<Longrightarrow> xs = ys"
proof (induction ts as xs m arbitrary: ys rule: actuals_ok.induct)
  case (2 t ts a as x xs m)
  then obtain y ys' where "ys = y # ys'" "actual_ok t a y m" "actuals_ok ts as ys' m" by (auto simp: actuals_Cons)
  with 2 show ?case by (auto simp: actual_ok_def split: actual.splits)
qed (auto simp: actuals_Nil)

lemmas test_definitions = test_functions_def test_calls_def test_f0_def test_f1_def test_f2_def test_f3_def test_f4_def test_f5_def test_f6_def test_f7_def
  test_f8_def f0_cln_def f1_cln_def f2_cln_def f3_cln_def f4_cln_def f5_cln_def f6_cln_def f7_cln_def f8_cln_def

definition addresses :: "test_function \<times> test_call \<Rightarrow> addr list" where
  "addresses t = (case t of ((name, R, Args, f), (cb, as)) \<Rightarrow> kept Args as)"

lemma test_addresses: "map addresses (test_round F) = [[10], [], [20], [], [40, 41, 42, 43, 44, 45, 46], [50], [60, 61], [], [80, 81, 82]]"
  by (simp add: test_definitions addresses_def kept_def keeps_def is_const_noref_def is_reference_def is_pointer_def)

lemma distinct_concat_apart: "distinct (concat (map g ts)) \<Longrightarrow> t \<in> set ts \<Longrightarrow> u \<in> set ts \<Longrightarrow> t = u \<or> set (g t) \<inter> set (g u) = {}"
  by (induction ts) auto

lemma addresses_apart: "t \<in> set (test_round F) \<Longrightarrow> u \<in> set (test_round F) \<Longrightarrow> t = u \<or> set (addresses t) \<inter> set (addresses u) = {}"
  by (rule distinct_concat_apart) (simp_all add: test_addresses)

lemma addresses_ok:
  assumes m: "test_mem m" and t: "((name, R, Args, f), (cb, as)) \<in> set (test_round F)"
  shows "distinct (kept Args as)" and "actuals_ok Args as xs m \<Longrightarrow> length (outs Args (snd (f xs))) = length (kept Args as)"
    and "\<exists>xs. actuals_ok Args as xs m" and "a \<in> set (kept Args as) \<Longrightarrow> a < 90"
proof -
  have "addresses ((name, R, Args, f), (cb, as)) \<in> set (map addresses (test_round F))" using t unfolding set_map by (rule imageI)
  then show "distinct (kept Args as)" "a \<in> set (kept Args as) \<Longrightarrow> a < 90" unfolding test_addresses by (auto simp: addresses_def)
  obtain s where "value_sizes m (name, R, Args, f) (cb, as) s" using sizes_all [OF m, of F] t unfolding list_all2_iff by blast
  then show "actuals_ok Args as xs m \<Longrightarrow> length (outs Args (snd (f xs))) = length (kept Args as)" by (simp add: value_sizes_def)
  have "ready m (name, R, Args, f) (cb, as)" using ready_all [OF m, of F] t unfolding list_all2_iff by blast
  then show "\<exists>xs. actuals_ok Args as xs m" by (auto simp: ready_def)
qed

lemma list_all2_partner:
  "list_all2 P xs ys \<Longrightarrow> y \<in> set ys \<Longrightarrow> \<exists>x \<in> set xs. P x y" "list_all2 P xs ys \<Longrightarrow> x \<in> set xs \<Longrightarrow> \<exists>y \<in> set ys. P x y"
  by (induction rule: list_all2_induct) auto

lemma called_stores:
  assumes m: "test_mem m" and new: "test_called F m new" and m': "\<forall>a < 90. m' a = fold (store (test_sigs F)) new m a" and t: "t \<in> set (test_round F)"
  shows "stores m (fst t) (snd t) m'"
proof -
  obtain name R Args f cb as where e: "t = ((name, R, Args, f), (cb, as))" by (cases t) auto
  note ok = addresses_ok [OF m t [unfolded e]]
  obtain xs where xs: "actuals_ok Args as xs m" using ok(3) ..
  let ?ys = "outs Args (snd (f xs))"
  have sig: "test_sigs F (full_name R name Args) = Some (R, Args, f)" using test_round_sigs [OF t [unfolded e]] by simp
  have mine: "c_addresses c = kept Args as \<and> c_outs (test_sigs F) c = ?ys" if "call_of m (fst t) (snd t) c" for c
    using that actuals_unique [OF _ xs] sig by (auto simp: e call_of_def c_outs_def)
  have all: "\<forall>c \<in> set new. c_addresses c = kept Args as \<and> c_outs (test_sigs F) c = ?ys \<or> set (kept Args as) \<inter> set (c_addresses c) = {}"
  proof
    fix c assume "c \<in> set new"
    from list_all2_partner(1) [OF new [unfolded test_called_def case_prod_unfold] this]
    obtain t' where t': "t' \<in> set (test_round F)" "call_of m (fst t') (snd t') c" by auto
    have "c_addresses c = addresses t'" using t'(2) by (simp add: call_of_def addresses_def case_prod_unfold)
    moreover have "kept Args as = addresses t" by (simp add: e addresses_def)
    ultimately show "c_addresses c = kept Args as \<and> c_outs (test_sigs F) c = ?ys \<or> set (kept Args as) \<inter> set (c_addresses c) = {}"
      using mine [of c] t'(2) addresses_apart [OF t t'(1)] by auto
  qed
  have "t \<in> set (concat (replicate TEST_MULTIPLE (test_round F)))" using t by (simp add: test_lists)
  then have "\<exists>c \<in> set new. c_addresses c = kept Args as \<and> c_outs (test_sigs F) c = ?ys"
    using list_all2_partner(2) [OF new [unfolded test_called_def]] mine unfolding case_prod_unfold by blast
  from fold_store_same [OF all this ok(1) ok(2) [OF xs], of m]
  have "map (fold (store (test_sigs F)) new m) (kept Args as) = map Some ?ys" .
  moreover have "map m' (kept Args as) = map (fold (store (test_sigs F)) new m) (kept Args as)" using m' ok(4) by (intro map_cong) simp_all
  ultimately have "map m' (kept Args as) = map Some ?ys" by simp
  then show ?thesis using xs by (auto simp: e stores_def)
qed

context allocator
begin

lemma test_body_answers:
  assumes start: "length stx = 1024" "length srx = 1024" "length ctx = 1024" "length crx = 1024" "finite (dom hs)" "test_mem hc" and clk: "prompt clk"
  shows "\<exists>N ts. test_body F malloc clk stx srx ctx crx hs hc = Some (links_of N, ts) \<and> test_called F hc (calls_made N) \<and>
           results F hc (calls_made N) (lb_client (t_lb ts))"
proof -
  obtain N ts where s: "test_start F stx srx ctx crx hs hc = Some (links_of N, ts)" "test_inv F N ts (\<lambda>k. 0) [] (calls_made N)"
    "test_called F hc (calls_made N)" "mem_before N = hc"
    by (rule test_started [OF start]) (rule that, assumption+)
  let ?t = "start_impl (shd clk) (preset_impl test_time (TimeOutChrono_new 0))"
  let ?c = "stl clk"
  note p = prompt_stl [OF clk] prompt_stl [OF prompt_stl [OF clk]]
  have t: "0 < m_tout_preset ?t" "m_start ?t = shd clk" "m_tout_preset ?t = 11766" by (simp_all add: start_impl_def preset_impl_def test_time_value)
  have step: "shd ?c \<le> shd clk + 19000" "shd (stl ?c) \<le> shd ?c + 19000" using prompt_step clk p(1) by blast+
  obtain a j n reps reqs where a: "test_turn malloc (\<lambda>k. Some (q9 N)) (stl ?c) ts = Some (a, sleep_for 5 (sdrop j (stl ?c)))" "test_inv F N a n reps reqs"
    "pushed [] (t_lb a)" "prompt (stl ?c) \<Longrightarrow> shd (sleep_for 5 (sdrop j (stl ?c))) < shd (stl ?c) + 26000000"
    by (rule test_turn_nearer [OF s(2) prompt_timely [OF p(2)]]) (rule that, assumption+)
  have "turns_for (wire_size (map request (calls_made N))) \<le> turns_for 36120" "turns_for (wire_size (map (reply (test_sigs F)) (calls_made N))) \<le> turns_for 32032"
    using test_bytes [OF start(6) s(3)] turns_for_mono by blast+
  then have left: "others_left F reps reqs a \<le> 268" using others_left_bound [OF a(2)] by (simp add: turns_for_def)
  have time: "shd (sleep_for 5 (sdrop j (stl ?c))) + int 268 * 26019000 < m_start ?t + m_tout_preset ?t * 1000000"
    using a(4) [OF p(2)] step t(2,3) by simp
  obtain ts' clk' n' reps' reqs' where l: "test_loop malloc (\<lambda>k. Some (q9 N)) ?t (sleep_for 5 (sdrop j (stl ?c))) a = Some (ts', clk')"
    "test_inv F N ts' n' reps' reqs'" "todo (reps' @ reqs') = []"
    using test_loop_answers [OF a(2) prompt_sleep_for [OF prompt_sdrop [OF p(2)]] a(3) left t(1) time] by blast
  have "\<not> expired_impl (shd ?c) ?t" using t step by (simp add: expired_iff)
  then have loop: "test_loop malloc (\<lambda>k. Some (q9 N)) ?t ?c ts = Some (ts', clk')" using a(1) l(1) by (simp add: test_loop.simps [of malloc _ _ ?c ts])
  obtain ts'' dn where b: "test_body F malloc clk stx srx ctx crx hs hc = Some (links_of N, ts'')" "test_end F N ts'' n' dn" "calls_made N = dn @ todo (reps' @ reqs')"
    by (rule test_body_by [OF s(1) loop l(2)]) (rule that, assumption+)
  then have "results F hc (calls_made N) (lb_client (t_lb ts''))" using l(3) s(4) by (simp add: test_end_def)
  then show ?thesis using b(1) s(3) by blast
qed

end

section \<open>Property\<close>

text \<open>C7. With a clock whose readings are at most 19 microseconds apart, sleeping aside, the time of the test is enough for all its 504 calls of
  \<^verbatim>\<open>f0\<close> to \<^verbatim>\<open>f8\<close>: the callbacks are called in the order of the calls, in 56 rounds, each with what its function returns for the initial values
  of the variables, and at the end the variables hold what the functions stored.\<close>

theorem test_cases_answered:
  assumes "allocator malloc" and "length stx = 1024" and "length srx = 1024" and "length ctx = 1024" and "length crx = 1024" and "finite (dom hs)"
    and "test_mem hc" and "prompt clk"
  shows "\<exists>links ts. test_body F malloc clk stx srx ctx crx hs hc = Some (links, ts) \<and>
    list_all2 (\<lambda>(fn, cl) (b, rv). fst cl = Some b \<and> returns hc fn cl rv)
      (filter (\<lambda>(fn, cl). fst cl \<noteq> None) (concat (replicate 56 (zip (test_functions F) test_calls)))) (others (cln_calls (lb_client (t_lb ts)))) \<and>
    list_all (\<lambda>(fn, cl). stores hc fn cl (cln_mem (lb_client (t_lb ts)))) (zip (test_functions F) test_calls)"
proof -
  obtain N ts where b: "test_body F malloc clk stx srx ctx crx hs hc = Some (links_of N, ts)" "test_called F hc (calls_made N)"
    "results F hc (calls_made N) (lb_client (t_lb ts))" using allocator.test_body_answers [OF assms, of F] by (elim exE conjE) (rule that)
  obtain rvs where r: "list_all2 (answered (test_sigs F)) (calls_made N) rvs" "others (cln_calls (lb_client (t_lb ts))) = concat (map2 c_calls (calls_made N) rvs)"
    "\<forall>a < 90. cln_mem (lb_client (t_lb ts)) a = fold (store (test_sigs F)) (calls_made N) hc a"
    using b(3) unfolding results_def by blast
  note c = called_returns [OF b(2) [unfolded test_called_def test_lists(3)] r(1) set_rounds, folded r(2)]
  have "list_all (\<lambda>(fn, cl). stores hc fn cl (cln_mem (lb_client (t_lb ts)))) (test_round F)"
    unfolding list_all_iff case_prod_unfold by (intro ballI called_stores [OF assms(7) b(2) r(3)])
  from conjI [OF b(1) conjI [OF c this]] show ?thesis by (intro exI)
qed

theorem test_cases_answered_witness:
  "\<exists>links ts. test_body zero_floats next_address (ticks 1000) zero_bytes zero_bytes zero_bytes zero_bytes Map.empty test_variables_mem = Some (links, ts) \<and>
     list_all (\<lambda>(fn, cl). stores test_variables_mem fn cl (cln_mem (lb_client (t_lb ts)))) (zip (test_functions zero_floats) test_calls)"
proof -
  have "prompt (ticks 1000)" by (simp add: prompt_ticks)
  from test_cases_answered [OF heap.allocator_axioms test_start_values(1,1,1,1,2,3) this, of zero_floats] show ?thesis by blast
qed

end
