(* ===== verification/Spec2Isabelle.thy ===== *)
theory Spec2Isabelle
  imports Link_Properties Wire_Properties Codec_Properties Call_Properties Text_Properties Test_Answers
begin

text \<open>
  bmRPC (\<^verbatim>\<open>src/src\<close>) is a C++ library for remote procedure calls over a byte stream, configured here as \<^verbatim>\<open>bmRPC.h\<close> sets it: binary
  protocol, 64-bit types, bytes swapped between client and server, and a loop-back link for its test program. This library
  models it as functions on explicit states, in the order of the code, and proves what the parts promise each other.

  \<^bold>\<open>Conventions.\<close> The host is a little-endian LP64 machine: \<^verbatim>\<open>size_t\<close> is a 64-bit word, \<^verbatim>\<open>int\<close> a 32-bit word, and index arithmetic wraps.
  Undefined behaviour (an index out of range, a null or dangling pointer, \<^verbatim>\<open>front()\<close> of an empty container) is the value
  \<open>None\<close> of the option monad, so that a theorem that a function returns \<open>Some\<close> also states its memory safety. Loops that need not end are
  \<^theory_text>\<open>partial_function (option)\<close>; for each there is a theorem that it returns. The clock is an infinite stream of
  nanosecond readings, one for every reading of the code; \<open>sleep_for\<close> shifts the rest of the stream. There is no fuel.

  \<^bold>\<open>Parts and theories.\<close>
  \<^item> \<open>Prelude\<close>, \<open>Ring\<close>: bytes and words, lists, and circular buffers as lists.
  \<^item> \<open>DataLink\<close>: \<^verbatim>\<open>bmRPCDataLink.h\<close>. The driver interface \<^verbatim>\<open>Comm\<close> is a record of functions; \<^verbatim>\<open>SharedBuffer\<close>, \<^verbatim>\<open>ServerCom\<close>, \<^verbatim>\<open>ClientCom\<close> and
    \<^verbatim>\<open>EmptyCom\<close> are its instances. The locale \<open>data_link\<close> is the contract that a stream of elements is kept in order, and \<open>bounded_link\<close> adds
    that a link with room takes something; the three drivers are interpretations.
  \<^item> \<open>Streamer\<close>: \<^verbatim>\<open>bmRPCStreamer.h\<close>, the two circular buffers over any \<open>data_link\<close>. \<open>out_stream\<close> and \<open>in_stream\<close> are the abstract
    contents of buffer and link.
  \<^item> \<open>Message\<close>, \<open>Serializer\<close>, \<open>Text_Serializer\<close>: \<^verbatim>\<open>bmRPCMessage.h\<close> and the binary and the text half of \<^verbatim>\<open>bmRPCSerializer.h\<close>,
    resumable state machines that refine the layouts \<open>wire\<close> and \<open>text_wire\<close> of a message.
  \<^item> \<open>Timeout\<close>: \<^verbatim>\<open>bmRPCTimeout.h\<close>.
  \<^item> \<open>Byteswap\<close>, \<open>AnyArg\<close>, \<open>Marshaller\<close>: \<^verbatim>\<open>bmRPCAnyArg.h\<close> and \<^verbatim>\<open>bmRPCMarshaller.h\<close>. A C++ type is a \<open>cpp_type\<close>, an object in memory an
    \<open>obj\<close>, memory a map from addresses. Allocation is a parameter with the contract \<open>allocator\<close>; the remote functions are parameters too.
    The templates that write are functions of \<^verbatim>\<open>stream::write\<close>, with the contract \<open>appending\<close>; the vector of bytes and the string stream are
    its interpretations.
  \<^item> \<open>Utilities\<close>, \<open>Text_Marshaller\<close>: \<^verbatim>\<open>bmRPCUtilities.cpp\<close> and the instances for strings of the stream functions and of the
    marshaller. The printing and the parsing of floating-point numbers is a parameter, the record \<open>text_floats\<close>; with the default precision of a
    stream, which the code keeps, it is the numbers of six decimal digits that come back.
  \<^item> \<open>Registry\<close>: \<^verbatim>\<open>bmRPCRegistry.h\<close>. It implements the contract \<open>name_table\<close>, a map from names to elements.
  \<^item> \<open>Peer\<close>: what \<^verbatim>\<open>RpcServer\<close> and \<^verbatim>\<open>RpcClient\<close> share, the queues and the receive and transmit phases of \<^verbatim>\<open>doLoop\<close>.
    \<open>Progress\<close> shows what a phase moves in a given number of turns: all of it, or as much as fits the link.
  \<^item> \<open>Server\<close>, \<open>Client\<close>: \<^verbatim>\<open>bmRPCServer.h\<close>, \<^verbatim>\<open>bmRPCClient.h\<close> and \<^verbatim>\<open>bmRPCStub.h\<close>.
  \<^item> \<open>Loopback\<close>, \<open>Throughput\<close>, \<open>Session\<close>, \<open>Main_Program\<close>: \<^verbatim>\<open>main.cpp\<close>, a server and a client over one shared buffer. \<open>loop_inv\<close> is the
    invariant of the whole system, \<open>runs\<close> the relation of all interleavings of calls and turns. \<open>turns_left\<close> is the measure of liveness: the turns
    until the first calls on their way are completed, which every turn decreases.
  \<^item> \<open>Test_Cases\<close>, \<open>Test_Setup\<close>, \<open>Test_Run\<close>, \<open>Test_Answers\<close>: \<^verbatim>\<open>bmRPCTest.cpp\<close>, the remote functions \<^verbatim>\<open>f0\<close> to \<^verbatim>\<open>f9\<close>, the 504 calls that are queued before the
    loop, and the function \<^verbatim>\<open>test\<close> with its test of three handles. The operations on floating-point numbers are a parameter, the record
    \<open>floats\<close>, and nothing is assumed of them. The invariant of the test's loop is \<open>test_inv\<close>.
  \<^item> \<open>Decode\<close>: the server's decoding of arbitrary bytes.

  \<^bold>\<open>Properties.\<close> Below: calls are completed in order and once, no run gets stuck, calls complete in time, and the program of \<^verbatim>\<open>main\<close>
  gets its answer. \<open>Link_Properties\<close>: the streamer and the link. \<open>Wire_Properties\<close>: serializer, deserializer and the phases.
  \<open>Codec_Properties\<close>: byte order, containers, identifiers and arguments. \<open>Text_Properties\<close>: the messages and the calls of the text protocol and the
  string utilities. \<open>Call_Properties\<close>: registry, server, client and time-out.
  \<open>Test_Run\<close>, \<open>Test_Answers\<close>: what the test cases do, and that their time is enough for all calls. Theorems about errors show, on the definitions, where the code does not do what it means to: a write of nothing marks an
  empty buffer full, a short write in \<^verbatim>\<open>flush\<close> corrupts the stream, a \<^verbatim>\<open>const\<close> pointer parameter shifts the results, a stray
  reply, a malformed request, a second handle (and with it the test cases), a request before \<^verbatim>\<open>connect\<close> and a function without parameters are undefined; in the text protocol a Boolean argument is always
  true and a string is cut at a blank.

  \<^bold>\<open>Bounds.\<close> Completion is proved for messages of any number and size: a turn of \<^verbatim>\<open>main\<close> moves 256 bytes in each direction, the capacity of the
  shared buffer, for clocks that give each loop 256 readings in its five milliseconds; a reading in every 19 microseconds is enough. The test has 36120
  bytes of requests and at most 32032 bytes of replies, 268 turns of less than 26.1 milliseconds, and 11766 milliseconds. Names are C strings and values
  are shorter than \<open>2 ^ 63\<close>; strings and vectors are shorter than 65536, the range of \<^verbatim>\<open>SIZE_T\<close>.

  \<^bold>\<open>Not modelled.\<close> The peers, stubs and skeletons are modelled for the binary protocol of this configuration; of the text protocol the
  messages, the serializers, the marshaller, the closure of a skeleton and the arguments of a call are. The type tables of 32-bit machines;
  console output, and with it the verdicts of the test cases, which compare floating-point
  numbers; the streamer test, which excludes the other tests when it is compiled. The messages \<^verbatim>\<open>tx_msg\<close> and \<^verbatim>\<open>rx_msg\<close> are \<^verbatim>\<open>static\<close> in \<^verbatim>\<open>doLoop\<close>, shared by all peers of one type; the model has them
  in the peer, as there is one server and one client. The time-outs of \<^verbatim>\<open>doLoop\<close> are declared with the empty base class \<^verbatim>\<open>TimeOut_t\<close> and
  used as \<^verbatim>\<open>TimeOutChrono\<close>, outside of their storage; the model has them as objects of \<^verbatim>\<open>TimeOutChrono\<close>, as \<^verbatim>\<open>main\<close> declares its own,
  and what is shown of \<^verbatim>\<open>doLoop\<close> is for that declaration.
\<close>

section \<open>The loop-back system\<close>

text \<open>The variables of the program of \<^verbatim>\<open>main\<close>, and a run of it up to the call.\<close>

abbreviation main_mem :: mem where
  "main_mem \<equiv> [10 \<mapsto> O_int 0, 20 \<mapsto> O_float 0, 30 \<mapsto> O_string []]"

abbreviation main_args :: "obj list" where
  "main_args \<equiv> [O_int 0, O_long 0xAA556432, O_float 0, O_string []]"

abbreviation zeros :: bytes where
  "zeros \<equiv> replicate 1024 0"

lemma start_ok: "length zeros = 1024" "finite (dom (Map.empty :: mem))"
  by simp_all

lemma main_mem_objects: "fsm_objects main_mem 10 20 30 main_args"
  by (simp add: fsm_objects_def)

lemma fsm_run:
  obtains st0 st where "loop_inv fsm_sigs [] [] st0" and "runs malloc fsm_sigs st0 [fsm_call 10 20 30 main_args] st"
proof -
  let ?st = "Loopback_new zeros zeros zeros zeros Map.empty main_mem"
  let ?as = "[Lvalue 10, By_value (O_long 0xAA556432), Lvalue 20, Lvalue 30]"
  obtain q c stub k p where c: "loop_inv fsm_sigs [] [] (?st\<lparr>lb_client := c, lb_server := p\<rparr>)" "tx_msg_buffer c = []" "cln_mem c = main_mem"
    "deref (cln_registry c) (Some q) = Some stub" "st_id stub = fsm_name" "st_invokations stub = 0"
    by (rule main_connects [OF start_ok(1,1,1,1,2), where hc = main_mem]) (rule that, assumption+)
  let ?b = "?st\<lparr>lb_client := c, lb_server := p\<rparr>"
  have pre: "deref (cln_registry (lb_client ?b)) (Some q) = Some stub" "\<not> tx_msg_full (lb_client ?b)" "fsm_sigs (st_id stub) = Some (T_int, fsm_args, fsm)"
    "actuals_ok fsm_args ?as main_args (cln_mem (lb_client ?b))"
    using c(2-5) fsm_sigs_name fsm_actuals(1) [OF main_mem_objects] by (simp_all add: tx_msg_full_def)
  have call: "fsm_call 10 20 30 main_args =
      \<lparr>c_name = st_id stub, c_id = st_invokations stub + 1, c_callback = Some 0, c_addresses = kept fsm_args ?as, c_args = main_args\<rparr>"
    using c(5,6) fsm_actuals(2) [OF main_mem_objects] by (simp add: fsm_call_def)
  obtain d where "asyncRPC fsm_args (Some q) (Some 0) ?as (lb_client ?b) = Some (True, d)"
    by (rule client_calls [OF c(1) pre fsm_valid(2) call fsm_call_typed [OF main_mem_objects]])
  from runs.call [OF runs.start pre(1,3,4) fsm_valid(2) call fsm_call_typed [OF main_mem_objects] this]
  have "runs malloc fsm_sigs ?b [fsm_call 10 20 30 main_args] (?b\<lparr>lb_client := d\<rparr>)" by (simp only: append_Nil)
  then show thesis by (rule that [OF c(1)])
qed

text \<open>C1. Whatever the order in which calls are made and the server's and the client's loops run, over any clocks that
  run on, the calls are completed in the order in which they were made and each once: those completed so far are a prefix of
  those made, their output arguments and only these were stored, their callbacks and only these were called, with the results
  of the functions, and all other calls are on their way as requests or replies.\<close>

theorem calls_exactly_once:
  assumes "allocator malloc" and "loop_inv sigs [] [] st0" and "runs malloc sigs st0 issued st"
  shows "\<exists>dn reps reqs. issued = dn @ reps @ reqs \<and> loop_inv sigs reps reqs st \<and>
    cln_mem (lb_client st) = fold (store sigs) dn (cln_mem (lb_client st0)) \<and>
    (\<exists>rvs. list_all2 (answered sigs) dn rvs \<and> cln_calls (lb_client st) = cln_calls (lb_client st0) @ concat (map2 c_calls dn rvs))"
  using allocator.runs_inv [OF assms(1,3,2)] by (auto simp: completed_def)

theorem calls_exactly_once_witness:
  "\<exists>st0 st dn rest. runs next_address fsm_sigs st0 [fsm_call 10 20 30 main_args] st \<and> [fsm_call 10 20 30 main_args] = dn @ rest \<and>
     cln_mem (lb_client st) = fold (store fsm_sigs) dn (cln_mem (lb_client st0))"
proof -
  obtain st0 st where r: "loop_inv fsm_sigs [] [] st0" "runs next_address fsm_sigs st0 [fsm_call 10 20 30 main_args] st" by (rule fsm_run)
  show ?thesis using r(2) calls_exactly_once [OF heap.allocator_axioms r] by blast
qed



text \<open>C3. Every call is answered, whatever the number and the size of the messages: if the loops have time for 256 turns
  each, then one turn of the loop of \<^verbatim>\<open>main\<close> for every 256 bytes of the requests and one for every 256 bytes of the replies complete
  all calls on their way, in order, and leave nothing in the queues, the buffers and the link.\<close>

theorem calls_complete:
  assumes "allocator malloc" and "loop_inv sigs reps reqs st" and "loop_timely clk"
    and "n = turns_for (wire_size (map request reqs)) + turns_for (wire_size (map (reply sigs) (reps @ reqs)))"
  shows "\<exists>st' clk'. main_turns malloc n clk st = Some (st', clk') \<and> loop_inv sigs [] [] st' \<and> completed sigs (reps @ reqs) st st'"
  by (rule allocator.main_turns_complete [OF assms])

theorem calls_complete_witness:
  "\<exists>st n st' clk'. main_turns next_address n (ticks 1000) st = Some (st', clk') \<and> completed fsm_sigs [fsm_call 10 20 30 main_args] st st'"
proof -
  obtain st where st: "loop_inv fsm_sigs [] [fsm_call 10 20 30 main_args] st"
    by (rule main_start_ok [OF start_ok(1,1,1,1,2) main_mem_objects])
  have t: "loop_timely (ticks 1000)" by (rule prompt_timely) (simp add: prompt_ticks)
  show ?thesis using calls_complete [OF heap.allocator_axioms st t refl] unfolding append_Nil by blast
qed



text \<open>C4. With a clock whose readings are at most 19 microseconds apart, sleeping aside, and an error text of at most 100
  characters the callback of \<^verbatim>\<open>main\<close> is called exactly once, with a valid return value zero.\<close>

theorem main_program_answers_call:
  assumes "allocator malloc" and "length stx = 1024" and "length srx = 1024" and "length ctx = 1024" and "length crx = 1024" and "finite (dom hs)"
    and "fsm_objects hc state sensor err xs" and "hc err = Some (O_string s)" and "length s \<le> 100" and "prompt clk"
  shows "\<exists>st rv. main_program malloc clk stx srx ctx crx hs hc state sensor err = Some st \<and> cln_mem (lb_client st) = hc \<and>
    cln_calls (lb_client st) = [(0, rv)] \<and> rv_valid rv \<and> (\<forall>h. getAs T_int (rv_value rv) h = Some (O_int 0))"
  using allocator.main_program_answers [OF assms] by (auto simp: return_value_def)

theorem main_program_answers_call_witness:
  "\<exists>st rv. main_program next_address (ticks 1000) zeros zeros zeros zeros Map.empty main_mem 10 20 30 = Some st \<and> cln_calls (lb_client st) = [(0, rv)] \<and> rv_valid rv"
  using main_program_answers_call [OF heap.allocator_axioms start_ok(1,1,1,1,2) main_mem_objects, of "[]" "ticks 1000"]
  by (auto simp: prompt_ticks)

end
